(* ===== verification/Prelude.thy ===== *)
theory Prelude
  imports Main "HOL-Library.Word" "HOL-Library.Monad_Syntax" "HOL-Library.Multiset"
begin

text \<open>
  Shared vocabulary of the development: the machine types of the code, the result type of
  operations that may abort, the ends of a list as optional pointers, facts about counters
  kept in machine words, a locale for the refinement of an operation sequence and a locale for
  transition systems with an inductive invariant.
\<close>

section \<open>Machine types\<close>

text \<open>
  \<open>size_t\<close> and \<open>uint64_t\<close> are 64 bits wide on the supported platforms, \<open>uint32_t\<close> 32 bits.
  A C pointer is an address or null.
\<close>

type_synonym size_t = "64 word"
type_synonym uint64 = "64 word"
type_synonym uint32 = "32 word"
type_synonym addr = nat
type_synonym ptr = "addr option"

text \<open>Storing a wider integer in an \<open>int\<close>.\<close>

definition to_int32 :: "int \<Rightarrow> int" where
  "to_int32 i = sint (word_of_int i :: 32 word)"

lemma to_int32_small: "- (2 ^ 31) \<le> i \<Longrightarrow> i < 2 ^ 31 \<Longrightarrow> to_int32 i = i"
  by (simp add: to_int32_def sint_sbintrunc' signed_take_bit_int_eq_self)

section \<open>Operations that may abort\<close>

text \<open>
  An operation that dereferences a null or a freed pointer, or whose \<open>assert\<close> fails, has no
  result: it returns \<open>None\<close>. A theorem that an operation returns \<open>Some\<close> therefore says that it
  is memory safe and that none of its assertions fires.
\<close>

definition assert_c :: "bool \<Rightarrow> unit option" where
  "assert_c b = (if b then Some () else None)"

lemma assert_c_simps [simp]:
  "assert_c True = Some ()"
  "assert_c False = None"
  "(assert_c b = Some u) \<longleftrightarrow> b"
  "(assert_c b = None) \<longleftrightarrow> \<not> b"
  by (auto simp: assert_c_def)

lemma assert_c_bind [simp]: "b \<Longrightarrow> Option.bind (assert_c b) f = f ()"
  by (simp add: assert_c_def)

lemma assert_c_bind_fail [simp]: "\<not> b \<Longrightarrow> Option.bind (assert_c b) f = None"
  by (simp add: assert_c_def)

section \<open>The ends of a list as pointers\<close>

primrec first_or :: "ptr \<Rightarrow> addr list \<Rightarrow> ptr" where
  "first_or n [] = n"
| "first_or n (x # xs) = Some x"

definition last_or :: "ptr \<Rightarrow> addr list \<Rightarrow> ptr" where
  "last_or p xs = (if xs = [] then p else Some (last xs))"

lemma last_or_simps [simp]:
  "last_or p [] = p"
  "last_or p (xs @ [x]) = Some x"
  "last_or p (x # xs) = last_or (Some x) xs"
  by (auto simp: last_or_def)

lemma last_or_append [simp]: "last_or p (xs @ ys) = last_or (last_or p xs) ys"
  by (auto simp: last_or_def)

lemma first_or_append [simp]: "first_or n (xs @ ys) = first_or (first_or n ys) xs"
  by (cases xs) auto

lemma first_or_Some_not_None [simp]: "first_or (Some x) xs \<noteq> None" "None \<noteq> first_or (Some x) xs"
  by (cases xs; simp)+

lemma first_or_None_iff [simp]: "first_or None xs = None \<longleftrightarrow> xs = []"
  by (cases xs) auto

lemma last_or_None_iff [simp]: "last_or None xs = None \<longleftrightarrow> xs = []"
  by (auto simp: last_or_def)

lemma first_or_Some_iff: "first_or None xs = Some x \<longleftrightarrow> (\<exists>ys. xs = x # ys)"
  by (cases xs) auto

lemma first_or_nonempty: "xs \<noteq> [] \<Longrightarrow> first_or n xs = Some (hd xs)"
  by (cases xs) auto

lemma last_or_nonempty: "xs \<noteq> [] \<Longrightarrow> last_or n xs = Some (last xs)"
  by (simp add: last_or_def)

section \<open>Counters in machine words\<close>

lemma unat_of_nat_64: "n < 2 ^ 64 \<Longrightarrow> unat (of_nat n :: size_t) = n"
  by (simp add: unat_of_nat take_bit_nat_eq_self)

lemma unat_of_nat_32: "n < 2 ^ 32 \<Longrightarrow> unat (of_nat n :: uint32) = n"
  by (simp add: unat_of_nat take_bit_nat_eq_self)

lemma of_nat_size_eq_0: "n < 2 ^ 64 \<Longrightarrow> (of_nat n :: size_t) = 0 \<longleftrightarrow> n = 0"
  by (metis unat_0 unat_of_nat_64 unat_eq_zero)

lemma unat_lt_64: "unat (x :: size_t) < 2 ^ 64"
  by (rule order_less_le_trans [OF unsigned_less]) simp

lemma unat_lt_32: "unat (x :: uint32) < 2 ^ 32"
  by (rule order_less_le_trans [OF unsigned_less]) simp

lemma word_Suc_unat: "(x::'a::len word) < y \<Longrightarrow> unat (x + 1) = Suc (unat x)"
proof -
  assume "x < y"
  then have "unat x < unat y" by (simp add: word_less_nat_alt)
  moreover have "unat y < 2 ^ LENGTH('a)" by (rule unsigned_less)
  ultimately have "Suc (unat x) < 2 ^ LENGTH('a)" by linarith
  then show ?thesis by (simp add: unat_word_ariths)
qed

lemma word_less_measure: "(x::'a::len word) < y \<Longrightarrow> unat y - unat (x + 1) < unat y - unat x"
  by (simp add: word_Suc_unat word_less_nat_alt)


lemma word_of_nat_diff: "k \<le> n \<Longrightarrow> of_nat n - of_nat k = (of_nat (n - k) :: 'a::len word)"
  by (simp add: of_nat_diff)

section \<open>Refinement of an operation sequence\<close>

text \<open>
  \<open>run step ops s\<close> performs the operations in order and collects their results. A component
  whose operations each simulate a specification (\<open>spec\<close>, partial: \<open>None\<close> where an operation
  must not be called) simulates it over every sequence of calls.
\<close>

primrec run :: "('op \<Rightarrow> 's \<Rightarrow> ('r \<times> 's) option) \<Rightarrow> 'op list \<Rightarrow> 's \<Rightarrow> ('r list \<times> 's) option" where
  "run step [] s = Some ([], s)"
| "run step (x # xs) s =
     Option.bind (step x s) (\<lambda>(r, s). Option.bind (run step xs s) (\<lambda>(rs, s). Some (r # rs, s)))"

lemma run_append:
  "run step (xs @ ys) s =
     Option.bind (run step xs s) (\<lambda>(rs, s). Option.bind (run step ys s) (\<lambda>(us, s). Some (rs @ us, s)))"
  by (induction xs arbitrary: s) (auto split: Option.bind_splits)

locale data_refinement =
  fixes rep :: "'s \<Rightarrow> 'a \<Rightarrow> bool"
    and step :: "'op \<Rightarrow> 's \<Rightarrow> ('r \<times> 's) option"
    and spec :: "'op \<Rightarrow> 'a \<Rightarrow> ('r \<times> 'a) option"
  assumes sim: "rep s a \<Longrightarrow> spec x a = Some (r, a') \<Longrightarrow> \<exists>s'. step x s = Some (r, s') \<and> rep s' a'"
begin

lemma run_sim:
  "rep s a \<Longrightarrow> run spec xs a = Some (rs, a') \<Longrightarrow> \<exists>s'. run step xs s = Some (rs, s') \<and> rep s' a'"
proof (induction xs arbitrary: s a rs)
  case (Cons x xs)
  obtain r b rs' where 1: "spec x a = Some (r, b)" "run spec xs b = Some (rs', a')" "rs = r # rs'"
    using Cons.prems(2) by (auto split: Option.bind_splits)
  obtain s1 where 2: "step x s = Some (r, s1)" "rep s1 b" using sim [OF Cons.prems(1) 1(1)] by auto
  obtain s' where "run step xs s1 = Some (rs', s')" "rep s' a'" using Cons.IH [OF 2(2) 1(2)] by auto
  with 1 2 show ?case by auto
qed simp

end

section \<open>Transition systems with an inductive invariant\<close>

locale invariant_system =
  fixes init :: "'s \<Rightarrow> bool"
    and step :: "'s \<Rightarrow> 's \<Rightarrow> bool"
    and inv :: "'s \<Rightarrow> bool"
  assumes inv_init: "init s \<Longrightarrow> inv s"
    and inv_step: "inv s \<Longrightarrow> step s t \<Longrightarrow> inv t"
begin

lemma inv_steps: "step\<^sup>*\<^sup>* s t \<Longrightarrow> inv s \<Longrightarrow> inv t"
  by (induction rule: rtranclp_induct) (auto intro: inv_step)

lemma inv_reachable: "init s \<Longrightarrow> step\<^sup>*\<^sup>* s t \<Longrightarrow> inv t"
  using inv_steps inv_init by blast

end

end
