(* ===== verification/Wait_Queue.thy ===== *)
theory Wait_Queue
  imports Prelude
begin

text \<open>
  \<open>WaitQueue1\<close> and \<open>WaitQueue\<close> of \<open>sync/wait_queue.h\<close>: singly linked queues of waiting entries
  behind a dummy node that is a member of the queue object. The store maps the address of a
  \<open>WaitQueueHook\<close> to its \<open>next\<close> pointer. Both are shown to be FIFO lists; \<open>WaitQueue\<close> when it is
  built without the optional functors. Operations hold the queue's lock for their whole body.
\<close>

section \<open>The store\<close>

type_synonym nheap = "addr \<rightharpoonup> ptr"

definition nset :: "addr \<Rightarrow> ptr \<Rightarrow> nheap \<Rightarrow> nheap option" where
  "nset p v h = (if h p = None then None else Some (h(p \<mapsto> v)))"

lemma nset_Some [simp]: "h p = Some k \<Longrightarrow> nset p v h = Some (h(p \<mapsto> v))"
  by (simp add: nset_def)

section \<open>WaitQueue1\<close>

record wait_queue1 =
  wdummy :: addr
  whead :: addr
  wtail :: addr
  wcount :: size_t

definition wq1_new :: "addr \<Rightarrow> nheap \<Rightarrow> wait_queue1 \<times> nheap" where
  "wq1_new d h = (\<lparr>wdummy = d, whead = d, wtail = d, wcount = 0\<rparr>, h(d \<mapsto> None))"

definition wq1_empty :: "wait_queue1 \<Rightarrow> bool" where
  "wq1_empty q \<longleftrightarrow> wcount q = 0"

definition wq1_size :: "wait_queue1 \<Rightarrow> size_t" where
  "wq1_size q = wcount q"

definition wq1_push :: "addr \<Rightarrow> wait_queue1 \<Rightarrow> nheap \<Rightarrow> (wait_queue1 \<times> nheap) option" where
  "wq1_push p q h = do {
     h \<leftarrow> nset (wtail q) (Some p) h;
     h \<leftarrow> nset p None h;
     let q = q\<lparr>wtail := p\<rparr>;
     Some (q\<lparr>wcount := wcount q + 1\<rparr>, h) }"

definition wq1_pop :: "wait_queue1 \<Rightarrow> nheap \<Rightarrow> (ptr \<times> wait_queue1 \<times> nheap) option" where
  "wq1_pop q h =
     (if whead q = wtail q then Some (None, q, h)
      else do {
        n \<leftarrow> h (whead q);
        p \<leftarrow> n;
        let q = (if wtail q = p then q\<lparr>wtail := whead q\<rparr> else q);
        m \<leftarrow> h p;
        h \<leftarrow> nset (whead q) m h;
        h \<leftarrow> nset p None h;
        Some (Some p, q\<lparr>wcount := wcount q - 1\<rparr>, h) })"

definition wq1_tryPop :: "wait_queue1 \<Rightarrow> nheap \<Rightarrow> (ptr \<times> wait_queue1 \<times> nheap) option" where
  "wq1_tryPop q h = (if wcount q = 0 then Some (None, q, h) else wq1_pop q h)"

text \<open>The destructor frees what it pops.\<close>

partial_function (option) wq1_drain :: "wait_queue1 \<Rightarrow> nheap \<Rightarrow> (wait_queue1 \<times> nheap) option" where
  "wq1_drain q h =
     Option.bind (wq1_pop q h) (\<lambda>r. case fst r of
        None \<Rightarrow> Some (snd r)
      | Some p \<Rightarrow> wq1_drain (fst (snd r)) ((snd (snd r))(p := None)))"

definition wq1_destroy :: "wait_queue1 \<Rightarrow> nheap \<Rightarrow> (wait_queue1 \<times> nheap) option" where
  "wq1_destroy q h = wq1_drain (q\<lparr>wcount := 0\<rparr>) h"

section \<open>WaitQueue\<close>

text \<open>
  \<open>check_\<close>, \<open>pos_\<close> and the two functors belong to an optional clean-up pass; an absent functor
  is \<open>None\<close>.
\<close>

record wait_queue = wait_queue1 +
  wcheck :: ptr
  wcheckF :: "(addr \<Rightarrow> bool) option"
  wpos :: ptr
  wposD :: size_t
  wposF :: "(addr \<Rightarrow> bool) option"

record cond_ret =
  canQueue :: bool
  needWait :: bool

definition wq_new :: "addr \<Rightarrow> (addr \<Rightarrow> bool) option \<Rightarrow> size_t \<Rightarrow> (addr \<Rightarrow> bool) option \<Rightarrow> nheap
    \<Rightarrow> wait_queue \<times> nheap" where
  "wq_new d cf pd pf h =
     (\<lparr>wdummy = d, whead = d, wtail = d, wcount = 0, wcheck = Some d, wcheckF = cf, wpos = None,
       wposD = pd, wposF = pf\<rparr>, h(d \<mapsto> None))"

text \<open>
  The clean-up loop \<open>for (i = 0; check_ && check_->next && i < 2; ++i)\<close>; the last component
  collects the entries whose reference it gives up (\<open>DecrementRef\<close>).
\<close>

primrec check_loop :: "nat \<Rightarrow> (addr \<Rightarrow> bool) \<Rightarrow> wait_queue \<Rightarrow> nheap \<Rightarrow> addr list
    \<Rightarrow> (wait_queue \<times> nheap \<times> addr list) option" where
  "check_loop 0 cf q h rel = Some (q, h, rel)"
| "check_loop (Suc i) cf q h rel =
     (case wcheck q of
        None \<Rightarrow> Some (q, h, rel)
      | Some c \<Rightarrow> do {
          n \<leftarrow> h c;
          (case n of
             None \<Rightarrow> Some (q, h, rel)
           | Some t \<Rightarrow>
               (if \<not> cf t then do {
                  m \<leftarrow> h t;
                  let q = (if wpos q = Some t then q\<lparr>wpos := m\<rparr> else q);
                  let q = (if wtail q = t then q\<lparr>wtail := c\<rparr> else q);
                  h \<leftarrow> nset c m h;
                  h \<leftarrow> nset t None h;
                  check_loop i cf q h (rel @ [t]) }
                else check_loop i cf (q\<lparr>wcheck := Some t\<rparr>) h rel)) })"

definition wq_push :: "addr \<Rightarrow> (size_t \<Rightarrow> cond_ret) option \<Rightarrow> wait_queue \<Rightarrow> nheap
    \<Rightarrow> (cond_ret \<times> wait_queue \<times> nheap \<times> addr list) option" where
  "wq_push p cond q h = do {
     let ret = (case cond of None \<Rightarrow> \<lparr>canQueue = True, needWait = True\<rparr> | Some f \<Rightarrow> f (wcount q));
     if cond \<noteq> None \<and> \<not> canQueue ret then Some (ret, q, h, [])
     else do {
       h \<leftarrow> nset (wtail q) (Some p) h;
       h \<leftarrow> nset p None h;
       let q = q\<lparr>wtail := p, wcount := wcount q + 1\<rparr>;
       let q = (if wcount q = wposD q then q\<lparr>wpos := Some p\<rparr> else q);
       if wcount q < max (wposD q) (wposD q + 16) then Some (ret, q, h, [])
       else case wcheckF q of
         None \<Rightarrow> Some (ret, q, h, [])
       | Some cf \<Rightarrow> do {
           stuck \<leftarrow> (case wcheck q of None \<Rightarrow> Some True
                      | Some c \<Rightarrow> map_option (\<lambda>n. n = None) (h c));
           let q = (if stuck then q\<lparr>wcheck := wpos q\<rparr> else q);
           (q, h, rel) \<leftarrow> check_loop 2 cf q h [];
           Some (ret, q, h, rel) } } }"

text \<open>The loop of \<open>pop\<close> that advances \<open>pos_\<close> to the next entry its functor accepts.\<close>

partial_function (option) pos_loop :: "(addr \<Rightarrow> bool) option \<Rightarrow> ptr \<Rightarrow> nheap \<Rightarrow> ptr option" where
  "pos_loop pf pos h =
     (case pos of
        None \<Rightarrow> Some None
      | Some c \<Rightarrow> (case pf of
            None \<Rightarrow> Some pos
          | Some f \<Rightarrow> Option.bind (h c) (\<lambda>n. if f c then Some n else pos_loop pf n h)))"

definition wq_pop :: "wait_queue \<Rightarrow> nheap \<Rightarrow> (ptr \<times> wait_queue \<times> nheap) option" where
  "wq_pop q h =
     (if whead q = wtail q then Some (None, q, h)
      else do {
        n \<leftarrow> h (whead q);
        p \<leftarrow> n;
        let q = (if wtail q = p then q\<lparr>wtail := whead q\<rparr> else q);
        m \<leftarrow> h p;
        let q = (if wcheck q = Some p then q\<lparr>wcheck := m\<rparr> else q);
        h \<leftarrow> nset (whead q) m h;
        h \<leftarrow> nset p None h;
        ps \<leftarrow> pos_loop (wposF q) (wpos q) h;
        Some (Some p, q\<lparr>wpos := ps, wcount := wcount q - 1\<rparr>, h) })"

definition wq_tryPop :: "wait_queue \<Rightarrow> nheap \<Rightarrow> (ptr \<times> wait_queue \<times> nheap) option" where
  "wq_tryPop q h = (if wcount q = 0 then Some (None, q, h) else wq_pop q h)"

section \<open>What a queue represents\<close>

primrec nseg :: "nheap \<Rightarrow> addr list \<Rightarrow> bool" where
  "nseg h [] \<longleftrightarrow> True"
| "nseg h (x # xs) \<longleftrightarrow> h x = Some (first_or None xs) \<and> nseg h xs"

lemma nseg_snoc:
  "nseg h (xs @ [x]) \<Longrightarrow> x \<notin> set xs \<Longrightarrow> y \<notin> set (xs @ [x]) \<Longrightarrow>
   nseg (h(x \<mapsto> Some y, y \<mapsto> None)) (xs @ [x, y])"
  by (induction xs) (auto simp: fun_upd_def split: if_splits)

lemma nseg_other [simp]: "a \<notin> set xs \<Longrightarrow> nseg (h(a := k)) xs = nseg h xs"
  by (induction xs) auto

lemma nseg_dom: "nseg h xs \<Longrightarrow> set xs \<subseteq> dom h"
  by (induction xs) auto

definition wq_ok :: "nheap \<Rightarrow> ('a) wait_queue1_scheme \<Rightarrow> addr list \<Rightarrow> bool" where
  "wq_ok h q xs \<longleftrightarrow>
     nseg h (wdummy q # xs) \<and> distinct (wdummy q # xs) \<and> whead q = wdummy q
     \<and> wtail q = last (wdummy q # xs) \<and> wcount q = of_nat (length xs)"

lemma wq_ok_dom: "wq_ok h q xs \<Longrightarrow> insert (wdummy q) (set xs) \<subseteq> dom h"
  unfolding wq_ok_def by (metis list.set(2) nseg_dom)

lemma wq_ok_nonempty: "wq_ok h q xs \<Longrightarrow> whead q = wtail q \<longleftrightarrow> xs = []"
  using last_in_set [of xs] by (auto simp: wq_ok_def)

text \<open>The steps that \<open>push\<close> and \<open>pop\<close> of both queues share.\<close>

lemma wq_push_core:
  assumes ok: "wq_ok h q xs" and p: "p \<in> dom h" "p \<notin> insert (wdummy q) (set xs)"
  defines "h' \<equiv> h(wtail q \<mapsto> Some p, p \<mapsto> None)"
  shows "nset (wtail q) (Some p) h = Some (h(wtail q \<mapsto> Some p))"
    "nset p None (h(wtail q \<mapsto> Some p)) = Some h'"
    "wq_ok h' (q\<lparr>wtail := p, wcount := wcount q + 1\<rparr>) (xs @ [p])"
proof -
  obtain us where us: "wdummy q # xs = us @ [wtail q]"
    using ok unfolding wq_ok_def by (metis append_butlast_last_id list.distinct(1))
  have "wtail q \<in> dom h" using wq_ok_dom [OF ok] us
    by (metis in_set_conv_decomp list.set(2) subsetD)
  then show "nset (wtail q) (Some p) h = Some (h(wtail q \<mapsto> Some p))"
    "nset p None (h(wtail q \<mapsto> Some p)) = Some h'"
    using p(1) by (auto simp: nset_def h'_def)
  have eq: "wdummy q # xs @ [p] = us @ [wtail q, p]" using us by simp
  have "nseg h (us @ [wtail q])" "wtail q \<notin> set us" "p \<notin> set (us @ [wtail q])"
    using ok p(2) us unfolding wq_ok_def by (metis, metis distinct_append disjoint_insert(1) distinct1_rotate
      empty_set list.simps(15) not_distinct_conv_prefix, metis list.set(2))
  then have "nseg h' (wdummy q # xs @ [p])"
    unfolding eq h'_def by (rule nseg_snoc)
  then show "wq_ok h' (q\<lparr>wtail := p, wcount := wcount q + 1\<rparr>) (xs @ [p])"
    using ok p(2) by (auto simp: wq_ok_def)
qed

lemma wq_pop_core:
  assumes ok: "wq_ok h q (x # xs)"
  defines "h' \<equiv> h(whead q \<mapsto> first_or None xs, x \<mapsto> None)"
  shows "h (whead q) = Some (Some x)" "h x = Some (first_or None xs)" "x \<noteq> whead q"
    "wtail q = x \<longleftrightarrow> xs = []"
    "wq_ok h' (q\<lparr>wtail := (if xs = [] then whead q else wtail q), wcount := wcount q - 1\<rparr>) xs"
  using ok last_in_set [of xs] by (auto simp: wq_ok_def h'_def)

lemma wq1_push_ok:
  assumes "wq_ok h q xs" "p \<in> dom h" "p \<notin> insert (wdummy q) (set xs)"
  shows "wq1_push p q h = Some (q\<lparr>wtail := p, wcount := wcount q + 1\<rparr>, h(wtail q \<mapsto> Some p, p \<mapsto> None))"
  using wq_push_core [OF assms] by (simp add: wq1_push_def Let_def)

lemma wq1_pop_ok:
  assumes "wq_ok h q (x # xs)"
  shows "wq1_pop q h = Some (Some x,
    q\<lparr>wtail := (if xs = [] then whead q else wtail q), wcount := wcount q - 1\<rparr>,
    h(whead q \<mapsto> first_or None xs, x \<mapsto> None))"
  using wq_pop_core [OF assms] wq_ok_nonempty [OF assms] by (auto simp: wq1_pop_def Let_def)

lemma wq1_pop_empty: "wq_ok h q [] \<Longrightarrow> wq1_pop q h = Some (None, q, h)"
  using wq_ok_nonempty [of h q "[]"] by (simp add: wq1_pop_def)

lemma wq_ok_count: "wq_ok h q xs \<Longrightarrow> length xs < 2 ^ 64 \<Longrightarrow> wcount q = 0 \<longleftrightarrow> xs = []"
  by (simp add: wq_ok_def of_nat_size_eq_0)

text \<open>A \<open>WaitQueue\<close> built without functors.\<close>

lemma wq_ok_cong:
  "wdummy q' = wdummy q \<Longrightarrow> whead q' = whead q \<Longrightarrow> wtail q' = wtail q \<Longrightarrow> wcount q' = wcount q \<Longrightarrow>
   wq_ok h q xs \<Longrightarrow> wq_ok h q' xs"
  by (simp add: wq_ok_def)

lemma wq_push_ok:
  assumes "wq_ok h q xs" "p \<in> dom h" "p \<notin> insert (wdummy q) (set xs)" "wcheckF q = None"
  shows "\<exists>q'. wq_push p None q h = Some (\<lparr>canQueue = True, needWait = True\<rparr>, q',
      h(wtail q \<mapsto> Some p, p \<mapsto> None), [])
    \<and> wq_ok (h(wtail q \<mapsto> Some p, p \<mapsto> None)) q' (xs @ [p])
    \<and> wdummy q' = wdummy q \<and> wcheckF q' = None \<and> wposF q' = wposF q"
proof -
  note C = wq_push_core [OF assms(1,2,3)]
  define q1 where "q1 = q\<lparr>wtail := p, wcount := wcount q + 1\<rparr>"
  define q' where "q' = (if wcount q1 = wposD q1 then q1\<lparr>wpos := Some p\<rparr> else q1)"
  have "wq_push p None q h = Some (\<lparr>canQueue = True, needWait = True\<rparr>, q',
      h(wtail q \<mapsto> Some p, p \<mapsto> None), [])"
    using C(1,2) assms(4) by (auto simp: wq_push_def Let_def q'_def q1_def)
  moreover have "wq_ok (h(wtail q \<mapsto> Some p, p \<mapsto> None)) q' (xs @ [p])"
    by (rule wq_ok_cong [OF _ _ _ _ C(3)]) (simp_all add: q'_def q1_def)
  moreover have "wdummy q' = wdummy q \<and> wcheckF q' = None \<and> wposF q' = wposF q"
    using assms(4) by (simp add: q'_def q1_def)
  ultimately show ?thesis by blast
qed

lemma wq_pop_ok:
  assumes "wq_ok h q (x # xs)" "wposF q = None"
  shows "\<exists>q'. wq_pop q h = Some (Some x, q', h(whead q \<mapsto> first_or None xs, x \<mapsto> None))
    \<and> wq_ok (h(whead q \<mapsto> first_or None xs, x \<mapsto> None)) q' xs
    \<and> wdummy q' = wdummy q \<and> wcheckF q' = wcheckF q \<and> wposF q' = None"
proof -
  have pos: "pos_loop None p h = Some p" for p h
    by (subst pos_loop.simps) (simp split: option.splits)
  show ?thesis
    using wq_pop_core [OF assms(1)] wq_ok_nonempty [OF assms(1)] assms(2)
    by (auto simp: wq_pop_def Let_def wq_ok_def pos)
qed

section \<open>Refinement: both queues are lists\<close>

text \<open>
  The specification keeps the queued entries and the entries that are in no queue. \<open>push\<close> of an
  entry that is queued is forbidden (\<open>None\<close>): the code would cut the queue.
\<close>

datatype wop = WPush addr | WPop | WTryPop | WSize | WEmpty

datatype wres = WDone | WPtr ptr | WNum size_t | WBool bool

fun wstep1 :: "wop \<Rightarrow> wait_queue1 \<times> nheap \<Rightarrow> (wres \<times> wait_queue1 \<times> nheap) option" where
  "wstep1 (WPush p) (q, h) = map_option (Pair WDone) (wq1_push p q h)"
| "wstep1 WPop (q, h) = map_option (apfst WPtr) (wq1_pop q h)"
| "wstep1 WTryPop (q, h) = map_option (apfst WPtr) (wq1_tryPop q h)"
| "wstep1 WSize (q, h) = Some (WNum (wq1_size q), q, h)"
| "wstep1 WEmpty (q, h) = Some (WBool (wq1_empty q), q, h)"

fun wstep :: "wop \<Rightarrow> wait_queue \<times> nheap \<Rightarrow> (wres \<times> wait_queue \<times> nheap) option" where
  "wstep (WPush p) (q, h) = map_option (\<lambda>(r, q, h, rel). (WDone, q, h)) (wq_push p None q h)"
| "wstep WPop (q, h) = map_option (apfst WPtr) (wq_pop q h)"
| "wstep WTryPop (q, h) = map_option (apfst WPtr) (wq_tryPop q h)"
| "wstep WSize (q, h) = Some (WNum (wcount q), q, h)"
| "wstep WEmpty (q, h) = Some (WBool (wcount q = 0), q, h)"

fun wspec :: "wop \<Rightarrow> addr list \<times> addr set \<Rightarrow> (wres \<times> addr list \<times> addr set) option" where
  "wspec (WPush p) (xs, F) = (if p \<in> F then Some (WDone, xs @ [p], F - {p}) else None)"
| "wspec WPop ([], F) = Some (WPtr None, [], F)"
| "wspec WPop (x # xs, F) = Some (WPtr (Some x), xs, insert x F)"
| "wspec WTryPop ([], F) = Some (WPtr None, [], F)"
| "wspec WTryPop (x # xs, F) = Some (WPtr (Some x), xs, insert x F)"
| "wspec WSize (xs, F) = Some (WNum (of_nat (length xs)), xs, F)"
| "wspec WEmpty (xs, F) = Some (WBool (xs = []), xs, F)"

definition wq_rep :: "('a wait_queue1_scheme) \<times> nheap \<Rightarrow> addr list \<times> addr set \<Rightarrow> bool" where
  "wq_rep s a \<longleftrightarrow> wq_ok (snd s) (fst s) (fst a) \<and> finite (dom (snd s)) \<and> card (dom (snd s)) < 2 ^ 64
     \<and> snd a \<subseteq> dom (snd s) - insert (wdummy (fst s)) (set (fst a))"

lemma wq_rep_length: "wq_rep (q, h) (xs, F) \<Longrightarrow> length xs < 2 ^ 64"
proof -
  assume rep: "wq_rep (q, h) (xs, F)"
  then have "wq_ok h q xs" by (simp add: wq_rep_def)
  then have "distinct xs" "set xs \<subseteq> dom h" using wq_ok_dom [of h q xs] by (auto simp: wq_ok_def)
  then have "length xs \<le> card (dom h)"
    using rep by (metis card_mono distinct_card fst_conv snd_conv wq_rep_def)
  then show ?thesis using rep by (simp add: wq_rep_def)
qed

lemma wq_rep_push:
  assumes rep: "wq_rep (q, h) (xs, F)" and p: "p \<in> F" and q': "wdummy q' = wdummy q"
    and ok: "wq_ok (h(wtail q \<mapsto> Some p, p \<mapsto> None)) q' (xs @ [p])"
  shows "wq_rep (q', h(wtail q \<mapsto> Some p, p \<mapsto> None)) (xs @ [p], F - {p})"
proof -
  have "wtail q \<in> dom h" using rep wq_ok_dom [of h q xs] unfolding wq_rep_def wq_ok_def
    by (metis fst_conv last_in_set list.set(2) list.simps(3) snd_conv subset_eq)
  then have "dom (h(wtail q \<mapsto> Some p, p \<mapsto> None)) = dom h" using rep p by (auto simp: wq_rep_def)
  then show ?thesis using rep p q' ok by (auto simp: wq_rep_def)
qed

lemma wq_rep_pop:
  assumes rep: "wq_rep (q, h) (x # xs, F)" and q': "wdummy q' = wdummy q"
    and ok: "wq_ok (h(whead q \<mapsto> first_or None xs, x \<mapsto> None)) q' xs"
  shows "wq_rep (q', h(whead q \<mapsto> first_or None xs, x \<mapsto> None)) (xs, insert x F)"
proof -
  have q: "wq_ok h q (x # xs)" using rep by (simp add: wq_rep_def)
  have "dom (h(whead q \<mapsto> first_or None xs, x \<mapsto> None)) = dom h"
    using wq_pop_core(1,2) [OF q] by auto
  then show ?thesis using rep q' ok q wq_ok_dom [OF q] by (auto simp: wq_rep_def wq_ok_def)
qed

lemma wq1_push_sim:
  assumes rep: "wq_rep (q, h) (xs, F)" and p: "p \<in> F"
  shows "\<exists>s'. wq1_push p q h = Some s' \<and> wq_rep s' (xs @ [p], F - {p})"
proof -
  have ok: "wq_ok h q xs" "p \<in> dom h" "p \<notin> insert (wdummy q) (set xs)"
    using rep p by (auto simp: wq_rep_def)
  show ?thesis
    using wq1_push_ok [OF ok] wq_rep_push [OF rep p _ wq_push_core(3) [OF ok]] by simp
qed

lemma wq1_pop_sim:
  assumes rep: "wq_rep (q, h) (x # xs, F)"
  shows "\<exists>s'. wq1_pop q h = Some (Some x, s') \<and> wq_rep s' (xs, insert x F)"
proof -
  have ok: "wq_ok h q (x # xs)" using rep by (simp add: wq_rep_def)
  show ?thesis using wq1_pop_ok [OF ok] wq_rep_pop [OF rep _ wq_pop_core(5) [OF ok]] by simp
qed

lemma wq_push_sim:
  assumes rep: "wq_rep (q, h) (xs, F)" and p: "p \<in> F" and none: "wcheckF q = None"
  shows "\<exists>r q' h'. wq_push p None q h = Some (r, q', h', []) \<and> wq_rep (q', h') (xs @ [p], F - {p})
    \<and> wcheckF q' = None \<and> wposF q' = wposF q"
proof -
  have ok: "wq_ok h q xs" "p \<in> dom h" "p \<notin> insert (wdummy q) (set xs)"
    using rep p by (auto simp: wq_rep_def)
  show ?thesis using wq_push_ok [OF ok none] wq_rep_push [OF rep p] by blast
qed

lemma wq_pop_sim:
  assumes rep: "wq_rep (q, h) (x # xs, F)" and none: "wposF q = None"
  shows "\<exists>q' h'. wq_pop q h = Some (Some x, q', h') \<and> wq_rep (q', h') (xs, insert x F)
    \<and> wcheckF q' = wcheckF q \<and> wposF q' = None"
proof -
  have ok: "wq_ok h q (x # xs)" using rep by (simp add: wq_rep_def)
  show ?thesis using wq_pop_ok [OF ok none] wq_rep_pop [OF rep] by blast
qed

lemma wq_rep_ok: "wq_rep (q, h) (xs, F) \<Longrightarrow> wq_ok h q xs"
  by (simp add: wq_rep_def)

lemma wq_rep_count:
  assumes "wq_rep (q, h) (xs, F)"
  shows "wcount q = of_nat (length xs)" "wcount q = 0 \<longleftrightarrow> xs = []"
  using wq_rep_ok [OF assms] wq_ok_count [OF wq_rep_ok [OF assms] wq_rep_length [OF assms]]
  by (simp_all add: wq_ok_def)

lemma wq1_sim:
  assumes "wq_rep s a" "wspec x a = Some (r, a')"
  shows "\<exists>s'. wstep1 x s = Some (r, s') \<and> wq_rep s' a'"
proof -
  obtain q h where s: "s = (q, h)" by (cases s)
  obtain xs F where a: "a = (xs, F)" by (cases a)
  note rep = assms(1) [unfolded s a]
  note cnt = wq_rep_count [OF rep]
  show ?thesis
  proof (cases x)
    case (WPush p)
    then have p: "p \<in> F" and res: "r = WDone" "a' = (xs @ [p], F - {p})"
      using assms(2) by (auto simp: a split: if_splits)
    show ?thesis using wq1_push_sim [OF rep p] WPush res by (auto simp: s)
  next
    case WPop
    then show ?thesis
      using rep wq1_pop_empty [OF wq_rep_ok] wq1_pop_sim [of q h _ _ F] assms(2)
      by (cases xs) (fastforce simp: s a)+
  next
    case WTryPop
    then show ?thesis
      using rep cnt wq1_pop_sim [of q h _ _ F] assms(2)
      by (cases xs) (fastforce simp: s a wq1_tryPop_def)+
  qed (use rep assms(2) cnt in \<open>auto simp: s a wq1_size_def wq1_empty_def\<close>)
qed

interpretation wq1: data_refinement wq_rep wstep1 wspec
  by unfold_locales (rule wq1_sim)

text \<open>A \<open>WaitQueue\<close> without functors.\<close>

definition plain_rep :: "wait_queue \<times> nheap \<Rightarrow> addr list \<times> addr set \<Rightarrow> bool" where
  "plain_rep s a \<longleftrightarrow> wq_rep s a \<and> wcheckF (fst s) = None \<and> wposF (fst s) = None"

lemma wq_sim:
  assumes "plain_rep s a" "wspec x a = Some (r, a')"
  shows "\<exists>s'. wstep x s = Some (r, s') \<and> plain_rep s' a'"
proof -
  obtain q h where s: "s = (q, h)" by (cases s)
  obtain xs F where a: "a = (xs, F)" by (cases a)
  have rep: "wq_rep (q, h) (xs, F)" and plain: "wcheckF q = None" "wposF q = None"
    using assms(1) by (auto simp: s a plain_rep_def)
  note cnt = wq_rep_count [OF rep]
  have emp: "xs = [] \<Longrightarrow> wq_pop q h = Some (None, q, h)"
    using wq_ok_nonempty [OF wq_rep_ok [OF rep]] by (simp add: wq_pop_def)
  show ?thesis
  proof (cases x)
    case (WPush p)
    then have p: "p \<in> F" and res: "r = WDone" "a' = (xs @ [p], F - {p})"
      using assms(2) by (auto simp: a split: if_splits)
    show ?thesis using wq_push_sim [OF rep p plain(1)] WPush res plain by (auto simp: s plain_rep_def)
  next
    case WPop
    then show ?thesis
      using rep emp wq_pop_sim [of q h _ _ F] assms plain
      by (cases xs) (fastforce simp: s a plain_rep_def)+
  next
    case WTryPop
    then show ?thesis
      using rep cnt wq_pop_sim [of q h _ _ F] assms plain
      by (cases xs) (fastforce simp: s a plain_rep_def wq_tryPop_def)+
  qed (use assms cnt in \<open>auto simp: s a\<close>)
qed

interpretation wqp: data_refinement plain_rep wstep wspec
  by unfold_locales (rule wq_sim)

section \<open>Properties\<close>

text \<open>
  C23: A \<open>WaitQueue1\<close> hands out the waiting entries in the order they came, over every sequence
  of \<open>push\<close>, \<open>pop\<close>, \<open>tryPop\<close>, \<open>size\<close> and \<open>empty\<close> calls that pushes no queued entry; every call
  returns what the list returns and no null pointer is followed.
\<close>

theorem wait_queue1_refines_fifo:
  assumes "wq_rep (q, h) (xs, F)" and "run wspec ops (xs, F) = Some (rs, ys, G)"
  shows "\<exists>q' h'. run wstep1 ops (q :: wait_queue1, h) = Some (rs, q', h') \<and> wq_rep (q', h') (ys, G)"
  using wq1.run_sim [OF assms] by auto

definition wq_store :: nheap where
  "wq_store = [0 \<mapsto> None, 1 \<mapsto> None, 2 \<mapsto> None]"

lemma wait_queue1_refines_fifo_witness:
  "\<exists>q' h'. run wstep1 [WPush 2, WPush 1, WPop, WPush 2, WSize, WTryPop, WTryPop, WTryPop]
       (fst (wq1_new 0 wq_store), wq_store)
     = Some ([WDone, WDone, WPtr (Some 2), WDone, WNum 2, WPtr (Some 1), WPtr (Some 2), WPtr None], q', h')
     \<and> wq_rep (q', h') ([], {1, 2})"
proof -
  have "wq_rep (fst (wq1_new 0 wq_store), wq_store) ([], {1, 2})"
    by (simp add: wq_rep_def wq_ok_def wq1_new_def wq_store_def)
  then show ?thesis by (rule wait_queue1_refines_fifo) auto
qed

text \<open>
  A \<open>WaitQueue\<close> that is built without functors (the constructor's defaults) is the same FIFO
  queue: its \<open>check_\<close> and \<open>pos_\<close> bookkeeping never changes a result.
\<close>

theorem wait_queue_refines_fifo:
  assumes "plain_rep (q, h) (xs, F)" and "run wspec ops (xs, F) = Some (rs, ys, G)"
  shows "\<exists>q' h'. run wstep ops (q, h) = Some (rs, q', h') \<and> plain_rep (q', h') (ys, G)"
  using wqp.run_sim [OF assms] by auto

lemma wait_queue_refines_fifo_witness:
  "\<exists>q' h'. run wstep [WPush 2, WPush 1, WPop, WSize, WTryPop, WTryPop]
       (fst (wq_new 0 None (- 1) None wq_store), wq_store)
     = Some ([WDone, WDone, WPtr (Some 2), WNum 1, WPtr (Some 1), WPtr None], q', h')
     \<and> plain_rep (q', h') ([], {1, 2})"
proof -
  have "plain_rep (fst (wq_new 0 None (- 1) None wq_store), wq_store) ([], {1, 2})"
    by (simp add: plain_rep_def wq_rep_def wq_ok_def wq_new_def wq_store_def)
  then show ?thesis by (rule wait_queue_refines_fifo) auto
qed

end
