(* ===== verification/Spinlock.thy ===== *)
theory Spinlock
  imports Prelude
begin

text \<open>
  The locks of \<open>common/spinlock.h\<close>. \<open>LFLock\<close> and \<open>LFLock2\<close> share a contract (\<open>spin_lock\<close>): an
  atomic exchange that reports the old value and a release. Threads that call \<open>lock\<close>,
  \<open>try_lock\<close> and \<open>unlock\<close> are a step relation whose steps are the single atomic accesses, so the
  spin loop of \<open>lock\<close> can be interrupted between two tries. \<open>BooleanFakeLock\<close> and \<open>FakeLock\<close> are
  the stand-ins for single threaded use.
\<close>

section \<open>LFLock\<close>

record lflock =
  flag :: bool

definition lflock_new :: lflock where
  "lflock_new = \<lparr>flag = False\<rparr>"

text \<open>One turn of \<open>while (flag.test_and_set ()) ;\<close>: the old value decides whether to go on.\<close>

definition lflock_test_and_set :: "lflock \<Rightarrow> bool \<times> lflock" where
  "lflock_test_and_set l = (flag l, l\<lparr>flag := True\<rparr>)"

definition lflock_try_lock :: "lflock \<Rightarrow> bool \<times> lflock" where
  "lflock_try_lock l = (let (old, l) = lflock_test_and_set l in (\<not> old, l))"

definition lflock_unlock :: "lflock \<Rightarrow> lflock option" where
  "lflock_unlock l = Some (l\<lparr>flag := False\<rparr>)"

section \<open>LFLock2\<close>

record lflock2 =
  lstate :: bool

definition lflock2_new :: lflock2 where
  "lflock2_new = \<lparr>lstate = False\<rparr>"

definition lflock2_exchange :: "lflock2 \<Rightarrow> bool \<times> lflock2" where
  "lflock2_exchange l = (lstate l, l\<lparr>lstate := True\<rparr>)"

definition lflock2_try_lock :: "lflock2 \<Rightarrow> bool \<times> lflock2" where
  "lflock2_try_lock l = (let (old, l) = lflock2_exchange l in (\<not> old, l))"

text \<open>Releasing a free lock throws \<open>std::logic_error\<close> (\<open>None\<close>).\<close>

definition lflock2_unlock :: "lflock2 \<Rightarrow> lflock2 option" where
  "lflock2_unlock l = (if \<not> lstate l then None else Some (l\<lparr>lstate := False\<rparr>))"

definition lflock2_is_lock :: "lflock2 \<Rightarrow> bool" where
  "lflock2_is_lock l = lstate l"

section \<open>BooleanFakeLock and FakeLock\<close>

record boolean_fake_lock =
  locked_b :: bool

text \<open>\<open>while (!locked_) locked_ = true;\<close> leaves the loop after at most one turn.\<close>

function bfl_lock :: "boolean_fake_lock \<Rightarrow> boolean_fake_lock" where
  "bfl_lock l = (if \<not> locked_b l then bfl_lock (l\<lparr>locked_b := True\<rparr>) else l)"
  by pat_completeness auto
termination
  by (relation "measure (\<lambda>l. if locked_b l then 0 else 1)") auto

declare bfl_lock.simps [simp del]

definition bfl_is_lock :: "boolean_fake_lock \<Rightarrow> bool" where
  "bfl_is_lock l = locked_b l"

definition bfl_try_lock :: "boolean_fake_lock \<Rightarrow> bool \<times> boolean_fake_lock" where
  "bfl_try_lock l = (let ret = \<not> locked_b l in (ret, if ret then l\<lparr>locked_b := True\<rparr> else l))"

definition bfl_unlock :: "boolean_fake_lock \<Rightarrow> boolean_fake_lock option" where
  "bfl_unlock l = do { assert_c (locked_b l); Some (l\<lparr>locked_b := False\<rparr>) }"

definition fake_lock :: "unit \<Rightarrow> unit" where
  "fake_lock l = l"

definition fake_is_lock :: "unit \<Rightarrow> bool" where
  "fake_is_lock l = False"

definition fake_try_lock :: "unit \<Rightarrow> bool \<times> unit" where
  "fake_try_lock l = (True, l)"

definition fake_unlock :: "unit \<Rightarrow> unit option" where
  "fake_unlock l = Some l"

section \<open>Threads on a lock\<close>

type_synonym tid = nat

datatype lpc = Outside | Spinning | Inside

record 'l lock_sys =
  lk :: 'l
  lpc :: "tid \<Rightarrow> lpc"

text \<open>
  \<open>xchg\<close> is the atomic exchange, \<open>rel\<close> the release. A thread releases only a lock it holds, as
  the scoped guards of the code do.
\<close>

inductive lock_step :: "('l \<Rightarrow> bool \<times> 'l) \<Rightarrow> ('l \<Rightarrow> 'l option) \<Rightarrow> 'l lock_sys \<Rightarrow> 'l lock_sys \<Rightarrow> bool"
  for xchg rel where
  call_lock: "lpc s t = Outside \<Longrightarrow> lock_step xchg rel s (s\<lparr>lpc := (lpc s)(t := Spinning)\<rparr>)"
| spin: "lpc s t = Spinning \<Longrightarrow> xchg (lk s) = (True, l) \<Longrightarrow> lock_step xchg rel s (s\<lparr>lk := l\<rparr>)"
| acquire: "lpc s t = Spinning \<Longrightarrow> xchg (lk s) = (False, l) \<Longrightarrow>
    lock_step xchg rel s (s\<lparr>lk := l, lpc := (lpc s)(t := Inside)\<rparr>)"
| try_ok: "lpc s t = Outside \<Longrightarrow> xchg (lk s) = (False, l) \<Longrightarrow>
    lock_step xchg rel s (s\<lparr>lk := l, lpc := (lpc s)(t := Inside)\<rparr>)"
| try_fail: "lpc s t = Outside \<Longrightarrow> xchg (lk s) = (True, l) \<Longrightarrow> lock_step xchg rel s (s\<lparr>lk := l\<rparr>)"
| release: "lpc s t = Inside \<Longrightarrow> rel (lk s) = Some l \<Longrightarrow>
    lock_step xchg rel s (s\<lparr>lk := l, lpc := (lpc s)(t := Outside)\<rparr>)"

inductive_cases lock_stepE: "lock_step xchg rel s s'"

definition lock_init :: "'l \<Rightarrow> 'l lock_sys" where
  "lock_init l = \<lparr>lk = l, lpc = (\<lambda>t. Outside)\<rparr>"

text \<open>The lock is taken exactly when one thread is inside, and at most one is.\<close>

definition lock_inv :: "('l \<Rightarrow> bool) \<Rightarrow> 'l lock_sys \<Rightarrow> bool" where
  "lock_inv held s \<longleftrightarrow> (\<forall>t u. lpc s t = Inside \<and> lpc s u = Inside \<longrightarrow> t = u)
     \<and> (held (lk s) \<longleftrightarrow> (\<exists>t. lpc s t = Inside))"

locale spin_lock =
  fixes xchg :: "'l \<Rightarrow> bool \<times> 'l"
    and rel :: "'l \<Rightarrow> 'l option"
    and held :: "'l \<Rightarrow> bool"
    and free :: 'l
  assumes free: "\<not> held free"
    and xchg_old: "fst (xchg l) = held l"
    and xchg_held: "held (snd (xchg l))"
    and rel_held: "held l \<Longrightarrow> \<exists>l'. rel l = Some l' \<and> \<not> held l'"
begin

lemma xchg_fails: "xchg l = (True, l') \<Longrightarrow> held l \<and> held l'"
  using xchg_old [of l] xchg_held [of l] by simp

lemma xchg_takes: "xchg l = (False, l') \<Longrightarrow> \<not> held l \<and> held l'"
  using xchg_old [of l] xchg_held [of l] by simp

lemma rel_frees: "held l \<Longrightarrow> rel l = Some l' \<Longrightarrow> \<not> held l'"
  using rel_held [of l] by auto

lemma inv_keep: "lock_inv held s \<Longrightarrow> lock_step xchg rel s s' \<Longrightarrow> lock_inv held s'"
  by (erule lock_stepE)
    (auto simp: lock_inv_def split: if_splits dest!: xchg_fails xchg_takes dest: rel_frees;
      metis lpc.distinct)+

lemma init_ok: "lock_inv held (lock_init free)"
  using free by (simp add: lock_inv_def lock_init_def)

end

sublocale spin_lock \<subseteq> invariant_system "\<lambda>s. s = lock_init free" "lock_step xchg rel" "lock_inv held"
  by unfold_locales (auto intro: init_ok inv_keep)

context spin_lock
begin

lemma exclusive:
  assumes "(lock_step xchg rel)\<^sup>*\<^sup>* (lock_init free) s" "lpc s t = Inside" "lpc s u = Inside"
  shows "t = u"
  using inv_reachable [OF refl assms(1)] assms(2,3) by (simp add: lock_inv_def)

lemma release_ok:
  assumes "(lock_step xchg rel)\<^sup>*\<^sup>* (lock_init free) s" "lpc s t = Inside"
  shows "rel (lk s) \<noteq> None"
  using inv_reachable [OF refl assms(1)] assms(2) rel_held [of "lk s"] by (auto simp: lock_inv_def)

text \<open>A free lock is acquired by the next exchange of a spinning thread.\<close>

lemma next_try_acquires:
  assumes "(lock_step xchg rel)\<^sup>*\<^sup>* (lock_init free) s" "\<forall>t. lpc s t \<noteq> Inside" "lpc s t = Spinning"
  shows "fst (xchg (lk s)) = False"
    and "lock_step xchg rel s (s\<lparr>lk := snd (xchg (lk s)), lpc := (lpc s)(t := Inside)\<rparr>)"
proof -
  show *: "fst (xchg (lk s)) = False"
    using inv_reachable [OF refl assms(1)] assms(2) by (simp add: lock_inv_def xchg_old)
  show "lock_step xchg rel s (s\<lparr>lk := snd (xchg (lk s)), lpc := (lpc s)(t := Inside)\<rparr>)"
    by (rule acquire [OF assms(3)]) (use * in \<open>simp add: prod_eq_iff\<close>)
qed

end

interpretation lf: spin_lock lflock_test_and_set lflock_unlock flag lflock_new
  by unfold_locales (auto simp: lflock_test_and_set_def lflock_unlock_def lflock_new_def)

interpretation lf2: spin_lock lflock2_exchange lflock2_unlock lstate lflock2_new
  by unfold_locales (auto simp: lflock2_exchange_def lflock2_unlock_def lflock2_new_def)

section \<open>Properties\<close>

definition contended :: "'l \<Rightarrow> 'l lock_sys" where
  "contended l = \<lparr>lk = l, lpc = (\<lambda>t. Outside)(1 := Inside, 2 := Spinning)\<rparr>"

lemma contended_reachable:
  assumes "xchg l = (False, l')"
  shows "(lock_step xchg rel)\<^sup>*\<^sup>* (lock_init l) (contended l')"
proof -
  let ?s1 = "\<lparr>lk = l', lpc = (\<lambda>t. Outside)(1 := Inside)\<rparr>"
  have "lock_step xchg rel (lock_init l) ?s1"
    using lock_step.try_ok [of "lock_init l" 1 xchg l' rel] assms by (simp add: lock_init_def)
  moreover have "lock_step xchg rel ?s1 (contended l')"
    using lock_step.call_lock [of ?s1 2 xchg rel] by (simp add: contended_def)
  ultimately show ?thesis by simp
qed

text \<open>
  C24: \<open>LFLock\<close> excludes: in every interleaving of the atomic accesses of any number of threads,
  while one thread is between acquiring and releasing the lock no other one is; and the
  release always clears a set flag.
\<close>

theorem lflock_mutual_exclusion:
  assumes "(lock_step lflock_test_and_set lflock_unlock)\<^sup>*\<^sup>* (lock_init lflock_new) s"
    and "lpc s t = Inside"
  shows "(\<forall>u. u \<noteq> t \<longrightarrow> lpc s u \<noteq> Inside) \<and> flag (lk s)"
  using lf.exclusive [OF assms(1)] lf.inv_reachable [OF refl assms(1)] assms(2)
  by (auto simp: lock_inv_def)

lemma contended_lf:
  "(lock_step lflock_test_and_set lflock_unlock)\<^sup>*\<^sup>* (lock_init lflock_new) (contended \<lparr>flag = True\<rparr>)"
  "(lock_step lflock2_exchange lflock2_unlock)\<^sup>*\<^sup>* (lock_init lflock2_new) (contended \<lparr>lstate = True\<rparr>)"
  by (rule contended_reachable; simp add: lflock_test_and_set_def lflock_new_def lflock2_exchange_def
      lflock2_new_def)+

lemma lflock_mutual_exclusion_witness:
  "lpc (contended \<lparr>flag = True\<rparr>) 2 \<noteq> Inside \<and> flag (lk (contended \<lparr>flag = True\<rparr>))"
  using lflock_mutual_exclusion [OF contended_lf(1), of 1] by (simp add: contended_def)

text \<open>
  \<open>LFLock2\<close> excludes in the same way, and \<open>unlock\<close> by a thread that holds the lock never
  throws.
\<close>

theorem lflock2_mutual_exclusion:
  assumes "(lock_step lflock2_exchange lflock2_unlock)\<^sup>*\<^sup>* (lock_init lflock2_new) s"
    and "lpc s t = Inside"
  shows "(\<forall>u. u \<noteq> t \<longrightarrow> lpc s u \<noteq> Inside) \<and> lflock2_unlock (lk s) \<noteq> None"
  using lf2.exclusive [OF assms(1)] lf2.release_ok [OF assms] assms(2) by auto

lemma lflock2_mutual_exclusion_witness:
  "lpc (contended \<lparr>lstate = True\<rparr>) 2 \<noteq> Inside
   \<and> lflock2_unlock (lk (contended \<lparr>lstate = True\<rparr>)) \<noteq> None"
  using lflock2_mutual_exclusion [OF contended_lf(2), of 1] by (simp add: contended_def)

text \<open>
  The lock is not lost: in every reachable state where no thread holds an \<open>LFLock\<close>, the
  next turn of any spinning thread acquires it.
\<close>

theorem lflock_free_is_acquired:
  assumes "(lock_step lflock_test_and_set lflock_unlock)\<^sup>*\<^sup>* (lock_init lflock_new) s"
    and "\<forall>u. lpc s u \<noteq> Inside" and "lpc s t = Spinning"
  shows "\<exists>s'. lock_step lflock_test_and_set lflock_unlock s s' \<and> lpc s' t = Inside
    \<and> fst (lflock_test_and_set (lk s)) = False"
  using lf.next_try_acquires [OF assms] by (intro exI conjI) auto

lemma lflock_free_is_acquired_witness:
  "\<exists>s'. lock_step lflock_test_and_set lflock_unlock
      \<lparr>lk = lflock_new, lpc = (\<lambda>t. Outside)(2 := Spinning)\<rparr> s' \<and> lpc s' 2 = Inside
    \<and> fst (lflock_test_and_set (lk \<lparr>lk = lflock_new, lpc = (\<lambda>t. Outside)(2 := Spinning)\<rparr>)) = False"
  by (rule lflock_free_is_acquired)
    (use lock_step.call_lock [of "lock_init lflock_new" 2] in \<open>auto simp: lock_init_def\<close>)

text \<open>
  \<open>BooleanFakeLock\<close> is a lock for one thread only: \<open>try_lock\<close> refuses a taken lock and
  \<open>unlock\<close> of a taken lock succeeds, but \<open>lock\<close> returns on a taken lock as it does on a free
  one, so it never waits.
\<close>

theorem boolean_fake_lock_never_waits:
  "bfl_lock l = l\<lparr>locked_b := True\<rparr>
   \<and> bfl_try_lock (bfl_lock l) = (False, bfl_lock l)
   \<and> bfl_lock (bfl_lock l) = bfl_lock l
   \<and> bfl_unlock (bfl_lock l) = Some (l\<lparr>locked_b := False\<rparr>)
   \<and> bfl_unlock (l\<lparr>locked_b := False\<rparr>) = None"
  by (cases "locked_b l") (simp_all add: bfl_lock.simps bfl_try_lock_def bfl_unlock_def)

end
