(* ===== verification/Lock_Free_Ring.thy ===== *)
theory Lock_Free_Ring
  imports Prelude
begin

text \<open>
  \<open>LockFreeRingQueue\<close> of \<open>common/lock_free_ring_queue.h\<close> with \<open>SizeType = size_t\<close>. A call of
  \<open>Push\<close> or \<open>Pop\<close> is a sequence of single atomic accesses (\<open>push_step\<close>, \<open>pop_step\<close>) on a local
  state that records how far the call has come, so that calls can be interleaved at any point.
  Run alone, a call is a bounded FIFO operation; the last part shows what the retry loops do
  when calls overlap. Memory orders are taken as sequentially consistent and
  \<open>compare_exchange_weak\<close> as failing only on a mismatch.
\<close>

section \<open>State\<close>

record 'a lfq =
  lf_capacity :: size_t
  lf_buffer :: "'a option list"
  lf_write :: size_t
  lf_writable :: size_t
  lf_read :: size_t
  lf_readable :: size_t

definition reCapacity :: "size_t \<Rightarrow> size_t" where
  "reCapacity capacity = capacity + 1"

definition lfq_new :: "size_t \<Rightarrow> 'a lfq" where
  "lfq_new cap = (let c = reCapacity cap in
     \<lparr>lf_capacity = c, lf_buffer = replicate (unat c) None, lf_write = 0, lf_writable = c - 1,
       lf_read = 0, lf_readable = 0\<rparr>)"

definition lf_mod :: "'a lfq \<Rightarrow> size_t \<Rightarrow> size_t" where
  "lf_mod q v = v mod lf_capacity q"

text \<open>
  The destructor's loop \<open>for (; read < readable; ++read) buffer_[read].~T ()\<close>: the elements it
  destroys.
\<close>

definition lfq_destroy :: "'a lfq \<Rightarrow> 'a option list" where
  "lfq_destroy q = map (\<lambda>i. lf_buffer q ! i) [unat (lf_read q)..<unat (lf_readable q)]"

section \<open>One atomic access at a time\<close>

text \<open>
  \<open>Push\<close>: load \<open>write_\<close>, load \<open>writable_\<close>, advance \<open>write_\<close> by compare-exchange, construct the
  element, load \<open>readable_\<close>, advance it by compare-exchange. A failed compare-exchange stores the
  value it found into its \<open>expected\<close> argument, which in the last loop is the variable \<open>write\<close>.
\<close>

datatype 'a push_pc =
    Push_Start 'a
  | Push_Write 'a size_t
  | Push_Cas 'a size_t size_t
  | Push_Store 'a size_t size_t
  | Push_Load size_t size_t
  | Push_Publish size_t size_t size_t
  | Push_Done bool bool

fun push_step :: "'a push_pc \<Rightarrow> 'a lfq \<Rightarrow> ('a push_pc \<times> 'a lfq) option" where
  "push_step (Push_Start x) q = Some (Push_Write x (lf_write q), q)"
| "push_step (Push_Write x w) q =
     (if w = lf_writable q then Some (Push_Done False False, q)
      else Some (Push_Cas x w (lf_writable q), q))"
| "push_step (Push_Cas x w wa) q =
     (if lf_write q = w then Some (Push_Store x w wa, q\<lparr>lf_write := lf_mod q (w + 1)\<rparr>)
      else Some (Push_Start x, q))"
| "push_step (Push_Store x w wa) q =
     (if unat w < length (lf_buffer q)
      then Some (Push_Load w wa, q\<lparr>lf_buffer := (lf_buffer q)[unat w := Some x]\<rparr>) else None)"
| "push_step (Push_Load w wa) q = Some (Push_Publish w wa (lf_readable q), q)"
| "push_step (Push_Publish w wa r) q =
     (if lf_readable q = w
      then Some (Push_Done True (w = lf_mod q (wa + 1)), q\<lparr>lf_readable := lf_mod q (r + 1)\<rparr>)
      else Some (Push_Load (lf_readable q) wa, q))"
| "push_step (Push_Done s n) q = Some (Push_Done s n, q)"

text \<open>
  \<open>Pop\<close>: load \<open>read_\<close> and \<open>readable_\<close>, advance \<open>read_\<close>, move the element out, advance
  \<open>writable_\<close>, load \<open>readable_\<close> again. Reading a slot that holds no element has no result.
\<close>

datatype 'a pop_pc =
    Pop_Start
  | Pop_Read size_t
  | Pop_Cas size_t size_t
  | Pop_Take size_t
  | Pop_Free 'a size_t size_t
  | Pop_Check 'a size_t
  | Pop_Done "'a option" bool

fun pop_step :: "'a pop_pc \<Rightarrow> 'a lfq \<Rightarrow> ('a pop_pc \<times> 'a lfq) option" where
  "pop_step Pop_Start q = Some (Pop_Read (lf_read q), q)"
| "pop_step (Pop_Read r) q =
     (if r = lf_readable q then Some (Pop_Done None False, q)
      else Some (Pop_Cas r (lf_readable q), q))"
| "pop_step (Pop_Cas r ra) q =
     (if lf_read q = r then Some (Pop_Take r, q\<lparr>lf_read := lf_mod q (r + 1)\<rparr>)
      else Some (Pop_Start, q))"
| "pop_step (Pop_Take r) q =
     (if unat r < length (lf_buffer q) then
        (case lf_buffer q ! unat r of
           None \<Rightarrow> None
         | Some x \<Rightarrow> Some (Pop_Free x r (lf_mod q (r + lf_capacity q - 1)),
                           q\<lparr>lf_buffer := (lf_buffer q)[unat r := None]\<rparr>))
      else None)"
| "pop_step (Pop_Free x r chk) q =
     (if lf_writable q = chk then Some (Pop_Check x r, q\<lparr>lf_writable := r\<rparr>)
      else Some (Pop_Free x r (lf_writable q), q))"
| "pop_step (Pop_Check x r) q = Some (Pop_Done (Some x) (r = lf_mod q (lf_readable q + 1)), q)"
| "pop_step (Pop_Done x n) q = Some (Pop_Done x n, q)"

text \<open>A call that runs alone: enough steps to finish (a lone call never retries).\<close>

primrec steps :: "nat \<Rightarrow> ('p \<Rightarrow> 'q \<Rightarrow> ('p \<times> 'q) option) \<Rightarrow> 'p \<Rightarrow> 'q \<Rightarrow> ('p \<times> 'q) option" where
  "steps 0 f p q = Some (p, q)"
| "steps (Suc n) f p q = Option.bind (f p q) (\<lambda>(p, q). steps n f p q)"

definition lfq_push :: "'a \<Rightarrow> 'a lfq \<Rightarrow> ((bool \<times> bool) \<times> 'a lfq) option" where
  "lfq_push x q = Option.bind (steps 6 push_step (Push_Start x) q)
     (\<lambda>(p, q). case p of Push_Done s n \<Rightarrow> Some ((s, n), q) | _ \<Rightarrow> None)"

definition lfq_pop :: "'a lfq \<Rightarrow> (('a option \<times> bool) \<times> 'a lfq) option" where
  "lfq_pop q = Option.bind (steps 6 pop_step Pop_Start q)
     (\<lambda>(p, q). case p of Pop_Done x n \<Rightarrow> Some ((x, n), q) | _ \<Rightarrow> None)"

section \<open>What a quiet queue represents\<close>

definition lpos :: "'a lfq \<Rightarrow> nat \<Rightarrow> nat" where
  "lpos q i = (unat (lf_read q) + i) mod unat (lf_capacity q)"

definition lfq_ok :: "'a lfq \<Rightarrow> 'a list \<Rightarrow> bool" where
  "lfq_ok q xs \<longleftrightarrow>
     0 < unat (lf_capacity q) \<and> unat (lf_capacity q) < 2 ^ 63
     \<and> length (lf_buffer q) = unat (lf_capacity q)
     \<and> length xs < unat (lf_capacity q) \<and> unat (lf_read q) < unat (lf_capacity q)
     \<and> unat (lf_write q) = lpos q (length xs) \<and> lf_readable q = lf_write q
     \<and> unat (lf_writable q) = lpos q (unat (lf_capacity q) - 1)
     \<and> (\<forall>i<length xs. lf_buffer q ! lpos q i = Some (xs ! i))"

lemma lpos_less: "lfq_ok q xs \<Longrightarrow> lpos q i < unat (lf_capacity q)"
  by (simp add: lpos_def lfq_ok_def)

lemma mod_add_inj:
  assumes "(a + i) mod c = (a + j) mod c" "i < c" "j < (c::nat)"
  shows "i = j"
proof -
  have *: "i = j" if "i \<le> j" "(a + i) mod c = (a + j) mod c" "j < c" for i j
  proof -
    have "c dvd (a + j) - (a + i)" using that(1,2) by (metis add_left_mono mod_eq_dvd_iff_nat)
    then have "c dvd j - i" by simp
    then show ?thesis using that(1,3) by (metis diff_is_0_eq dvd_imp_le le_antisym less_imp_diff_less not_gr_zero not_le)
  qed
  show ?thesis using *[of i j] *[of j i] assms by (cases "i \<le> j") auto
qed

lemma lpos_inj: "lpos q i = lpos q j \<Longrightarrow> i < unat (lf_capacity q) \<Longrightarrow> j < unat (lf_capacity q) \<Longrightarrow> i = j"
  unfolding lpos_def by (rule mod_add_inj)

lemma unat_lf_mod_Suc:
  assumes "unat (lf_capacity q) < 2 ^ 63" "unat v < unat (lf_capacity q)"
  shows "unat (lf_mod q (v + 1)) = Suc (unat v) mod unat (lf_capacity q)"
proof -
  have "unat (v + 1) = Suc (unat v)" using assms by (simp add: unat_word_ariths)
  then show ?thesis by (simp add: lf_mod_def unat_mod)
qed

lemma lpos_Suc:
  assumes "lfq_ok q xs" "unat v = lpos q i"
  shows "unat (lf_mod q (v + 1)) = lpos q (Suc i)"
  using unat_lf_mod_Suc [of q v] lpos_less [OF assms(1), of i] assms
  by (simp add: lfq_ok_def lpos_def mod_Suc_eq)

lemma lfq_new_ok: "unat cap + 1 < 2 ^ 63 \<Longrightarrow> lfq_ok (lfq_new cap) []"
proof -
  assume "unat cap + 1 < 2 ^ 63"
  then have "unat (cap + 1) = Suc (unat cap)" by (simp add: unat_word_ariths)
  then show ?thesis using \<open>unat cap + 1 < 2 ^ 63\<close>
    by (simp add: lfq_ok_def lfq_new_def reCapacity_def Let_def lpos_def)
qed

lemma lpos_cap: "lpos q (unat (lf_capacity q)) = lpos q 0"
  by (simp add: lpos_def)

lemma lfq_full_iff:
  assumes ok: "lfq_ok q xs"
  shows "lf_write q = lf_writable q \<longleftrightarrow> Suc (length xs) = unat (lf_capacity q)"
proof -
  have O: "length xs < unat (lf_capacity q)" "unat (lf_write q) = lpos q (length xs)"
    "unat (lf_writable q) = lpos q (unat (lf_capacity q) - 1)"
    using ok by (auto simp: lfq_ok_def)
  have "lf_write q = lf_writable q \<longleftrightarrow> lpos q (length xs) = lpos q (unat (lf_capacity q) - 1)"
    using O(2,3) by (simp only: word_unat_eq_iff)
  also have "\<dots> \<longleftrightarrow> length xs = unat (lf_capacity q) - 1"
    using lpos_inj [of q "length xs" "unat (lf_capacity q) - 1"] O(1) by fastforce
  also have "\<dots> \<longleftrightarrow> Suc (length xs) = unat (lf_capacity q)" using O(1) by linarith
  finally show ?thesis .
qed

lemma lfq_empty_iff: "lfq_ok q xs \<Longrightarrow> lf_read q = lf_readable q \<longleftrightarrow> xs = []"
proof -
  assume ok: "lfq_ok q xs"
  have 0: "unat (lf_read q) = lpos q 0" using ok by (simp add: lfq_ok_def lpos_def)
  show ?thesis using lpos_inj [of q 0 "length xs"] ok 0 by (auto simp: lfq_ok_def word_unat_eq_iff)
qed

text \<open>The notification of \<open>Push\<close> says that the queue was empty.\<close>

lemma lfq_push_ok:
  assumes ok: "lfq_ok q xs" and room: "Suc (length xs) < unat (lf_capacity q)"
  shows "\<exists>q'. lfq_push x q = Some ((True, xs = []), q') \<and> lfq_ok q' (xs @ [x])
    \<and> lf_capacity q' = lf_capacity q"
proof -
  have O: "0 < unat (lf_capacity q)" "length (lf_buffer q) = unat (lf_capacity q)"
    "unat (lf_write q) = lpos q (length xs)" "lf_readable q = lf_write q"
    "unat (lf_writable q) = lpos q (unat (lf_capacity q) - 1)"
    "\<And>i. i < length xs \<Longrightarrow> lf_buffer q ! lpos q i = Some (xs ! i)"
    using ok by (auto simp: lfq_ok_def)
  have ne: "lf_write q \<noteq> lf_writable q" using lfq_full_iff [OF ok] room by simp
  define q' where "q' = q\<lparr>lf_write := lf_mod q (lf_write q + 1),
     lf_buffer := (lf_buffer q)[unat (lf_write q) := Some x], lf_readable := lf_mod q (lf_write q + 1)\<rparr>"
  have in_buf: "unat (lf_write q) < length (lf_buffer q)"
    using lpos_less [OF ok, of "length xs"] O by simp
  have "unat (lf_mod q (lf_writable q + 1)) = lpos q (Suc (unat (lf_capacity q) - 1))"
    by (rule lpos_Suc [OF ok O(5)])
  then have "unat (lf_mod q (lf_writable q + 1)) = unat (lf_read q)"
    using O(1) ok by (simp add: lpos_def lfq_ok_def)
  then have "lf_mod q (lf_writable q + 1) = lf_read q" by (simp add: word_unat_eq_iff)
  then have note1: "lf_write q = lf_mod q (lf_writable q + 1) \<longleftrightarrow> xs = []"
    using lfq_empty_iff [OF ok] O(4) by auto
  have md: "lf_mod (q\<lparr>lf_write := a\<rparr>) v = lf_mod q v" "lf_mod (q\<lparr>lf_write := a, lf_buffer := b\<rparr>) v = lf_mod q v"
    for a b v by (simp_all add: lf_mod_def)
  have "lfq_push x q = Some ((True, xs = []), q')"
    using ne in_buf O(4) note1 by (simp add: lfq_push_def eval_nat_numeral q'_def md)
  moreover have "lfq_ok q' (xs @ [x])"
  proof -
    have p: "lpos q' i = lpos q i" for i by (simp add: lpos_def q'_def)
    have "lf_buffer q' ! lpos q i = Some ((xs @ [x]) ! i)" if "i < Suc (length xs)" for i
    proof (cases "i = length xs")
      case True
      then show ?thesis using in_buf O(3) by (simp add: q'_def)
    next
      case False
      then have "lpos q i \<noteq> lpos q (length xs)" using lpos_inj [of q i "length xs"] that room by auto
      then show ?thesis using O(3,6) that False by (simp add: q'_def nth_append nth_list_update)
    qed
    then show ?thesis using ok room lpos_Suc [OF ok O(3)] p by (simp add: lfq_ok_def q'_def)
  qed
  ultimately show ?thesis by (auto simp: q'_def)
qed

lemma lfq_push_full:
  "lfq_ok q xs \<Longrightarrow> Suc (length xs) = unat (lf_capacity q) \<Longrightarrow> lfq_push x q = Some ((False, False), q)"
  using lfq_full_iff [of q xs] by (simp add: lfq_push_def eval_nat_numeral)

lemma lfq_pop_empty: "lfq_ok q [] \<Longrightarrow> lfq_pop q = Some ((None, False), q)"
  using lfq_empty_iff [of q "[]"] by (simp add: lfq_pop_def eval_nat_numeral)

text \<open>The notification of \<open>Pop\<close> says that the queue was full.\<close>

lemma lfq_pop_ok:
  assumes ok: "lfq_ok q (x # xs)"
  shows "\<exists>q'. lfq_pop q = Some ((Some x, length (x # xs) + 1 = unat (lf_capacity q)), q')
    \<and> lfq_ok q' xs \<and> lf_capacity q' = lf_capacity q"
proof -
  have O: "0 < unat (lf_capacity q)" "length (lf_buffer q) = unat (lf_capacity q)"
    "unat (lf_write q) = lpos q (length (x # xs))" "lf_readable q = lf_write q"
    "unat (lf_writable q) = lpos q (unat (lf_capacity q) - 1)"
    "\<And>i. i < length (x # xs) \<Longrightarrow> lf_buffer q ! lpos q i = Some ((x # xs) ! i)"
    "unat (lf_capacity q) < 2 ^ 63" "unat (lf_read q) < unat (lf_capacity q)"
    "length (x # xs) < unat (lf_capacity q)"
    using ok by (auto simp: lfq_ok_def)
  have r0: "unat (lf_read q) = lpos q 0" using O(8) by (simp add: lpos_def)
  have ne: "lf_read q \<noteq> lf_readable q" using lfq_empty_iff [OF ok] by simp
  define q' where "q' = q\<lparr>lf_read := lf_mod q (lf_read q + 1),
     lf_buffer := (lf_buffer q)[unat (lf_read q) := None], lf_writable := lf_read q\<rparr>"
  have in_buf: "unat (lf_read q) < length (lf_buffer q)" using O(2,8) by simp
  have at: "lf_buffer q ! unat (lf_read q) = Some x" using O(6) [of 0] r0 by simp
  have "unat (lf_read q + lf_capacity q - 1) = unat (lf_read q) + (unat (lf_capacity q) - 1)"
  proof -
    have "unat (lf_read q + lf_capacity q) = unat (lf_read q) + unat (lf_capacity q)"
      using O(7,8) by (simp add: unat_word_ariths)
    then show ?thesis using O(1) by (subst unat_sub) (simp_all add: word_le_nat_alt)
  qed
  then have chk: "lf_mod q (lf_read q + lf_capacity q - 1) = lf_writable q"
    using O(5) by (simp add: word_unat_eq_iff lf_mod_def unat_mod lpos_def)
  have "unat (lf_mod q (lf_readable q + 1)) = lpos q (Suc (length (x # xs)))"
    unfolding O(4) by (rule lpos_Suc [OF ok O(3)])
  then have "unat (lf_read q) = unat (lf_mod q (lf_readable q + 1)) \<longleftrightarrow> Suc (length (x # xs)) = unat (lf_capacity q)"
    using r0 lpos_inj [of q 0 "Suc (length (x # xs))"] O(1,9) lpos_cap [of q]
    by (cases "Suc (length (x # xs)) = unat (lf_capacity q)") auto
  then have note1: "lf_read q = lf_mod q (lf_readable q + 1) \<longleftrightarrow> length (x # xs) + 1 = unat (lf_capacity q)"
    by (simp add: word_unat_eq_iff)
  have md: "lf_mod (q\<lparr>lf_read := a\<rparr>) v = lf_mod q v"
    "lf_mod (q\<lparr>lf_read := a, lf_buffer := b, lf_writable := d\<rparr>) v = lf_mod q v"
    for a b d v by (simp_all add: lf_mod_def)
  have "lfq_pop q = Some ((Some x, length (x # xs) + 1 = unat (lf_capacity q)), q')"
    using ne in_buf at chk note1 by (simp add: lfq_pop_def eval_nat_numeral q'_def md)
  moreover have "lfq_ok q' xs"
  proof -
    have rd: "unat (lf_mod q (lf_read q + 1)) = lpos q (Suc 0)" by (rule lpos_Suc [OF ok r0])
    have p: "lpos q' i = lpos q (Suc i)" for i
      using rd by (simp add: lpos_def q'_def mod_simps)
    have "lf_buffer q' ! lpos q (Suc i) = Some (xs ! i)" if "i < length xs" for i
    proof -
      have "lpos q (Suc i) \<noteq> lpos q 0" using lpos_inj [of q "Suc i" 0] that O(9) by auto
      then show ?thesis using that O(6) [of "Suc i"] r0 by (simp add: q'_def)
    qed
    moreover have "unat (lf_writable q') = lpos q' (unat (lf_capacity q') - 1)"
      using p [of "unat (lf_capacity q) - 1"] O(1) r0 lpos_cap [of q] by (simp add: q'_def)
    ultimately show ?thesis
      using O p lpos_less [OF ok] rd by (simp add: lfq_ok_def q'_def)
  qed
  ultimately show ?thesis by (auto simp: q'_def)
qed

section \<open>Refinement: alone, the calls are those of a bounded list\<close>

datatype 'a lop = LPush 'a | LPop

datatype 'a lres = LPushed bool bool | LPopped "'a option" bool

fun lstep :: "'a lop \<Rightarrow> 'a lfq \<Rightarrow> ('a lres \<times> 'a lfq) option" where
  "lstep (LPush x) q = map_option (\<lambda>((s, n), q). (LPushed s n, q)) (lfq_push x q)"
| "lstep LPop q = map_option (\<lambda>((r, n), q). (LPopped r n, q)) (lfq_pop q)"

fun lspec :: "'a lop \<Rightarrow> nat \<times> 'a list \<Rightarrow> ('a lres \<times> nat \<times> 'a list) option" where
  "lspec (LPush x) (c, xs) =
     (if length xs = c then Some (LPushed False False, c, xs)
      else Some (LPushed True (xs = []), c, xs @ [x]))"
| "lspec LPop (c, []) = Some (LPopped None False, c, [])"
| "lspec LPop (c, x # xs) = Some (LPopped (Some x) (Suc (length xs) = c), c, xs)"

definition lfq_rep :: "'a lfq \<Rightarrow> nat \<times> 'a list \<Rightarrow> bool" where
  "lfq_rep q a \<longleftrightarrow> lfq_ok q (snd a) \<and> unat (lf_capacity q) = Suc (fst a)"

lemma lfq_sim:
  assumes "lfq_rep q a" "lspec x a = Some (r, a')"
  shows "\<exists>q'. lstep x q = Some (r, q') \<and> lfq_rep q' a'"
proof -
  obtain c xs where a: "a = (c, xs)" by (cases a)
  have ok: "lfq_ok q xs" "unat (lf_capacity q) = Suc c" using assms(1) by (simp_all add: a lfq_rep_def)
  then have len: "length xs \<le> c" by (simp add: lfq_ok_def)
  show ?thesis
  proof (cases x)
    case (LPush y)
    show ?thesis
    proof (cases "length xs = c")
      case True
      then show ?thesis using LPush assms ok lfq_push_full [OF ok(1), of y] by (auto simp: a)
    next
      case False
      then have "Suc (length xs) < unat (lf_capacity q)" using len ok by simp
      from lfq_push_ok [OF ok(1) this, of y]
      obtain q' where "lfq_push y q = Some ((True, xs = []), q')" "lfq_rep q' (c, xs @ [y])"
        using ok(2) by (auto simp: lfq_rep_def)
      then show ?thesis using LPush assms(2) False by (simp add: a)
    qed
  next
    case LPop
    then show ?thesis using assms ok lfq_pop_empty [of q] lfq_pop_ok [of q "hd xs" "tl xs"]
      by (cases xs) (auto simp: a lfq_rep_def)
  qed
qed

interpretation lfq: data_refinement lfq_rep lstep lspec
  by unfold_locales (rule lfq_sim)

section \<open>Properties\<close>



text \<open>
  Two overlapping producers: A advances \<open>write_\<close> and is interrupted before it stores; B pushes to
  completion; a consumer pops.
\<close>

definition overlapping_push :: "nat lfq \<Rightarrow> (nat push_pc \<times> nat push_pc \<times> nat lfq) option" where
  "overlapping_push q = do {
     (a, q) \<leftarrow> steps 3 push_step (Push_Start 1) q;
     (b, q) \<leftarrow> steps 8 push_step (Push_Start 2) q;
     Some (a, b, q) }"

lemma steps_numeral [simp]:
  "steps (numeral k) f p q = Option.bind (f p q) (\<lambda>(p, q). steps (pred_numeral k) f p q)"
  by (simp add: numeral_eq_Suc)

lemma lfq_new_2: "lfq_new 2 = \<lparr>lf_capacity = 3, lf_buffer = [None, None, None], lf_write = 0,
    lf_writable = 2, lf_read = 0, lf_readable = 0\<rparr>"
proof -
  have "replicate 3 None = [None, None, None :: 'a option]" by (simp add: eval_nat_numeral)
  then show ?thesis by (simp add: lfq_new_def reCapacity_def Let_def)
qed

text \<open>
  With two producers the queue can expose raw memory: the failed compare-exchange in step 3
  of B's \<open>Push\<close> overwrites \<open>write\<close> with the published index, the retry succeeds on it, and B
  reports success although only slot 1 is written; \<open>readable_\<close> then admits slot 0, which A has
  not written yet, and \<open>Pop\<close> reads it.
\<close>

theorem lock_free_ring_overlap_publishes_unwritten_slot:
  "\<exists>w wa q. overlapping_push (lfq_new 2) = Some (Push_Store 1 w wa, Push_Done True True, q)
      \<and> lf_buffer q = [None, Some 2, None] \<and> lf_readable q = 1 \<and> lf_read q = 0
      \<and> lfq_pop q = None"
  by (simp add: overlapping_push_def lfq_new_2 lf_mod_def lfq_pop_def)

text \<open>
  The destructor destroys every queued element when the indices have not wrapped
  (\<open>read_ \<le> readable_\<close>), and none of them when they have.
\<close>

theorem lock_free_ring_destroy:
  assumes "lfq_ok q xs"
  shows "lfq_destroy q = (if unat (lf_read q) \<le> unat (lf_readable q) then map Some xs else [])"
proof (cases "unat (lf_read q) \<le> unat (lf_readable q)")
  case False
  then show ?thesis by (simp add: lfq_destroy_def)
next
  case True
  let ?c = "unat (lf_capacity q)"
  have O: "length xs < ?c" "unat (lf_read q) < ?c" "unat (lf_readable q) = (unat (lf_read q) + length xs) mod ?c"
    "\<And>i. i < length xs \<Longrightarrow> lf_buffer q ! lpos q i = Some (xs ! i)"
    using assms by (auto simp: lfq_ok_def lpos_def)
  have "unat (lf_read q) + length xs < ?c"
  proof (rule ccontr)
    assume "\<not> unat (lf_read q) + length xs < ?c"
    then have "unat (lf_readable q) = unat (lf_read q) + length xs - ?c"
      using O by (simp add: mod_if)
    then show False using True O(1) \<open>\<not> unat (lf_read q) + length xs < ?c\<close> by linarith
  qed
  then have "unat (lf_readable q) = unat (lf_read q) + length xs"
    and "\<And>i. i < length xs \<Longrightarrow> lpos q i = unat (lf_read q) + i"
    using O(3) by (simp_all add: lpos_def)
  then show ?thesis using O(4) by (auto simp: lfq_destroy_def intro!: nth_equalityI)
qed

definition wrapped_lfq :: "nat lfq" where
  "wrapped_lfq = \<lparr>lf_capacity = 3, lf_buffer = [None, None, Some 7], lf_write = 0, lf_writable = 1,
     lf_read = 2, lf_readable = 0\<rparr>"

lemma lock_free_ring_destroy_witness: "lfq_destroy wrapped_lfq = []"
  using lock_free_ring_destroy [of wrapped_lfq "[7]"]
  by (simp add: lfq_ok_def lpos_def wrapped_lfq_def)

end
