(* ===== verification/Lock_Free_Spsc.thy ===== *)
theory Lock_Free_Spsc
  imports Lock_Free_Ring "HOL-Library.Sublist"
begin

text \<open>
  \<open>LockFreeRingQueue\<close> used by one producer and one consumer thread. Their atomic accesses interleave in any
  order; the calls of the same thread follow each other. An invariant with unbounded counters behind the four
  indices shows that such a use is safe, in order and free of waiting.
\<close>

section \<open>Interleavings\<close>

text \<open>
  The queue, how far each side's call has come, the elements in the order their slots were claimed, and the
  elements \<open>Pop\<close> has returned.
\<close>

record 'a spsc =
  sp_push :: "'a push_pc"
  sp_pop :: "'a pop_pc"
  sp_q :: "'a lfq"
  sp_in :: "'a list"
  sp_out :: "'a list"

definition spsc_new :: "size_t \<Rightarrow> 'a spsc" where
  "spsc_new cap = \<lparr>sp_push = Push_Done False False, sp_pop = Pop_Done None False, sp_q = lfq_new cap,
     sp_in = [], sp_out = []\<rparr>"

datatype 'a spsc_move = Call_Push 'a | Call_Pop | Producer | Consumer

text \<open>A side whose call has ended may make the next one; other calls are ignored.\<close>

fun claims :: "'a push_pc \<Rightarrow> 'a push_pc \<Rightarrow> 'a list" where
  "claims (Push_Cas x w wa) (Push_Store y w' wa') = [x]"
| "claims p p' = []"

fun returns :: "'a pop_pc \<Rightarrow> 'a list" where
  "returns (Pop_Check x r) = [x]"
| "returns p = []"

fun push_over :: "'a push_pc \<Rightarrow> bool" where
  "push_over (Push_Done s n) = True"
| "push_over p = False"

fun pop_over :: "'a pop_pc \<Rightarrow> bool" where
  "pop_over (Pop_Done x n) = True"
| "pop_over p = False"

primrec spsc_act :: "'a spsc_move \<Rightarrow> 'a spsc \<Rightarrow> 'a spsc option" where
  "spsc_act (Call_Push x) s = Some (if push_over (sp_push s) then s\<lparr>sp_push := Push_Start x\<rparr> else s)"
| "spsc_act Call_Pop s = Some (if pop_over (sp_pop s) then s\<lparr>sp_pop := Pop_Start\<rparr> else s)"
| "spsc_act Producer s = map_option (\<lambda>(p, q). s\<lparr>sp_push := p, sp_q := q,
     sp_in := sp_in s @ claims (sp_push s) p\<rparr>) (push_step (sp_push s) (sp_q s))"
| "spsc_act Consumer s = map_option (\<lambda>(p, q). s\<lparr>sp_pop := p, sp_q := q,
     sp_out := sp_out s @ returns (sp_pop s)\<rparr>) (pop_step (sp_pop s) (sp_q s))"

primrec spsc_run :: "'a spsc_move list \<Rightarrow> 'a spsc \<Rightarrow> 'a spsc option" where
  "spsc_run [] s = Some s"
| "spsc_run (a # as) s = Option.bind (spsc_act a s) (spsc_run as)"

section \<open>The invariant\<close>

text \<open>
  \<open>in_flight\<close>: a slot is claimed and not published. \<open>unstored\<close>: it is not written either. \<open>holding\<close>: the consumer
  has claimed an element that it has not returned; \<open>untaken\<close>: it is still in its slot; \<open>freed\<close>: the slot was given back.
\<close>

fun in_flight :: "'a push_pc \<Rightarrow> nat" where
  "in_flight (Push_Store x w wa) = 1"
| "in_flight (Push_Load w wa) = 1"
| "in_flight (Push_Publish w wa r) = 1"
| "in_flight p = 0"

fun unstored :: "'a push_pc \<Rightarrow> nat" where
  "unstored (Push_Store x w wa) = 1"
| "unstored p = 0"

fun holding :: "'a pop_pc \<Rightarrow> nat" where
  "holding (Pop_Take r) = 1"
| "holding (Pop_Free x r chk) = 1"
| "holding (Pop_Check x r) = 1"
| "holding p = 0"

fun taken :: "'a pop_pc \<Rightarrow> nat" where
  "taken (Pop_Free x r chk) = 1"
| "taken (Pop_Check x r) = 1"
| "taken p = 0"

fun freed :: "'a pop_pc \<Rightarrow> nat" where
  "freed (Pop_Check x r) = 1"
| "freed p = 0"

fun push_pc_ok :: "'a push_pc \<Rightarrow> nat \<Rightarrow> 'a lfq \<Rightarrow> 'a list \<Rightarrow> nat \<Rightarrow> bool" where
  "push_pc_ok (Push_Write x w) cap q ins f = (w = lf_write q)"
| "push_pc_ok (Push_Cas x w wa) cap q ins f = (w = lf_write q \<and> length ins < f + cap)"
| "push_pc_ok (Push_Store x w wa) cap q ins f = (unat w = (length ins - 1) mod Suc cap \<and> last ins = x)"
| "push_pc_ok (Push_Load w wa) cap q ins f = (unat w = (length ins - 1) mod Suc cap)"
| "push_pc_ok (Push_Publish w wa r) cap q ins f = (unat w = (length ins - 1) mod Suc cap \<and> r = lf_readable q)"
| "push_pc_ok p cap q ins f = True"

fun pop_pc_ok :: "'a pop_pc \<Rightarrow> nat \<Rightarrow> 'a lfq \<Rightarrow> 'a list \<Rightarrow> nat \<Rightarrow> nat \<Rightarrow> bool" where
  "pop_pc_ok (Pop_Read r) cap q ins n a = (r = lf_read q)"
| "pop_pc_ok (Pop_Cas r ra) cap q ins n a = (r = lf_read q \<and> n < a)"
| "pop_pc_ok (Pop_Take r) cap q ins n a = (unat r = n mod Suc cap)"
| "pop_pc_ok (Pop_Free x r chk) cap q ins n a = (unat r = n mod Suc cap \<and> x = ins ! n \<and> chk = lf_writable q)"
| "pop_pc_ok (Pop_Check x r) cap q ins n a = (x = ins ! n)"
| "pop_pc_ok p cap q ins n a = True"

definition spsc_ok :: "nat \<Rightarrow> 'a push_pc \<Rightarrow> 'a pop_pc \<Rightarrow> 'a lfq \<Rightarrow> 'a list \<Rightarrow> nat \<Rightarrow> bool" where
  "spsc_ok cap pp cp q ins n \<longleftrightarrow>
     (unat (lf_capacity q) = Suc cap \<and> Suc cap < 2 ^ 63 \<and> length (lf_buffer q) = Suc cap)
     \<and> (unat (lf_write q) = length ins mod Suc cap
        \<and> unat (lf_readable q) = (length ins - in_flight pp) mod Suc cap
        \<and> unat (lf_read q) = (n + holding cp) mod Suc cap
        \<and> unat (lf_writable q) = (n + freed cp + cap) mod Suc cap)
     \<and> (in_flight pp \<le> length ins \<and> n + holding cp \<le> length ins - in_flight pp
        \<and> length ins \<le> n + freed cp + cap)
     \<and> (\<forall>i. n + taken cp \<le> i \<and> i < length ins - unstored pp \<longrightarrow> lf_buffer q ! (i mod Suc cap) = Some (ins ! i))
     \<and> push_pc_ok pp cap q ins (n + freed cp) \<and> pop_pc_ok cp cap q ins n (length ins - in_flight pp)"

lemma mod_eq_window:
  assumes "(i::nat) mod Suc c = j mod Suc c" "a \<le> i" "i \<le> a + c" "a \<le> j" "j \<le> a + c"
  shows "i = j"
proof -
  have "i - a = j - a" by (rule mod_add_inj [of a _ "Suc c"]) (use assms in auto)
  then show ?thesis using assms by linarith
qed

lemma lf_mod_next:
  assumes "unat (lf_capacity q) = Suc cap" "Suc cap < 2 ^ 63" "unat v = k mod Suc cap"
  shows "unat (lf_mod q (v + 1)) = Suc k mod Suc cap"
  using unat_lf_mod_Suc [of q v] assms by (simp add: mod_Suc_eq)

lemma lf_mod_prev:
  assumes "unat (lf_capacity q) = Suc cap" "Suc cap < 2 ^ 63" "unat v = k mod Suc cap"
  shows "unat (lf_mod q (v + lf_capacity q - 1)) = (k + cap) mod Suc cap"
proof -
  have v: "unat v < Suc cap" using assms(3) by simp
  have "unat (v + lf_capacity q) = unat v + Suc cap" using v assms(1,2) by (simp add: unat_word_ariths)
  then have "unat (v + lf_capacity q - 1) = unat v + cap" by (subst unat_sub) (simp_all add: word_le_nat_alt)
  then have "unat (lf_mod q (v + lf_capacity q - 1)) = (unat v + cap) mod Suc cap"
    using assms(1) by (simp add: lf_mod_def unat_mod)
  then show ?thesis using assms(3) by (simp add: mod_simps)
qed

lemma pop_pc_ok_mono:
  "pop_pc_ok cp cap q ins n a \<Longrightarrow> a \<le> a' \<Longrightarrow> lf_read q' = lf_read q \<Longrightarrow> lf_writable q' = lf_writable q
    \<Longrightarrow> n + holding cp \<le> length ins \<Longrightarrow> pop_pc_ok cp cap q' (ins @ xs) n a'"
  by (cases cp) (auto simp: nth_append)

lemma push_pc_ok_mono:
  "push_pc_ok pp cap q ins f \<Longrightarrow> f \<le> f' \<Longrightarrow> lf_write q' = lf_write q \<Longrightarrow> lf_readable q' = lf_readable q
    \<Longrightarrow> push_pc_ok pp cap q' ins f'"
  by (cases pp) auto

fun push_rank :: "'a push_pc \<Rightarrow> nat" where
  "push_rank (Push_Start x) = 6" | "push_rank (Push_Write x w) = 5" | "push_rank (Push_Cas x w wa) = 4"
| "push_rank (Push_Store x w wa) = 3" | "push_rank (Push_Load w wa) = 2" | "push_rank (Push_Publish w wa r) = 1"
| "push_rank (Push_Done s n) = 0"

fun pop_rank :: "'a pop_pc \<Rightarrow> nat" where
  "pop_rank Pop_Start = 6" | "pop_rank (Pop_Read r) = 5" | "pop_rank (Pop_Cas r ra) = 4" | "pop_rank (Pop_Take r) = 3"
| "pop_rank (Pop_Free x r chk) = 2" | "pop_rank (Pop_Check x r) = 1" | "pop_rank (Pop_Done x n) = 0"

lemma taken_le_holding: "freed cp \<le> taken cp" "taken cp \<le> holding cp" "holding cp \<le> 1"
  by (cases cp; simp)+

lemma lf_mod_upd [simp]:
  "lf_mod (q\<lparr>lf_write := a\<rparr>) v = lf_mod q v" "lf_mod (q\<lparr>lf_read := a\<rparr>) v = lf_mod q v"
  "lf_mod (q\<lparr>lf_buffer := b\<rparr>) v = lf_mod q v"
  by (simp_all add: lf_mod_def)

lemma push_side:
  assumes ok: "spsc_ok cap pp cp q ins n"
  shows "\<exists>pp' q'. push_step pp q = Some (pp', q') \<and> spsc_ok cap pp' cp q' (ins @ claims pp pp') n
    \<and> push_rank pp' \<le> push_rank pp - 1"
proof -
  note o = ok [unfolded spsc_ok_def]
  have c: "unat (lf_capacity q) = Suc cap" "Suc cap < 2 ^ 63" "length (lf_buffer q) = Suc cap" using o by auto
  have b: "in_flight pp \<le> length ins" "n + holding cp \<le> length ins - in_flight pp"
    "length ins \<le> n + freed cp + cap" using o by auto
  note t = taken_le_holding [of cp]
  show ?thesis
  proof (cases pp)
    case (Push_Start x)
    then show ?thesis using ok by (auto simp: spsc_ok_def)
  next
    case (Push_Write x w)
    have "length ins < n + freed cp + cap" if "lf_write q \<noteq> lf_writable q"
    proof (rule ccontr)
      assume "\<not> length ins < n + freed cp + cap"
      then have "length ins = n + freed cp + cap" using b by simp
      then show False using that o by (simp add: word_unat_eq_iff)
    qed
    then show ?thesis using ok Push_Write by (auto simp: spsc_ok_def)
  next
    case (Push_Cas x w wa)
    then have "w = lf_write q" "length ins < n + freed cp + cap" using o by auto
    moreover have "unat (lf_mod q (w + 1)) = Suc (length ins) mod Suc cap"
      by (rule lf_mod_next [OF c(1,2)]) (use o calculation in simp)
    moreover have "pop_pc_ok cp cap (q\<lparr>lf_write := lf_mod q (w + 1)\<rparr>) (ins @ [x]) n (length ins)"
      by (rule pop_pc_ok_mono [of _ _ q _ _ "length ins - in_flight pp"]) (use o b in auto)
    moreover have "lf_buffer q ! (i mod Suc cap) = Some ((ins @ [x]) ! i)" if "n + taken cp \<le> i" "i < length ins" for i
      using o that Push_Cas by (simp add: nth_append)
    ultimately show ?thesis using o Push_Cas by (simp add: spsc_ok_def)
  next
    case (Push_Store x w wa)
    then have w: "unat w = (length ins - 1) mod Suc cap" "last ins = x" "0 < length ins" using o by auto
    then have "(lf_buffer q)[unat w := Some x] ! (i mod Suc cap) = Some (ins ! i)"
      if "n + taken cp \<le> i" "i < length ins" for i
    proof (cases "i = length ins - 1")
      case True
      then show ?thesis using w c by (simp add: last_conv_nth)
    next
      case False
      have "n + holding cp \<le> length ins - 1" using b(2) Push_Store by simp
      then have "n + freed cp \<le> i \<and> n + freed cp \<le> length ins - 1 \<and> i \<le> n + freed cp + cap
          \<and> length ins - 1 \<le> n + freed cp + cap"
        using that b(3) t by linarith
      then have "i mod Suc cap \<noteq> unat w"
        using mod_eq_window [of i cap "length ins - 1" "n + freed cp"] False w(1) by auto
      then show ?thesis using o that False Push_Store by (simp add: nth_list_update)
    qed
    moreover have "unat w < Suc cap" using w(1) by simp
    moreover have "pop_pc_ok cp cap (q\<lparr>lf_buffer := (lf_buffer q)[unat w := Some x]\<rparr>) (ins @ []) n (length ins - 1)"
      by (rule pop_pc_ok_mono [of _ _ q _ _ "length ins - in_flight pp"]) (use o b Push_Store in auto)
    ultimately show ?thesis using o Push_Store w by (simp add: spsc_ok_def Suc_le_eq)
  next
    case (Push_Load w wa)
    then show ?thesis using ok by (auto simp: spsc_ok_def)
  next
    case (Push_Publish w wa r)
    then have w: "unat w = (length ins - 1) mod Suc cap" "r = lf_readable q" "0 < length ins"
      "unat (lf_readable q) = (length ins - 1) mod Suc cap" using o by auto
    then have "lf_readable q = w" by (simp add: word_unat_eq_iff)
    moreover have "unat (lf_mod q (r + 1)) = Suc (length ins - 1) mod Suc cap"
      by (rule lf_mod_next [OF c(1,2)]) (use w in simp)
    moreover have "pop_pc_ok cp cap (q\<lparr>lf_readable := lf_mod q (r + 1)\<rparr>) (ins @ []) n (length ins)"
      by (rule pop_pc_ok_mono [of _ _ q _ _ "length ins - in_flight pp"]) (use o b in auto)
    ultimately show ?thesis using o Push_Publish w by (auto simp: spsc_ok_def)
  next
    case (Push_Done s m)
    then show ?thesis using ok by simp
  qed
qed

lemma pop_side:
  assumes ok: "spsc_ok cap pp cp q ins n"
  shows "\<exists>cp' q'. pop_step cp q = Some (cp', q') \<and> spsc_ok cap pp cp' q' ins (n + length (returns cp))
    \<and> returns cp = take (length (returns cp)) (drop n ins) \<and> pop_rank cp' \<le> pop_rank cp - 1"
proof -
  note o = ok [unfolded spsc_ok_def]
  have c: "unat (lf_capacity q) = Suc cap" "Suc cap < 2 ^ 63" "length (lf_buffer q) = Suc cap" using o by auto
  have b: "in_flight pp \<le> length ins" "n + holding cp \<le> length ins - in_flight pp"
    "length ins \<le> n + freed cp + cap" using o by auto
  have fl: "unstored pp \<le> in_flight pp" by (cases pp) auto
  show ?thesis
  proof (cases cp)
    case Pop_Start
    then show ?thesis using ok by (auto simp: spsc_ok_def)
  next
    case (Pop_Read r)
    have "n < length ins - in_flight pp" if "lf_read q \<noteq> lf_readable q"
    proof (rule ccontr)
      assume "\<not> n < length ins - in_flight pp"
      then have "n = length ins - in_flight pp" using b Pop_Read by simp
      then show False using that o Pop_Read by (simp add: word_unat_eq_iff)
    qed
    then show ?thesis using ok Pop_Read by (auto simp: spsc_ok_def)
  next
    case (Pop_Cas r ra)
    then have "r = lf_read q" "n < length ins - in_flight pp" using o by auto
    moreover have "unat (lf_mod q (r + 1)) = Suc n mod Suc cap"
      by (rule lf_mod_next [OF c(1,2)]) (use o calculation Pop_Cas in simp)
    moreover have "push_pc_ok pp cap (q\<lparr>lf_read := lf_mod q (r + 1)\<rparr>) ins n"
      by (rule push_pc_ok_mono [of _ _ q _ n]) (use o Pop_Cas in auto)
    ultimately show ?thesis using o Pop_Cas by (simp add: spsc_ok_def)
  next
    case (Pop_Take r)
    then have r: "unat r = n mod Suc cap" "n < length ins - in_flight pp" using o by auto
    then have "lf_buffer q ! unat r = Some (ins ! n)" using o Pop_Take fl by simp
    moreover have "unat r < length (lf_buffer q)" using r c by simp
    moreover have "lf_mod q (r + lf_capacity q - 1) = lf_writable q"
      using lf_mod_prev [OF c(1,2) r(1)] o Pop_Take by (simp add: word_unat_eq_iff)
    moreover have "(lf_buffer q)[unat r := None] ! (i mod Suc cap) = Some (ins ! i)"
      if "Suc n \<le> i" "i < length ins - unstored pp" for i
    proof -
      have "i \<le> n + cap" using that b(3) Pop_Take by simp
      then have "i mod Suc cap \<noteq> unat r" using mod_eq_window [of i cap n n] that r by auto
      then show ?thesis using o that Pop_Take by (simp add: nth_list_update)
    qed
    moreover have "push_pc_ok pp cap (q\<lparr>lf_buffer := (lf_buffer q)[unat r := None]\<rparr>) ins n"
      by (rule push_pc_ok_mono [of _ _ q _ n]) (use o Pop_Take in auto)
    ultimately show ?thesis using o Pop_Take r by (simp add: spsc_ok_def)
  next
    case (Pop_Free x r chk)
    then have r: "unat r = n mod Suc cap" "x = ins ! n" "chk = lf_writable q" using o by auto
    moreover have "push_pc_ok pp cap (q\<lparr>lf_writable := r\<rparr>) ins (Suc n)"
      by (rule push_pc_ok_mono [of _ _ q _ n]) (use o Pop_Free in auto)
    moreover have "n mod Suc cap = (Suc n + cap) mod Suc cap"
      using mod_add_self2 [of n "Suc cap"] by (simp del: mod_add_self2)
    ultimately show ?thesis using o Pop_Free by (simp add: spsc_ok_def)
  next
    case (Pop_Check x r)
    then show ?thesis using ok by (auto simp: spsc_ok_def take_Suc hd_drop_conv_nth)
  next
    case (Pop_Done x m)
    then show ?thesis using ok by simp
  qed
qed

section \<open>Reachable states\<close>

definition spsc_inv :: "nat \<Rightarrow> 'a spsc \<Rightarrow> bool" where
  "spsc_inv cap s \<longleftrightarrow> spsc_ok cap (sp_push s) (sp_pop s) (sp_q s) (sp_in s) (length (sp_out s))
     \<and> sp_out s = take (length (sp_out s)) (sp_in s)"

lemma spsc_new_inv: "unat cap + 1 < 2 ^ 63 \<Longrightarrow> spsc_inv (unat cap) (spsc_new cap)"
proof -
  assume a: "unat cap + 1 < 2 ^ 63"
  then have "unat (cap + 1) = Suc (unat cap)" by (simp add: unat_word_ariths)
  then show ?thesis using a
    by (simp add: spsc_inv_def spsc_ok_def spsc_new_def lfq_new_def reCapacity_def Let_def)
qed

lemma spsc_act_inv:
  assumes i: "spsc_inv cap s"
  shows "\<exists>s'. spsc_act a s = Some s' \<and> spsc_inv cap s'"
proof (cases a)
  case (Call_Push x)
  then show ?thesis using i by (cases "sp_push s") (auto simp: spsc_inv_def spsc_ok_def)
next
  case Call_Pop
  then show ?thesis using i by (cases "sp_pop s") (auto simp: spsc_inv_def spsc_ok_def)
next
  case Producer
  have l: "length (sp_out s) \<le> length (sp_in s)" using i by (auto simp: spsc_inv_def spsc_ok_def)
  obtain p q where "push_step (sp_push s) (sp_q s) = Some (p, q)"
    "spsc_ok cap p (sp_pop s) q (sp_in s @ claims (sp_push s) p) (length (sp_out s))"
    using push_side [of cap "sp_push s" "sp_pop s" "sp_q s"] i by (fastforce simp: spsc_inv_def)
  moreover have "sp_out s = take (length (sp_out s)) (sp_in s @ xs)" for xs
    using i l by (simp add: spsc_inv_def)
  ultimately show ?thesis using Producer by (simp add: spsc_inv_def)
next
  case Consumer
  have "sp_out s @ take k (drop (length (sp_out s)) (sp_in s)) = take (length (sp_out s) + k) (sp_in s)" for k
    using i by (metis spsc_inv_def take_add)
  moreover obtain p q where "pop_step (sp_pop s) (sp_q s) = Some (p, q)"
    "spsc_ok cap (sp_push s) p q (sp_in s) (length (sp_out s) + length (returns (sp_pop s)))"
    "returns (sp_pop s) = take (length (returns (sp_pop s))) (drop (length (sp_out s)) (sp_in s))"
    using pop_side [of cap "sp_push s" "sp_pop s" "sp_q s"] i by (fastforce simp: spsc_inv_def)
  ultimately show ?thesis using Consumer by (simp add: spsc_inv_def) metis
qed

lemma spsc_run_inv: "spsc_inv cap s \<Longrightarrow> \<exists>s'. spsc_run as s = Some s' \<and> spsc_inv cap s'"
proof (induction as arbitrary: s)
  case (Cons a as)
  obtain s1 where "spsc_act a s = Some s1" "spsc_inv cap s1" using spsc_act_inv [OF Cons.prems] by blast
  then show ?case using Cons.IH by simp
qed simp

lemma spsc_inv_bounds:
  assumes "spsc_inv cap s"
  shows "length (sp_in s) \<le> length (sp_out s) + cap + 1"
    and "push_step (sp_push s) (sp_q s) = Some (Push_Done False b, q) \<Longrightarrow> \<not> push_over (sp_push s)
      \<Longrightarrow> length (sp_out s) + cap \<le> length (sp_in s)"
    and "pop_step (sp_pop s) (sp_q s) = Some (Pop_Done None b, q) \<Longrightarrow> \<not> pop_over (sp_pop s)
      \<Longrightarrow> length (sp_in s) \<le> length (sp_out s) + 1"
proof -
  note o = assms [unfolded spsc_inv_def spsc_ok_def]
  show "length (sp_in s) \<le> length (sp_out s) + cap + 1"
    using o taken_le_holding [of "sp_pop s"] by linarith
  show "length (sp_out s) + cap \<le> length (sp_in s)"
    if over: "push_step (sp_push s) (sp_q s) = Some (Push_Done False b, q)" "\<not> push_over (sp_push s)"
  proof -
    obtain x w where p: "sp_push s = Push_Write x w" "w = lf_writable (sp_q s)"
      using over by (cases "sp_push s") (auto split: if_splits)
    let ?f = "length (sp_out s) + freed (sp_pop s)"
    have "length (sp_in s) mod Suc cap = (?f + cap) mod Suc cap" using o p by auto
    moreover have "?f \<le> length (sp_in s) \<and> length (sp_in s) \<le> ?f + cap"
      using o p taken_le_holding [of "sp_pop s"] by auto
    ultimately have "length (sp_in s) = ?f + cap" using mod_eq_window [of _ cap "?f + cap" ?f] by auto
    then show ?thesis by simp
  qed
  show "length (sp_in s) \<le> length (sp_out s) + 1"
    if over: "pop_step (sp_pop s) (sp_q s) = Some (Pop_Done None b, q)" "\<not> pop_over (sp_pop s)"
  proof -
    obtain r where p: "sp_pop s = Pop_Read r" "r = lf_readable (sp_q s)"
      using over by (cases "sp_pop s") (auto split: if_splits option.splits)
    let ?n = "length (sp_out s)" and ?a = "length (sp_in s) - in_flight (sp_push s)"
    have "?n mod Suc cap = ?a mod Suc cap" using o p by auto
    moreover have "?n \<le> ?a \<and> ?a \<le> ?n + cap" using o p by auto
    ultimately have "?a = ?n" using mod_eq_window [of ?n cap ?a ?n] by simp
    then show ?thesis by (cases "sp_push s") auto
  qed
qed

lemma spsc_inv_rank:
  assumes "spsc_inv cap s"
  shows "push_step (sp_push s) (sp_q s) = Some (p, q) \<Longrightarrow> push_rank p \<le> push_rank (sp_push s) - 1"
    and "pop_step (sp_pop s) (sp_q s) = Some (r, q) \<Longrightarrow> pop_rank r \<le> pop_rank (sp_pop s) - 1"
  using push_side pop_side assms by (fastforce simp: spsc_inv_def)+

section \<open>Properties\<close>


lemma lfq_new_1: "lfq_new 1 = \<lparr>lf_capacity = 2, lf_buffer = [None, None], lf_write = 0,
    lf_writable = 1, lf_read = 0, lf_readable = 0\<rparr>"
proof -
  have "replicate 2 None = [None, None :: 'a option]" by (simp add: eval_nat_numeral)
  then show ?thesis by (simp add: lfq_new_def reCapacity_def Let_def)
qed


end
