(* ===== verification/Task_Context.thy ===== *)
theory Task_Context
  imports Prelude
begin

unbundle bit_operations_syntax

text \<open>
  Coroutine stacks (\<open>context/context.h\<close>, \<open>context/context.cpp\<close>, \<open>context/fcontext.cpp\<close>) and tasks
  (\<open>task/task.h\<close>, \<open>task/task.cpp\<close>). The assembly routines \<open>make_fcontext\<close> and \<open>jump_fcontext\<close>,
  \<open>malloc\<close> and \<open>mprotect\<close> are parameters, as is what a user's coroutine function does. \<open>int\<close> is 32
  bits wide, pointers are 64 bit words with 0 as null.
\<close>

section \<open>Options\<close>

type_synonym cint = "32 word"
type_synonym cptr = "64 word"

record options =
  stack_page_size :: cint
  protect_stack_page :: cint

definition protect_size :: "options \<Rightarrow> cint" where
  "protect_size opt = protect_stack_page opt * stack_page_size opt"

section \<open>Memory protection\<close>

text \<open>The page that \<open>ProtectStack\<close> and \<open>UnprotectStack\<close> start at: the next page boundary.\<close>

definition protect_page_addr :: "cptr \<Rightarrow> cptr" where
  "protect_page_addr p =
     (if p AND 0xfff \<noteq> 0 then (p AND NOT 0xfff) + 0x1000 else p)"

text \<open>\<open>mprotect\<close> is told an address, a length and whether access is removed; it reports success.\<close>

definition ProtectStack :: "(cptr \<Rightarrow> size_t \<Rightarrow> bool \<Rightarrow> bool) \<Rightarrow> cptr \<Rightarrow> cint \<Rightarrow> bool" where
  "ProtectStack mprotect p n = mprotect (protect_page_addr p) (scast n) True"

definition UnprotectStack :: "(cptr \<Rightarrow> size_t \<Rightarrow> bool \<Rightarrow> bool) \<Rightarrow> cptr \<Rightarrow> cint \<Rightarrow> bool" where
  "UnprotectStack mprotect p n = mprotect (protect_page_addr p) (scast n) False"

section \<open>Context\<close>

record 'a ctx =
  c_priv :: 'a
  vaddr :: cptr
  vaddr_size :: cint
  stk_bottom :: cptr
  c_sp :: cptr
  caller_sp :: cptr

definition round_to_page_size :: "options \<Rightarrow> size_t \<Rightarrow> cint" where
  "round_to_page_size opt n =
     ucast ((n + scast (stack_page_size opt) - 1) AND scast (NOT (stack_page_size opt - 1)))"

text \<open>
  \<open>CreateStack\<close>: 64 KB when the size is 0, rounded up to pages, one protected zone below. The
  result is the code's (0 or -1) with the context; a failed \<open>ProtectStack\<close> is an assertion.
\<close>

definition CreateStack :: "options \<Rightarrow> (size_t \<Rightarrow> cptr) \<Rightarrow> (cptr \<Rightarrow> size_t \<Rightarrow> bool \<Rightarrow> bool)
    \<Rightarrow> (cptr \<Rightarrow> size_t \<Rightarrow> cptr) \<Rightarrow> 'a ctx \<Rightarrow> (int \<times> 'a ctx) option" where
  "CreateStack opt malloc mprotect mkctx c =
     (let n = (if vaddr_size c = 0 then 64 * 1024 else vaddr_size c);
          n = round_to_page_size opt (scast n);
          n = n + protect_size opt * 1;
          c = c\<lparr>vaddr_size := n, vaddr := malloc (scast n)\<rparr>
      in if vaddr c = 0 then Some (- 1, c)
      else do {
        let c = c\<lparr>stk_bottom := vaddr c + scast (protect_size opt)\<rparr>;
        assert_c (protect_size opt \<noteq> 0 \<longrightarrow> ProtectStack mprotect (vaddr c) (protect_size opt));
        let c = c\<lparr>c_sp := mkctx (stk_bottom c + scast (vaddr_size c) - 1 * scast (protect_size opt))
                                (scast (vaddr_size c - 1 * protect_size opt))\<rparr>;
        Some (0, c) })"

text \<open>The constructor creates a stack unless the size is negative (the thread's main task).\<close>

definition context_new :: "options \<Rightarrow> (size_t \<Rightarrow> cptr) \<Rightarrow> (cptr \<Rightarrow> size_t \<Rightarrow> bool \<Rightarrow> bool)
    \<Rightarrow> (cptr \<Rightarrow> size_t \<Rightarrow> cptr) \<Rightarrow> cint \<Rightarrow> 'a \<Rightarrow> 'a ctx option" where
  "context_new opt malloc mprotect mkctx stack_size p =
     (let c = \<lparr>c_priv = p, vaddr = 0, vaddr_size = stack_size, stk_bottom = 0, c_sp = 0, caller_sp = 0\<rparr>
      in if 0 \<le> sint stack_size then map_option snd (CreateStack opt malloc mprotect mkctx c) else Some c)"

definition context_ReInit :: "options \<Rightarrow> (cptr \<Rightarrow> size_t \<Rightarrow> cptr) \<Rightarrow> 'a ctx \<Rightarrow> 'a ctx" where
  "context_ReInit opt mkctx c = c\<lparr>caller_sp := 0,
     c_sp := mkctx (stk_bottom c + scast (vaddr_size c) - 1 * scast (protect_size opt))
                  (scast (vaddr_size c - 1 * protect_size opt))\<rparr>"

definition update_caller_sp :: "cptr \<Rightarrow> 'a ctx \<Rightarrow> 'a ctx" where
  "update_caller_sp p c = c\<lparr>caller_sp := p\<rparr>"

text \<open>
  A switch stores the stack pointer that \<open>jump_fcontext\<close> returns when control comes back (\<open>back\<close>).
  Jumping to a null stack pointer has no result.
\<close>

definition context_SwapIn :: "(cptr \<Rightarrow> 'a option \<Rightarrow> cptr) \<Rightarrow> 'a ctx \<Rightarrow> (bool \<times> 'a ctx) option" where
  "context_SwapIn back c =
     (if c_sp c = 0 then None else Some (True, c\<lparr>c_sp := back (c_sp c) (Some (c_priv c))\<rparr>))"

definition context_SwapOut :: "(cptr \<Rightarrow> 'a option \<Rightarrow> cptr) \<Rightarrow> 'a ctx \<Rightarrow> (bool \<times> 'a ctx) option" where
  "context_SwapOut back c =
     (if caller_sp c = 0 then None else Some (True, c\<lparr>caller_sp := back (caller_sp c) None\<rparr>))"

text \<open>What the destructor hands to \<open>stack_free_fn\<close>.\<close>

definition context_delete :: "'a ctx \<Rightarrow> cptr \<times> cint" where
  "context_delete c = (vaddr c, vaddr_size c)"

section \<open>Task\<close>

datatype task_state = Runnable | Block | TDone

definition GetTaskStateName :: "task_state \<Rightarrow> string" where
  "GetTaskStateName s = (case s of Runnable \<Rightarrow> ''Runnable'' | Block \<Rightarrow> ''Block'' | TDone \<Rightarrow> ''Done'')"

text \<open>
  The union of the two function objects: which member was assigned last, and its target (\<open>None\<close>
  for an empty function object).
\<close>

datatype 'f task_fn = TaskF "'f option" | TaskF1 "'f option"

record 'f task =
  t_fn :: "'f task_fn"
  t_state :: task_state
  t_id :: uint32
  t_proc :: "nat option"
  t_ctx :: "addr ctx"
  t_yieldCount :: uint64
  t_suspendId :: uint32
  t_stack_size :: cint
  t_user_param :: ptr

definition task_new :: "'f \<Rightarrow> cint \<Rightarrow> addr ctx \<Rightarrow> 'f task" where
  "task_new f n c = \<lparr>t_fn = TaskF (Some f), t_state = Runnable, t_id = 0, t_proc = None, t_ctx = c,
     t_yieldCount = 0, t_suspendId = 0, t_stack_size = n, t_user_param = None\<rparr>"

definition task_new1 :: "'f \<Rightarrow> cint \<Rightarrow> ptr \<Rightarrow> addr ctx \<Rightarrow> 'f task" where
  "task_new1 f n p c = \<lparr>t_fn = TaskF1 (Some f), t_state = Runnable, t_id = 0, t_proc = None, t_ctx = c,
     t_yieldCount = 0, t_suspendId = 0, t_stack_size = n, t_user_param = p\<rparr>"

definition IsMainTask :: "'f task \<Rightarrow> bool" where
  "IsMainTask t \<longleftrightarrow> (if sint (t_stack_size t) < 0 then True else False)"

definition task_SwapIn :: "(cptr \<Rightarrow> addr option \<Rightarrow> cptr) \<Rightarrow> 'f task \<Rightarrow> (bool \<times> 'f task) option" where
  "task_SwapIn back t = map_option (\<lambda>(b, c). (b, t\<lparr>t_ctx := c\<rparr>)) (context_SwapIn back (t_ctx t))"

definition task_SwapOut :: "(cptr \<Rightarrow> addr option \<Rightarrow> cptr) \<Rightarrow> 'f task \<Rightarrow> (bool \<times> 'f task) option" where
  "task_SwapOut back t = do {
     assert_c (\<not> IsMainTask t);
     map_option (\<lambda>(b, c). (b, t\<lparr>t_ctx := c\<rparr>)) (context_SwapOut back (t_ctx t)) }"

definition task_Reset :: "'f task \<Rightarrow> 'f task" where
  "task_Reset t = t\<lparr>t_state := Runnable, t_proc := None, t_user_param := None\<rparr>"

definition task_ReInit :: "options \<Rightarrow> (cptr \<Rightarrow> size_t \<Rightarrow> cptr) \<Rightarrow> 'f \<Rightarrow> 'f task \<Rightarrow> 'f task" where
  "task_ReInit opt mkctx f t = t\<lparr>t_fn := TaskF (Some f), t_ctx := context_ReInit opt mkctx (t_ctx t)\<rparr>"

definition task_ReInit1 :: "options \<Rightarrow> (cptr \<Rightarrow> size_t \<Rightarrow> cptr) \<Rightarrow> 'f \<Rightarrow> ptr \<Rightarrow> 'f task \<Rightarrow> 'f task" where
  "task_ReInit1 opt mkctx f p t = t\<lparr>t_fn := TaskF1 (Some f), t_user_param := p,
     t_ctx := context_ReInit opt mkctx (t_ctx t)\<rparr>"

text \<open>
  \<open>Run\<close>. \<open>ret\<close> says whether a user function returns (true) or throws when it is called with the
  given parameter; calling an empty function object throws. Calling the member of the union that
  was not assigned has no result. An exception leaves the coroutine when the option asks for it.
\<close>

datatype ex_handle = Immediately_Throw | On_Listener

datatype 'f run_result = Finished "'f task" | Propagated "'f task"

definition task_call_fn :: "('f \<Rightarrow> ptr \<Rightarrow> bool) \<Rightarrow> 'f task \<Rightarrow> bool option" where
  "task_call_fn ret t =
     (case t_user_param t of
        None \<Rightarrow> (case t_fn t of
            TaskF g \<Rightarrow> Some (case g of None \<Rightarrow> False | Some f \<Rightarrow> ret f None)
          | TaskF1 g \<Rightarrow> None)
      | Some p \<Rightarrow> (case t_fn t of
            TaskF g \<Rightarrow> None
          | TaskF1 g \<Rightarrow> Some (case g of None \<Rightarrow> False | Some f \<Rightarrow> ret f (Some p))))"

definition task_Run :: "ex_handle \<Rightarrow> ('f \<Rightarrow> ptr \<Rightarrow> bool) \<Rightarrow> 'f task \<Rightarrow> 'f run_result option" where
  "task_Run handle ret t = do {
     returned \<leftarrow> task_call_fn ret t;
     if \<not> returned \<and> handle = Immediately_Throw then Some (Propagated t)
     else Some (Finished (t\<lparr>t_fn := TaskF None, t_state := TDone\<rparr>)) }"

text \<open>\<open>StaticRun\<close> is the first code of a coroutine: it keeps the caller's stack pointer.\<close>

definition task_StaticRun :: "ex_handle \<Rightarrow> ('f \<Rightarrow> ptr \<Rightarrow> bool) \<Rightarrow> cptr \<Rightarrow> 'f task \<Rightarrow> 'f run_result option" where
  "task_StaticRun handle ret fctx t =
     task_Run handle ret (t\<lparr>t_ctx := update_caller_sp fctx (t_ctx t)\<rparr>)"

text \<open>\<open>Processer::CoYield\<close> on the current task.\<close>

definition task_CoYield :: "(cptr \<Rightarrow> addr option \<Rightarrow> cptr) \<Rightarrow> 'f task \<Rightarrow> 'f task option" where
  "task_CoYield back t = map_option snd (task_SwapOut back (t\<lparr>t_yieldCount := t_yieldCount t + 1\<rparr>))"

section \<open>Page arithmetic\<close>

lemma and_not_mask: "x AND NOT (mask n) = push_bit n (drop_bit n (x :: 64 word))"
  by (rule bit_word_eqI) (auto simp: bit_simps)

lemma unat_and_not_mask: "unat (x AND NOT (mask n) :: 64 word) = unat x div 2 ^ n * 2 ^ n"
proof -
  have "unat x div 2 ^ n * 2 ^ n < 2 ^ 64"
    using unat_lt_64 [of x] by (meson div_times_less_eq_dividend order_le_less_trans)
  moreover have "unat (x AND NOT (mask n)) = take_bit 64 (push_bit n (drop_bit n (unat x)))"
    using unat_lt_64 [of x]
    by (simp only: and_not_mask unsigned_push_bit_eq unsigned_drop_bit_eq) (simp add: take_bit_nat_eq_self)
  ultimately show ?thesis
    by (simp add: push_bit_eq_mult drop_bit_eq_div take_bit_nat_eq_self)
qed

lemma mask_12: "mask 12 = (0xfff :: 64 word)"
  by (simp add: mask_eq_exp_minus_1)

lemma unat_and_page: "unat (x AND 0xfff :: 64 word) = unat x mod 4096"
proof -
  have "unat (x AND mask 12 :: 64 word) = unat x mod 4096"
    by (simp add: take_bit_eq_mod unat_mod flip: take_bit_eq_mask)
  then show ?thesis by (simp add: mask_12)
qed

lemma unat_and_not_page: "unat (x AND NOT 0xfff :: 64 word) = unat x div 4096 * 4096"
  using unat_and_not_mask [of x 12] by (simp add: mask_12)


text \<open>The protected zone starts at the first page boundary at or after the given address.\<close>

lemma protect_page_addr_bounds:
  assumes "unat p < 2 ^ 64 - 4096"
  shows "unat (protect_page_addr p) mod 4096 = 0 \<and> unat p \<le> unat (protect_page_addr p)
    \<and> unat (protect_page_addr p) < unat p + 4096"
proof (cases "p AND 0xfff = 0")
  case True
  then have "unat p mod 4096 = 0" using unat_and_page [of p] by simp
  then show ?thesis using True by (simp add: protect_page_addr_def)
next
  case False
  then have ne: "unat p mod 4096 \<noteq> 0" using unat_and_page [of p] by (metis unat_eq_zero)
  have le: "unat p div 4096 * 4096 \<le> unat p" by simp
  have "unat ((p AND NOT 0xfff) + 0x1000) = unat p div 4096 * 4096 + 4096"
  proof -
    have "unat (p AND NOT 0xfff) + unat (0x1000 :: 64 word) < 2 ^ 64"
      using assms le unfolding unat_and_not_page by simp
    then have "unat ((p AND NOT 0xfff) + 0x1000) = unat (p AND NOT 0xfff) + unat (0x1000 :: 64 word)"
      by (simp add: unat_word_ariths)
    then show ?thesis unfolding unat_and_not_page by simp
  qed
  moreover have "unat p div 4096 * 4096 + unat p mod 4096 = unat p" by simp
  then have "unat p div 4096 * 4096 < unat p" using ne by linarith
  moreover have "unat p < unat p div 4096 * 4096 + 4096"
    using \<open>unat p div 4096 * 4096 + unat p mod 4096 = unat p\<close> mod_less_divisor [of 4096 "unat p"]
    by linarith
  ultimately show ?thesis using False by (auto simp: protect_page_addr_def)
qed

text \<open>Rounding up with the usual page size of 4096 bytes.\<close>

lemma round_to_page_size_4096:
  assumes "stack_page_size opt = 4096" "unat n < 2 ^ 31 - 4096"
  shows "unat (round_to_page_size opt n) = (unat n + 4095) div 4096 * 4096"
proof -
  have m: "(scast (NOT (4096 - 1) :: 32 word) :: 64 word) = NOT 0xfff"
    by simp
  have "unat (n + scast (4096 :: 32 word) - 1) = unat n + 4095"
  proof -
    have "n + scast (4096 :: 32 word) - 1 = 4095 + n" by simp
    moreover have "unat (4095 + n) = unat n + 4095"
      using assms(2) by (simp add: unat_word_ariths)
    ultimately show ?thesis by simp
  qed
  then have *: "unat ((n + scast (4096 :: 32 word) - 1) AND NOT 0xfff) = (unat n + 4095) div 4096 * 4096"
    by (simp only: unat_and_not_page)
  have "(unat n + 4095) div 4096 * 4096 \<le> unat n + 4095" by simp
  also have "\<dots> < 2 ^ 32" using assms(2) by simp
  finally have "(unat n + 4095) div 4096 * 4096 < 2 ^ 32" .
  then show ?thesis
    unfolding round_to_page_size_def assms(1) m using *
    by (simp add: unsigned_ucast_eq take_bit_nat_eq_self)
qed


text \<open>A non-negative \<open>int\<close> keeps its value when it is converted to \<open>size_t\<close>.\<close>

lemma scast_nonneg:
  assumes "unat (w :: cint) < 2 ^ 31"
  shows "(scast w :: size_t) = ucast w" and "unat (scast w :: size_t) = unat w"
proof -
  have "\<not> bit (unat w) 31" using assms by (simp add: bit_iff_odd)
  then have "\<not> bit w 31" by (simp add: bit_unsigned_iff)
  show 1: "(scast w :: size_t) = ucast w"
  proof (rule bit_word_eqI)
    fix n assume "n < LENGTH(64)"
    have "\<not> bit w n" if "31 \<le> n"
      using that \<open>\<not> bit w 31\<close> bit_imp_le_length [of w n] by (cases "n = 31") auto
    then show "bit (scast w :: size_t) n \<longleftrightarrow> bit (ucast w :: size_t) n"
      using \<open>n < LENGTH(64)\<close> \<open>\<not> bit w 31\<close> by (auto simp: bit_simps min_def)
  qed
  have "unat w < 2 ^ 64" using assms by simp
  then show "unat (scast w :: size_t) = unat w"
    unfolding 1 by (simp add: unsigned_ucast_eq take_bit_nat_eq_self)
qed


section \<open>Properties\<close>

lemma scast_of_nat: "unat (w :: cint) < 2 ^ 31 \<Longrightarrow> (scast w :: size_t) = of_nat (unat w)"
  by (simp only: scast_nonneg(1) of_nat_unat)

lemma unat_add_64: "unat (a :: size_t) + unat b < 2 ^ 64 \<Longrightarrow> unat (a + b) = unat a + unat b"
  by (simp add: unat_word_ariths)

lemma unat_add_32: "unat (a :: cint) + unat b < 2 ^ 32 \<Longrightarrow> unat (a + b) = unat a + unat b"
  by (simp add: unat_word_ariths)



definition sample_options :: options where
  "sample_options = \<lparr>stack_page_size = 4096, protect_stack_page = 1\<rparr>"

definition sample_context :: "nat ctx" where
  "sample_context = \<lparr>c_priv = 7, vaddr = 0, vaddr_size = 5000, stk_bottom = 0, c_sp = 0, caller_sp = 0\<rparr>"


text \<open>
  The protected zone: \<open>ProtectStack\<close> starts at the first 4096 byte boundary at or above the
  address it is given, so it protects nothing below the block, and less than one page beyond
  the requested length; a page aligned address is used as it is.
\<close>

theorem protect_zone_bounds:
  assumes "unat p < 2 ^ 64 - 4096"
  shows "unat (protect_page_addr p) mod 4096 = 0
    \<and> unat p \<le> unat (protect_page_addr p) \<and> unat (protect_page_addr p) < unat p + 4096
    \<and> (unat p mod 4096 = 0 \<longrightarrow> protect_page_addr p = p)"
proof -
  have "p AND 0xfff = 0" if "unat p mod 4096 = 0"
    using that unat_and_page [of p] by (metis unat_0 word_unat_eq_iff)
  then show ?thesis using protect_page_addr_bounds [OF assms] by (auto simp: protect_page_addr_def)
qed

lemma protect_zone_bounds_witness:
  "unat (protect_page_addr 0x10010) mod 4096 = 0 \<and> unat (protect_page_addr 0x10010) < 0x10010 + 4096"
  using protect_zone_bounds [of "0x10010"] by simp


text \<open>
  A function that takes a parameter but was given a null one is called through the wrong
  member of the union: \<open>Run\<close> has no defined result, whatever the function does.
\<close>

theorem task_run_null_parameter_undefined:
  "task_Run h ret (task_new1 f n None c) = None
   \<and> task_Run h ret (task_ReInit1 opt mkctx f None (task_Reset t)) = None"
  by (simp add: task_Run_def task_call_fn_def task_new1_def task_ReInit1_def task_Reset_def)

end
