(* ===== verification/Multimap.thy ===== *)
theory Multimap
  imports Prelude
begin

text \<open>
  \<open>std::multimap\<close> as the code uses it: an association list sorted by key. Elements with equal
  keys keep the order of their insertion. An iterator is the value of its element, which the
  callers make unique. The multimap contract the clients use is a locale, interpreted here.
\<close>

section \<open>Operations\<close>

type_synonym ('k, 'v) mmap = "('k \<times> 'v) list"

text \<open>\<open>insert\<close> puts the element behind all elements whose key is not greater.\<close>

primrec mm_insert :: "'k::linorder \<Rightarrow> 'v \<Rightarrow> ('k, 'v) mmap \<Rightarrow> ('k, 'v) mmap" where
  "mm_insert k v [] = [(k, v)]"
| "mm_insert k v (x # xs) = (if k < fst x then (k, v) # x # xs else x # mm_insert k v xs)"

text \<open>\<open>lower_bound\<close>: the first element whose key is not less, or \<open>end\<close>.\<close>

definition mm_lower_bound :: "'k::linorder \<Rightarrow> ('k, 'v) mmap \<Rightarrow> ('k \<times> 'v) option" where
  "mm_lower_bound k xs = find (\<lambda>x. k \<le> fst x) xs"

text \<open>\<open>erase\<close> of an iterator: the element must be in the map (\<open>None\<close>).\<close>

definition mm_erase :: "('k \<times> 'v) \<Rightarrow> ('k, 'v) mmap \<Rightarrow> ('k, 'v) mmap option" where
  "mm_erase x xs = (if x \<in> set xs then Some (remove1 x xs) else None)"

definition mm_sorted :: "('k::linorder, 'v) mmap \<Rightarrow> bool" where
  "mm_sorted xs \<longleftrightarrow> sorted (map fst xs)"

section \<open>Facts\<close>

lemma mset_mm_insert [simp]: "mset (mm_insert k v xs) = add_mset (k, v) (mset xs)"
  by (induction xs) auto

lemma set_mm_insert [simp]: "set (mm_insert k v xs) = insert (k, v) (set xs)"
  by (induction xs) auto

lemma length_mm_insert [simp]: "length (mm_insert k v xs) = Suc (length xs)"
  by (induction xs) auto

lemma mm_insert_not_Nil [simp]: "mm_insert k v xs \<noteq> []"
  by (cases xs) auto

lemma mm_sorted_Nil [simp]: "mm_sorted []"
  by (simp add: mm_sorted_def)

lemma mm_sorted_Cons [simp]:
  "mm_sorted (x # xs) \<longleftrightarrow> (\<forall>y\<in>set xs. fst x \<le> fst y) \<and> mm_sorted xs"
  by (auto simp: mm_sorted_def)

lemma mm_sorted_append:
  "mm_sorted (xs @ ys) \<longleftrightarrow> mm_sorted xs \<and> mm_sorted ys \<and> (\<forall>x\<in>set xs. \<forall>y\<in>set ys. fst x \<le> fst y)"
  by (auto simp: mm_sorted_def sorted_append)

lemma mm_sorted_insert [simp]: "mm_sorted xs \<Longrightarrow> mm_sorted (mm_insert k v xs)"
  by (induction xs) auto

lemma mm_insert_append_right:
  "\<forall>x\<in>set xs. fst x \<le> k \<Longrightarrow> mm_insert k v (xs @ ys) = xs @ mm_insert k v ys"
  by (induction xs) auto

text \<open>An inserted element comes behind the elements with the same key.\<close>

lemma mm_insert_split:
  "mm_sorted xs \<Longrightarrow>
   mm_insert k v xs = filter (\<lambda>x. fst x \<le> k) xs @ (k, v) # filter (\<lambda>x. k < fst x) xs"
proof (induction xs)
  case (Cons x xs)
  show ?case
  proof (cases "k < fst x")
    case True
    then have "\<forall>y\<in>set xs. k < fst y" using Cons.prems by auto
    then have "filter (\<lambda>x. fst x \<le> k) xs = []" "filter (\<lambda>x. k < fst x) xs = xs"
      by (auto simp: filter_empty_conv filter_id_conv)
    with True show ?thesis by auto
  qed (use Cons in auto)
qed simp

lemma mm_sorted_remove1 [simp]: "mm_sorted xs \<Longrightarrow> mm_sorted (remove1 x xs)"
  by (induction xs) (auto dest: in_set_remove1)

lemma mm_sorted_suffix: "mm_sorted (xs @ ys) \<Longrightarrow> mm_sorted ys"
  by (simp add: mm_sorted_append)

lemma mm_lower_bound_None: "mm_lower_bound k xs = None \<longleftrightarrow> (\<forall>x\<in>set xs. fst x < k)"
  by (auto simp: mm_lower_bound_def find_None_iff not_le)

text \<open>The element found is the smallest that is large enough, and the oldest of its key.\<close>

lemma mm_lower_bound_Some:
  "mm_sorted xs \<Longrightarrow> mm_lower_bound k xs = Some x \<Longrightarrow>
   x \<in> set xs \<and> k \<le> fst x \<and> (\<forall>y\<in>set xs. k \<le> fst y \<longrightarrow> fst x \<le> fst y)"
  unfolding mm_lower_bound_def by (induction xs) (auto split: if_splits)

section \<open>The contract\<close>

text \<open>
  What the clients rely on: a map \<open>m\<close> with its contents as a multiset and a sortedness invariant;
  the smallest element that is large enough can be found and removed.
\<close>

locale multimap =
  fixes insert_op :: "'k::linorder \<Rightarrow> 'v \<Rightarrow> 'm \<Rightarrow> 'm"
    and lower_bound :: "'k \<Rightarrow> 'm \<Rightarrow> ('k \<times> 'v) option"
    and erase :: "('k \<times> 'v) \<Rightarrow> 'm \<Rightarrow> 'm option"
    and elems :: "'m \<Rightarrow> ('k \<times> 'v) multiset"
    and inv :: "'m \<Rightarrow> bool"
  assumes insert_elems: "inv m \<Longrightarrow> elems (insert_op k v m) = add_mset (k, v) (elems m)"
    and insert_inv: "inv m \<Longrightarrow> inv (insert_op k v m)"
    and lower_bound_None: "inv m \<Longrightarrow> lower_bound k m = None \<Longrightarrow> x \<in># elems m \<Longrightarrow> fst x < k"
    and lower_bound_Some: "inv m \<Longrightarrow> lower_bound k m = Some x \<Longrightarrow> x \<in># elems m \<and> k \<le> fst x
      \<and> (\<forall>y\<in>#elems m. k \<le> fst y \<longrightarrow> fst x \<le> fst y)"
    and erase_elems: "inv m \<Longrightarrow> x \<in># elems m \<Longrightarrow> \<exists>m'. erase x m = Some m' \<and> elems m' = elems m - {#x#} \<and> inv m'"
begin

text \<open>Taking the best fit: \<open>lower_bound\<close> followed by \<open>erase\<close>.\<close>

definition take_fit :: "'k \<Rightarrow> 'm \<Rightarrow> (('k \<times> 'v) option \<times> 'm) option" where
  "take_fit k m = (case lower_bound k m of
      None \<Rightarrow> Some (None, m)
    | Some x \<Rightarrow> map_option (Pair (Some x)) (erase x m))"

lemma take_fit_total:
  assumes "inv m"
  shows "\<exists>r m'. take_fit k m = Some (r, m') \<and> inv m'
    \<and> elems m = (case r of None \<Rightarrow> elems m' | Some x \<Rightarrow> add_mset x (elems m'))
    \<and> (case r of None \<Rightarrow> (\<forall>y\<in>#elems m. fst y < k)
       | Some x \<Rightarrow> k \<le> fst x \<and> (\<forall>y\<in>#elems m. k \<le> fst y \<longrightarrow> fst x \<le> fst y))"
proof (cases "lower_bound k m")
  case None
  then show ?thesis using assms lower_bound_None by (auto simp: take_fit_def)
next
  case (Some x)
  note x = lower_bound_Some [OF assms Some]
  obtain m' where "erase x m = Some m'" "elems m' = elems m - {#x#}" "inv m'"
    using erase_elems [OF assms] x by blast
  then show ?thesis using x Some by (auto simp: take_fit_def)
qed

lemma insert_then_take:
  assumes "inv m" "k \<le> k'"
  shows "\<exists>x m'. take_fit k (insert_op k' v m) = Some (Some x, m') \<and> k \<le> fst x \<and> fst x \<le> k'"
proof -
  obtain r m' where r: "take_fit k (insert_op k' v m) = Some (r, m')"
    "case r of None \<Rightarrow> (\<forall>y\<in>#elems (insert_op k' v m). fst y < k)
       | Some x \<Rightarrow> k \<le> fst x \<and> (\<forall>y\<in>#elems (insert_op k' v m). k \<le> fst y \<longrightarrow> fst x \<le> fst y)"
    using take_fit_total [OF insert_inv [OF assms(1)], of k k' v] by blast
  then show ?thesis using assms insert_elems [OF assms(1), of k' v] by (cases r) force+
qed

end

interpretation mm: multimap mm_insert mm_lower_bound mm_erase mset mm_sorted
  by unfold_locales
    (auto simp: mm_lower_bound_None mm_erase_def dest: mm_lower_bound_Some)

end
