(* ===== verification/Task_Pool.thy ===== *)
theory Task_Pool
  imports Task_Context Multimap
begin

text \<open>
  The tasks of a scheduler and the part of \<open>scheduler/scheduler.cpp\<close> and \<open>scheduler/scheduler.h\<close>
  that creates and recycles them: the list of finished tasks ordered by stack size
  (\<open>free_task_map_\<close>), the id counter and the task count. \<open>operator new\<close> is a parameter that yields
  an address which is not in use (\<open>env_ok\<close>).
\<close>

section \<open>State\<close>

record 'f world =
  tasks :: "addr \<rightharpoonup> 'f task"
  free_task_map :: "(int, addr) mmap"
  taskCount :: uint32
  TaskIdFactory :: uint32
  stopped :: bool

text \<open>The options and the external functions a new stack needs.\<close>

record env =
  e_options :: options
  e_stack_size :: cint
  e_new :: "addr set \<Rightarrow> addr"
  e_malloc :: "size_t \<Rightarrow> cptr"
  e_mprotect :: "cptr \<Rightarrow> size_t \<Rightarrow> bool \<Rightarrow> bool"
  e_mkctx :: "cptr \<Rightarrow> size_t \<Rightarrow> cptr"

text \<open>The two overloads: a plain function, or one with a parameter.\<close>

datatype 'f task_arg = Plain 'f | WithParam 'f ptr

text \<open>\<open>new\<close> yields unused addresses and protecting a page succeeds.\<close>

definition env_ok :: "env \<Rightarrow> bool" where
  "env_ok e \<longleftrightarrow> (\<forall>A. finite A \<longrightarrow> e_new e A \<notin> A) \<and> (\<forall>p n. e_mprotect e p n True)"

definition upd_task :: "addr \<Rightarrow> ('f task \<Rightarrow> 'f task) \<Rightarrow> 'f world \<Rightarrow> 'f world option" where
  "upd_task t f w = map_option (\<lambda>k. w\<lparr>tasks := (tasks w)(t \<mapsto> f k)\<rparr>) (tasks w t)"

definition task_state_of :: "addr \<Rightarrow> 'f world \<Rightarrow> task_state option" where
  "task_state_of t w = map_option t_state (tasks w t)"

section \<open>The free list\<close>

definition Add2FreeTaskList :: "addr \<Rightarrow> 'f world \<Rightarrow> 'f world option" where
  "Add2FreeTaskList tk w = do {
     w \<leftarrow> upd_task tk task_Reset w;
     k \<leftarrow> tasks w tk;
     Some (w\<lparr>free_task_map := mm_insert (sint (t_stack_size k)) tk (free_task_map w)\<rparr>) }"

definition GetFreeTaskList :: "env \<Rightarrow> 'f \<Rightarrow> cint \<Rightarrow> 'f world \<Rightarrow> (addr option \<times> 'f world) option" where
  "GetFreeTaskList e f stack_size w =
     (case mm_lower_bound (sint stack_size) (free_task_map w) of
        Some itr \<Rightarrow> do {
          let task = snd itr;
          m \<leftarrow> mm_erase itr (free_task_map w);
          w \<leftarrow> upd_task task (task_ReInit (e_options e) (e_mkctx e) f) (w\<lparr>free_task_map := m\<rparr>);
          Some (Some task, w) }
      | None \<Rightarrow> Some (None, w))"

definition GetFreeTaskList1 :: "env \<Rightarrow> 'f \<Rightarrow> cint \<Rightarrow> ptr \<Rightarrow> 'f world \<Rightarrow> (addr option \<times> 'f world) option" where
  "GetFreeTaskList1 e f stack_size userParam w =
     (case mm_lower_bound (sint stack_size) (free_task_map w) of
        Some itr \<Rightarrow> do {
          let task = snd itr;
          m \<leftarrow> mm_erase itr (free_task_map w);
          w \<leftarrow> upd_task task (task_ReInit1 (e_options e) (e_mkctx e) f userParam) (w\<lparr>free_task_map := m\<rparr>);
          Some (Some task, w) }
      | None \<Rightarrow> Some (None, w))"

section \<open>Creating a task\<close>

definition get_free :: "env \<Rightarrow> 'f task_arg \<Rightarrow> cint \<Rightarrow> 'f world \<Rightarrow> (addr option \<times> 'f world) option" where
  "get_free e arg n w = (case arg of
      Plain f \<Rightarrow> GetFreeTaskList e f n w
    | WithParam f p \<Rightarrow> GetFreeTaskList1 e f n p w)"

definition new_task :: "env \<Rightarrow> 'f task_arg \<Rightarrow> cint \<Rightarrow> addr \<Rightarrow> 'f task option" where
  "new_task e arg n a = map_option (\<lambda>c. case arg of
        Plain f \<Rightarrow> task_new f n c
      | WithParam f p \<Rightarrow> task_new1 f n p c)
     (context_new (e_options e) (e_malloc e) (e_mprotect e) (e_mkctx e) n a)"

text \<open>
  \<open>Scheduler::CreateTask\<close> up to the call of \<open>AddTask\<close>: a cached task whose stack is large enough,
  or a new one with the next id. A stack size of 0 asks for the default.
\<close>

definition create_task :: "env \<Rightarrow> 'f task_arg \<Rightarrow> cint \<Rightarrow> 'f world \<Rightarrow> (addr \<times> 'f world) option" where
  "create_task e arg stack_size w = do {
     let n = (if stack_size \<noteq> 0 then stack_size else e_stack_size e);
     (tk, w) \<leftarrow> get_free e arg n w;
     (tk, w) \<leftarrow> (case tk of
          Some t \<Rightarrow> Some (t, w)
        | None \<Rightarrow> do {
            let a = e_new e (dom (tasks w));
            k \<leftarrow> new_task e arg n a;
            let i = TaskIdFactory w + 1;
            Some (a, w\<lparr>tasks := (tasks w)(a \<mapsto> k\<lparr>t_id := i\<rparr>), TaskIdFactory := i\<rparr>) });
     Some (tk, w\<lparr>taskCount := taskCount w + 1\<rparr>) }"

section \<open>Well-formedness\<close>

text \<open>
  The free list is sorted, its tasks are alive, reset and listed once, each under its stack size.
\<close>

definition pool_ok :: "'f world \<Rightarrow> bool" where
  "pool_ok w \<longleftrightarrow> finite (dom (tasks w)) \<and> mm_sorted (free_task_map w) \<and> distinct (map snd (free_task_map w))
     \<and> (\<forall>(n, a)\<in>set (free_task_map w). \<exists>k. tasks w a = Some k \<and> sint (t_stack_size k) = n
          \<and> t_state k = Runnable \<and> t_proc k = None)"

definition free_tasks :: "'f world \<Rightarrow> addr set" where
  "free_tasks w = snd ` set (free_task_map w)"

lemma upd_task_Some: "tasks w t = Some k \<Longrightarrow> upd_task t f w = Some (w\<lparr>tasks := (tasks w)(t \<mapsto> f k)\<rparr>)"
  by (simp add: upd_task_def)

lemma pool_ok_other:
  assumes "pool_ok w" "t \<notin> free_tasks w" "free_task_map w' = free_task_map w"
    "\<And>a. a \<noteq> t \<Longrightarrow> tasks w' a = tasks w a"
  shows "pool_ok w'"
proof -
  have "dom (tasks w') \<subseteq> insert t (dom (tasks w))" using assms(4) by fastforce
  then have "finite (dom (tasks w'))" using assms(1) unfolding pool_ok_def by (metis finite.insertI finite_subset)
  moreover
  have "tasks w' a = tasks w a" if "(n, a) \<in> set (free_task_map w)" for n a
    using assms(2,4) that by (force simp: free_tasks_def)
  ultimately show ?thesis using assms(1,3) unfolding pool_ok_def by fastforce
qed

lemma pool_ok_upd_task:
  "pool_ok w \<Longrightarrow> t \<notin> free_tasks w \<Longrightarrow> upd_task t f w = Some w' \<Longrightarrow> pool_ok w'"
  by (erule pool_ok_other) (auto simp: upd_task_def)

lemma distinct_mm_insert: "distinct (map snd (mm_insert k v xs)) \<longleftrightarrow> v \<notin> snd ` set xs \<and> distinct (map snd xs)"
  by (induction xs) auto

text \<open>A finished task enters the free list reset, under its own stack size.\<close>

lemma Add2FreeTaskList_ok:
  assumes ok: "pool_ok w" and t: "tasks w tk = Some k" "tk \<notin> free_tasks w"
  shows "\<exists>w'. Add2FreeTaskList tk w = Some w' \<and> pool_ok w'
    \<and> free_tasks w' = insert tk (free_tasks w) \<and> tasks w' tk = Some (task_Reset k)
    \<and> (\<forall>a. a \<noteq> tk \<longrightarrow> tasks w' a = tasks w a)"
proof -
  define w' where "w' = w\<lparr>tasks := (tasks w)(tk \<mapsto> task_Reset k),
      free_task_map := mm_insert (sint (t_stack_size k)) tk (free_task_map w)\<rparr>"
  have S: "Add2FreeTaskList tk w = Some w'"
    using t by (simp add: Add2FreeTaskList_def upd_task_def w'_def task_Reset_def)
  have "tasks w' a = tasks w a" if "(n, a) \<in> set (free_task_map w)" for n a
    using t(2) that by (force simp: free_tasks_def w'_def)
  then have "pool_ok w'"
    using ok t unfolding pool_ok_def
    by (fastforce simp: w'_def distinct_mm_insert free_tasks_def task_Reset_def)
  with S show ?thesis by (auto simp: w'_def free_tasks_def)
qed

text \<open>Taking a cached task: the best fit, reinitialised, and no longer listed.\<close>

lemma get_free_Some:
  assumes ok: "pool_ok w" and lb: "mm_lower_bound (sint n) (free_task_map w) = Some (m, a)"
  shows "\<exists>k w'. get_free e arg n w = Some (Some a, w') \<and> pool_ok w'
    \<and> tasks w a = Some k \<and> sint (t_stack_size k) = m \<and> sint n \<le> m
    \<and> a \<in> free_tasks w \<and> free_tasks w' = free_tasks w - {a}
    \<and> tasks w' a = Some (case arg of Plain f \<Rightarrow> task_ReInit (e_options e) (e_mkctx e) f k
                          | WithParam f p \<Rightarrow> task_ReInit1 (e_options e) (e_mkctx e) f p k)
    \<and> (\<forall>b. b \<noteq> a \<longrightarrow> tasks w' b = tasks w b) \<and> taskCount w' = taskCount w \<and> stopped w' = stopped w"
proof -
  have sorted: "mm_sorted (free_task_map w)" using ok by (simp add: pool_ok_def)
  have in_set: "(m, a) \<in> set (free_task_map w)" "sint n \<le> m"
    using mm_lower_bound_Some [OF sorted lb] by auto
  obtain k where k: "tasks w a = Some k" "sint (t_stack_size k) = m"
    using ok in_set(1) by (fastforce simp: pool_ok_def)
  define f where "f = (case arg of Plain f \<Rightarrow> task_ReInit (e_options e) (e_mkctx e) f
                          | WithParam f p \<Rightarrow> task_ReInit1 (e_options e) (e_mkctx e) f p)"
  define w' where "w' = w\<lparr>free_task_map := remove1 (m, a) (free_task_map w), tasks := (tasks w)(a \<mapsto> f k)\<rparr>"
  have S: "get_free e arg n w = Some (Some a, w')"
    using lb in_set k by (cases arg) (simp_all add: get_free_def GetFreeTaskList_def GetFreeTaskList1_def
      mm_erase_def upd_task_def w'_def f_def)
  have dist: "distinct (map snd (free_task_map w))" using ok by (simp add: pool_ok_def)
  then have dist': "distinct (free_task_map w)" by (simp add: distinct_map)
  have rest: "b \<noteq> a" if "(i, b) \<in> set (remove1 (m, a) (free_task_map w))" for i b
    using that dist dist' in_set(1) inj_onD [of snd "set (free_task_map w)" "(i, b)" "(m, a)"]
    by (auto simp: distinct_map)
  have "distinct (map snd (remove1 (m, a) (free_task_map w)))"
    using dist dist' by (auto simp: distinct_map set_remove1_eq intro: inj_on_subset)
  moreover have "set (remove1 (m, a) (free_task_map w)) \<subseteq> set (free_task_map w)" by (rule set_remove1_subset)
  moreover have "tasks w' b = tasks w b" if "(i, b) \<in> set (remove1 (m, a) (free_task_map w))" for i b
    using rest [OF that] by (simp add: w'_def)
  ultimately have "pool_ok w'"
    using ok unfolding pool_ok_def by (fastforce simp: w'_def)
  moreover have "free_tasks w' = free_tasks w - {a}"
    using rest dist' in_set(1) by (force simp: w'_def free_tasks_def set_remove1_eq)
  ultimately show ?thesis
    using S in_set k by (auto simp: w'_def f_def free_tasks_def image_iff split: task_arg.splits intro!: bexI [OF _ in_set(1)])
qed

lemma get_free_None:
  "mm_lower_bound (sint n) (free_task_map w) = None \<Longrightarrow> get_free e arg n w = Some (None, w)"
  by (cases arg) (simp_all add: get_free_def GetFreeTaskList_def GetFreeTaskList1_def)


text \<open>The whole of \<open>create_task\<close>, for both outcomes.\<close>

definition want_size :: "env \<Rightarrow> cint \<Rightarrow> cint" where
  "want_size e stack_size = (if stack_size \<noteq> 0 then stack_size else e_stack_size e)"

lemma new_task_fields:
  assumes "new_task e arg n a = Some k"
  shows "t_state k = Runnable \<and> t_proc k = None \<and> t_stack_size k = n"
  using assms by (cases arg) (auto simp: new_task_def task_new_def task_new1_def)

lemma ReInit_fields [simp]:
  "t_state (task_ReInit opt mk f k) = t_state k" "t_proc (task_ReInit opt mk f k) = t_proc k"
  "t_stack_size (task_ReInit opt mk f k) = t_stack_size k" "t_id (task_ReInit opt mk f k) = t_id k"
  "t_state (task_ReInit1 opt mk f p k) = t_state k" "t_proc (task_ReInit1 opt mk f p k) = t_proc k"
  "t_stack_size (task_ReInit1 opt mk f p k) = t_stack_size k" "t_id (task_ReInit1 opt mk f p k) = t_id k"
  by (simp_all add: task_ReInit_def task_ReInit1_def)

lemma new_task_total: "env_ok e \<Longrightarrow> \<exists>k. new_task e arg n a = Some k"
  by (cases arg) (auto simp: new_task_def context_new_def CreateStack_def ProtectStack_def env_ok_def Let_def)

lemma create_task_ok:
  assumes ok: "pool_ok w" and env: "env_ok e"
  shows "\<exists>tk k w'. create_task e arg stack_size w = Some (tk, w') \<and> pool_ok w'
    \<and> tk \<notin> free_tasks w' \<and> taskCount w' = taskCount w + 1 \<and> stopped w' = stopped w
    \<and> tasks w' tk = Some k \<and> t_state k = Runnable \<and> t_proc k = None
    \<and> sint (want_size e stack_size) \<le> sint (t_stack_size k)
    \<and> (if tk \<in> free_tasks w then free_tasks w' = free_tasks w - {tk}
       else tasks w tk = None \<and> free_tasks w' = free_tasks w \<and> t_id k = TaskIdFactory w + 1
         \<and> (\<forall>x\<in>set (free_task_map w). fst x < sint (want_size e stack_size)))
    \<and> (\<forall>t. t \<noteq> tk \<longrightarrow> tasks w' t = tasks w t)"
proof (cases "mm_lower_bound (sint (want_size e stack_size)) (free_task_map w)")
  case None
  let ?n = "want_size e stack_size"
  define a where "a = e_new e (dom (tasks w))"
  have a: "tasks w a = None" using env ok unfolding a_def env_ok_def pool_ok_def by blast
  obtain k where k: "new_task e arg ?n a = Some k" using new_task_total [OF env] by blast
  define w' where "w' = w\<lparr>tasks := (tasks w)(a \<mapsto> k\<lparr>t_id := TaskIdFactory w + 1\<rparr>),
    TaskIdFactory := TaskIdFactory w + 1, taskCount := taskCount w + 1\<rparr>"
  have af: "a \<notin> free_tasks w" using ok a by (auto simp: pool_ok_def free_tasks_def)
  have "create_task e arg stack_size w = Some (a, w')"
    using get_free_None [OF None, of e arg] k
    by (simp add: create_task_def want_size_def [symmetric] a_def [symmetric] Let_def w'_def)
  moreover have "pool_ok w'" by (rule pool_ok_other [OF ok af]) (auto simp: w'_def)
  moreover have "free_tasks w' = free_tasks w" by (simp add: w'_def free_tasks_def)
  ultimately show ?thesis using new_task_fields [OF k] af a None
    by (auto simp: w'_def mm_lower_bound_None)
next
  case (Some x)
  obtain m t where x: "x = (m, t)" by (cases x)
  obtain k w1 where S: "get_free e arg (want_size e stack_size) w = Some (Some t, w1)" "pool_ok w1"
    "tasks w t = Some k" "sint (t_stack_size k) = m" "sint (want_size e stack_size) \<le> m"
    "t \<in> free_tasks w" "free_tasks w1 = free_tasks w - {t}"
    "tasks w1 t = Some (case arg of Plain f \<Rightarrow> task_ReInit (e_options e) (e_mkctx e) f k
                          | WithParam f p \<Rightarrow> task_ReInit1 (e_options e) (e_mkctx e) f p k)"
    "taskCount w1 = taskCount w" "stopped w1 = stopped w" "\<forall>b. b \<noteq> t \<longrightarrow> tasks w1 b = tasks w b"
    using get_free_Some [OF ok Some [unfolded x], of e arg] by blast
  define w' where "w' = w1\<lparr>taskCount := taskCount w1 + 1\<rparr>"
  have "create_task e arg stack_size w = Some (t, w')"
    using S(1) by (simp add: create_task_def want_size_def [symmetric] w'_def)
  moreover have "pool_ok w'" "free_tasks w' = free_tasks w1"
    using S(2) by (simp_all add: w'_def pool_ok_def free_tasks_def)
  moreover have "t_state k = Runnable" "t_proc k = None"
    using ok S(3,6) by (fastforce simp: pool_ok_def free_tasks_def)+
  ultimately show ?thesis using S by (cases arg) (auto simp: w'_def)
qed

section \<open>Properties\<close>

text \<open>
  \<open>CreateTask\<close> always yields a runnable task that belongs to no processer and whose stack is
  at least as large as asked for (the default for 0): a cached task when one fits, else a new one
  with the next id, and then no cached stack was large enough. The task leaves the free list,
  which stays well formed, and the task count grows by one.
\<close>

theorem create_task_fits:
  assumes "pool_ok w" and "env_ok e"
  shows "\<exists>tk k w'. create_task e arg stack_size w = Some (tk, w') \<and> pool_ok w'
    \<and> tk \<notin> free_tasks w' \<and> taskCount w' = taskCount w + 1
    \<and> tasks w' tk = Some k \<and> t_state k = Runnable \<and> t_proc k = None
    \<and> sint (want_size e stack_size) \<le> sint (t_stack_size k)
    \<and> (if tk \<in> free_tasks w then free_tasks w' = free_tasks w - {tk}
       else tasks w tk = None \<and> free_tasks w' = free_tasks w \<and> t_id k = TaskIdFactory w + 1
         \<and> (\<forall>x\<in>set (free_task_map w). fst x < sint (want_size e stack_size)))"
  using create_task_ok [OF assms, of arg stack_size] by blast

definition demo_env :: env where
  "demo_env = \<lparr>e_options = \<lparr>stack_page_size = 4096, protect_stack_page = 0\<rparr>, e_stack_size = 0x100000,
     e_new = (\<lambda>A. Suc (Max (insert 0 A))), e_malloc = (\<lambda>n. 0x10000), e_mprotect = (\<lambda>p n b. True),
     e_mkctx = (\<lambda>p n. p)\<rparr>"

definition demo_task :: "nat task" where
  "demo_task = task_new 5 0x2000 \<lparr>c_priv = 1, vaddr = 0x10000, vaddr_size = 0x2000, stk_bottom = 0x10000,
     c_sp = 0x12000, caller_sp = 0\<rparr>"

definition demo_world :: "nat world" where
  "demo_world = \<lparr>tasks = [1 \<mapsto> demo_task], free_task_map = [(0x2000, 1)], taskCount = 0,
     TaskIdFactory = 1, stopped = False\<rparr>"

lemma demo_env_ok: "env_ok demo_env"
proof -
  have "Suc (Max (insert 0 A)) \<notin> A" if "finite A" for A :: "nat set"
    using that by (metis Max_ge finite.insertI insertI2 not_less_eq_eq order_refl)
  then show ?thesis by (simp add: env_ok_def demo_env_def)
qed

lemma demo_world_ok: "pool_ok demo_world"
  by (simp add: pool_ok_def demo_world_def demo_task_def task_new_def)

lemma create_task_fits_witness:
  "\<exists>tk k w'. create_task demo_env (Plain 9) 0x1000 demo_world = Some (tk, w') \<and> pool_ok w'
    \<and> tk \<notin> free_tasks w' \<and> taskCount w' = 1 \<and> tasks w' tk = Some k \<and> 0x1000 \<le> sint (t_stack_size k)"
  using create_task_fits [OF demo_world_ok demo_env_ok, of "Plain 9" "0x1000"]
  by (fastforce simp: demo_world_def want_size_def)

text \<open>
  A finished task is recycled: \<open>Add2FreeTaskList\<close> lists it reset, under its stack size, and the
  next \<open>CreateTask\<close> that asks for no larger a stack takes a cached task instead of allocating, and
  among the cached ones a smallest that fits.
\<close>

theorem finished_task_is_reused:
  assumes "pool_ok w" and "tasks w tk = Some k" and "tk \<notin> free_tasks w"
    and "stack_size \<noteq> 0" and "sint stack_size \<le> sint (t_stack_size k)"
  shows "\<exists>w1 t m w2. Add2FreeTaskList tk w = Some w1 \<and> pool_ok w1
    \<and> create_task e arg stack_size w1 = Some (t, w2) \<and> pool_ok w2
    \<and> (m, t) \<in> set (free_task_map w1) \<and> sint stack_size \<le> m
    \<and> (\<forall>(i, b)\<in>set (free_task_map w1). sint stack_size \<le> i \<longrightarrow> m \<le> i)
    \<and> t \<notin> free_tasks w2"
proof -
  obtain w1 where A: "Add2FreeTaskList tk w = Some w1" "pool_ok w1"
    using Add2FreeTaskList_ok [OF assms(1,2,3)] by auto
  have map: "free_task_map w1 = mm_insert (sint (t_stack_size k)) tk (free_task_map w)"
    using A(1) assms(2) by (auto simp: Add2FreeTaskList_def upd_task_def task_Reset_def)
  have sorted: "mm_sorted (free_task_map w1)" using A(2) by (simp add: pool_ok_def)
  obtain m t where lb: "mm_lower_bound (sint stack_size) (free_task_map w1) = Some (m, t)"
  proof (cases "mm_lower_bound (sint stack_size) (free_task_map w1)")
    case None
    then show ?thesis using assms(5) by (auto simp: mm_lower_bound_None map)
  next
    case (Some x)
    then show ?thesis using that by (cases x) auto
  qed
  note L = mm_lower_bound_Some [OF sorted lb]
  obtain w2 where G: "get_free e arg stack_size w1 = Some (Some t, w2)" "pool_ok w2"
    "free_tasks w2 = free_tasks w1 - {t}"
    using get_free_Some [OF A(2) lb, of e arg] by blast
  have "create_task e arg stack_size w1 = Some (t, w2\<lparr>taskCount := taskCount w2 + 1\<rparr>)"
    using G(1) assms(4) by (simp add: create_task_def)
  moreover have "pool_ok (w2\<lparr>taskCount := taskCount w2 + 1\<rparr>)" "t \<notin> free_tasks (w2\<lparr>taskCount := taskCount w2 + 1\<rparr>)"
    using G(2,3) by (simp_all add: pool_ok_def free_tasks_def)
  ultimately show ?thesis using A L by fastforce
qed

lemma finished_task_is_reused_witness:
  "\<exists>w1 t m w2. Add2FreeTaskList 2 (demo_world\<lparr>tasks := [1 \<mapsto> demo_task, 2 \<mapsto> demo_task]\<rparr>) = Some w1
    \<and> create_task demo_env (Plain 9) 0x1000 w1 = Some (t, w2) \<and> (m, t) \<in> set (free_task_map w1) \<and> 0x1000 \<le> m"
  using finished_task_is_reused [of "demo_world\<lparr>tasks := [1 \<mapsto> demo_task, 2 \<mapsto> demo_task]\<rparr>" 2 demo_task
      "0x1000" demo_env "Plain 9"]
  by (fastforce simp: pool_ok_def demo_world_def demo_task_def task_new_def free_tasks_def)

end
