(* ===== verification/Timer.thy ===== *)
theory Timer
  imports Multimap
begin

text \<open>
  \<open>TimerManager\<close> of \<open>timer/timer.h\<close> and \<open>timer/timer.cpp\<close>: sleeping tasks and user timers ordered
  by expiry. Time points are nanoseconds; the clock readings are arguments. A map element carries
  the identity of its node, which an iterator refers to; erasing or stepping from a node that is
  no longer in the map is undefined and has no result (\<open>None\<close>). User callbacks are parameters:
  what a callback does to the rest of the program (\<open>'w\<close>) and the calls it makes on the manager
  while the lock is released.
\<close>

section \<open>State\<close>

definition MIN_WAITE_TIME :: int where
  "MIN_WAITE_TIME = 10"

datatype timer_type = TimerTimeout | TaskTimeout

record telem =
  e_type :: timer_type
  e_cb :: nat
  e_task :: "addr option"
  e_param :: ptr
  e_node :: nat

text \<open>The manager: the map and the identity the next node gets.\<close>

record timer_manager =
  timer_map :: "(int, telem) mmap"
  next_node :: nat

text \<open>A \<open>Timer\<close> handle: the iterator and the owning processer.\<close>

record timer =
  id_node :: nat
  t_processer :: "nat option"

definition tm_new :: timer_manager where
  "tm_new = \<lparr>timer_map = [], next_node = 0\<rparr>"

section \<open>Adding and stopping\<close>

definition tm_insert :: "int \<Rightarrow> telem \<Rightarrow> timer_manager \<Rightarrow> nat \<times> timer_manager" where
  "tm_insert t e m =
     (next_node m, m\<lparr>timer_map := mm_insert t (e\<lparr>e_node := next_node m\<rparr>) (timer_map m),
                     next_node := Suc (next_node m)\<rparr>)"

definition AddSleeper :: "int \<Rightarrow> int \<Rightarrow> addr \<Rightarrow> timer_manager \<Rightarrow> timer_manager" where
  "AddSleeper clock duration tk m =
     (let e = \<lparr>e_type = TaskTimeout, e_cb = 0, e_task = Some tk, e_param = None, e_node = 0\<rparr>;
          now = clock + duration
      in snd (tm_insert now e m))"

definition AddTimerAt :: "int \<Rightarrow> nat \<Rightarrow> ptr \<Rightarrow> timer_manager \<Rightarrow> timer \<times> timer_manager" where
  "AddTimerAt t cb param m =
     (let e = \<lparr>e_type = TimerTimeout, e_cb = cb, e_task = None, e_param = param, e_node = 0\<rparr>;
          (n, m) = tm_insert t e m
      in (\<lparr>id_node = n, t_processer = None\<rparr>, m))"

definition AddTimer :: "int \<Rightarrow> int \<Rightarrow> nat \<Rightarrow> ptr \<Rightarrow> timer_manager \<Rightarrow> timer \<times> timer_manager" where
  "AddTimer clock duration cb param m = AddTimerAt (clock + duration) cb param m"

text \<open>The element a node belongs to.\<close>

definition node_elem :: "nat \<Rightarrow> (int, telem) mmap \<Rightarrow> (int \<times> telem) option" where
  "node_elem n xs = find (\<lambda>x. e_node (snd x) = n) xs"

definition tm_StopTimer :: "timer \<Rightarrow> timer_manager \<Rightarrow> (bool \<times> timer \<times> timer_manager) option" where
  "tm_StopTimer tm m = do {
     x \<leftarrow> node_elem (id_node tm) (timer_map m);
     xs \<leftarrow> mm_erase x (timer_map m);
     Some (True, tm\<lparr>t_processer := None\<rparr>, m\<lparr>timer_map := xs\<rparr>) }"

section \<open>The next expiry\<close>

text \<open>
  \<open>duration_cast\<close> to milliseconds truncates towards zero; the count is then narrowed to \<open>int\<close>.
\<close>

definition ms_of_ns :: "int \<Rightarrow> int" where
  "ms_of_ns d = (if d < 0 then - ((- d) div 1000000) else d div 1000000)"

definition GetLastDuration :: "int \<Rightarrow> timer_manager \<Rightarrow> int" where
  "GetLastDuration clock m =
     (case timer_map m of
        [] \<Rightarrow> MIN_WAITE_TIME
      | x # _ \<Rightarrow> (let dtm = to_int32 (ms_of_ns (fst x - clock)) in if dtm \<le> 0 then 0 else dtm))"

section \<open>Waking up\<close>

text \<open>What a callback may do to the manager.\<close>

datatype timer_call = Call_Add int nat ptr | Call_Stop timer

primrec do_call :: "timer_call \<Rightarrow> timer_manager \<Rightarrow> timer_manager option" where
  "do_call (Call_Add t cb p) m = Some (snd (AddTimerAt t cb p m))"
| "do_call (Call_Stop tm) m = map_option (snd \<circ> snd) (tm_StopTimer tm m)"

primrec do_calls :: "timer_call list \<Rightarrow> timer_manager \<Rightarrow> timer_manager option" where
  "do_calls [] m = Some m"
| "do_calls (c # cs) m = Option.bind (do_call c m) (do_calls cs)"

text \<open>The node behind a node: what \<open>++it\<close> yields.\<close>

primrec node_succ :: "nat \<Rightarrow> (int, telem) mmap \<Rightarrow> nat option option" where
  "node_succ n [] = None"
| "node_succ n (x # xs) =
     (if e_node (snd x) = n then Some (case xs of [] \<Rightarrow> None | y # _ \<Rightarrow> Some (e_node (snd y)))
      else node_succ n xs)"

text \<open>
  The loop of \<open>WakeupTimers\<close>: \<open>it\<close> is the current node or \<open>end\<close>. \<open>cb\<close> is the program of a user
  callback, \<open>wake\<close> is \<open>WakeupBySelfIO\<close> on a sleeping task.
\<close>

partial_function (option) wakeup_loop ::
  "(nat \<Rightarrow> ptr \<Rightarrow> 'w \<Rightarrow> 'w \<times> timer_call list) \<Rightarrow> (addr \<Rightarrow> 'w \<Rightarrow> 'w option) \<Rightarrow> int \<Rightarrow> nat option
     \<Rightarrow> timer_manager \<Rightarrow> 'w \<Rightarrow> (nat option \<times> timer_manager \<times> 'w) option" where
  "wakeup_loop cb wake now it m w =
     (case it of
        None \<Rightarrow> Some (None, m, w)
      | Some n \<Rightarrow> Option.bind (node_elem n (timer_map m)) (\<lambda>x.
          if fst x > now then Some (Some n, m, w)
          else Option.bind
            (case e_type (snd x) of
               TimerTimeout \<Rightarrow>
                 (let r = cb (e_cb (snd x)) (e_param (snd x)) w
                  in map_option (\<lambda>m. (m, fst r)) (do_calls (snd r) m))
             | TaskTimeout \<Rightarrow>
                 Option.bind (e_task (snd x)) (\<lambda>tk. map_option (Pair m) (wake tk w)))
            (\<lambda>mw. Option.bind (node_succ n (timer_map (fst mw)))
               (\<lambda>it. wakeup_loop cb wake now it (fst mw) (snd mw)))))"

text \<open>\<open>erase (begin, it)\<close>.\<close>

primrec erase_before :: "nat option \<Rightarrow> (int, telem) mmap \<Rightarrow> (int, telem) mmap option" where
  "erase_before it [] = (if it = None then Some [] else None)"
| "erase_before it (x # xs) = (if it = Some (e_node (snd x)) then Some (x # xs) else erase_before it xs)"

definition WakeupTimers ::
  "(nat \<Rightarrow> ptr \<Rightarrow> 'w \<Rightarrow> 'w \<times> timer_call list) \<Rightarrow> (addr \<Rightarrow> 'w \<Rightarrow> 'w option) \<Rightarrow> int
     \<Rightarrow> timer_manager \<Rightarrow> 'w \<Rightarrow> (timer_manager \<times> 'w) option" where
  "WakeupTimers cb wake now m w =
     (if timer_map m = [] then Some (m, w)
      else do {
        (it, m, w) \<leftarrow> wakeup_loop cb wake now (Some (e_node (snd (hd (timer_map m))))) m w;
        xs \<leftarrow> erase_before it (timer_map m);
        Some (m\<lparr>timer_map := xs\<rparr>, w) })"

section \<open>Well-formedness\<close>

definition nodes :: "(int, telem) mmap \<Rightarrow> nat list" where
  "nodes xs = map (e_node \<circ> snd) xs"

definition tm_ok :: "timer_manager \<Rightarrow> bool" where
  "tm_ok m \<longleftrightarrow> mm_sorted (timer_map m) \<and> distinct (nodes (timer_map m))
     \<and> (\<forall>n\<in>set (nodes (timer_map m)). n < next_node m)
     \<and> (\<forall>x\<in>set (timer_map m). e_type (snd x) = TaskTimeout \<longrightarrow> e_task (snd x) \<noteq> None)"

lemma nodes_simps [simp]:
  "nodes [] = []" "nodes (x # xs) = e_node (snd x) # nodes xs" "nodes (xs @ ys) = nodes xs @ nodes ys"
  by (simp_all add: nodes_def)

lemma set_nodes: "set (nodes xs) = (e_node \<circ> snd) ` set xs"
  by (simp add: nodes_def)

lemma mset_nodes_insert: "mset (nodes (mm_insert k v xs)) = add_mset (e_node v) (mset (nodes xs))"
  by (simp add: nodes_def)

lemma distinct_nodes_insert:
  "distinct (nodes (mm_insert k v xs)) \<longleftrightarrow> e_node v \<notin> set (nodes xs) \<and> distinct (nodes xs)"
  by (simp only: distinct_count_atmost_1 set_mset_mset [symmetric] mset_nodes_insert)
    (auto simp: not_in_iff split: if_splits)

lemma set_nodes_insert: "set (nodes (mm_insert k v xs)) = insert (e_node v) (set (nodes xs))"
  by (auto simp: set_nodes)

lemma in_nodes: "x \<in> set xs \<Longrightarrow> e_node (snd x) \<in> set (nodes xs)"
  by (simp add: set_nodes)

lemma tm_ok_new: "tm_ok tm_new"
  by (simp add: tm_ok_def tm_new_def)

lemma tm_ok_insert:
  "tm_ok m \<Longrightarrow> (e_type e = TaskTimeout \<longrightarrow> e_task e \<noteq> None) \<Longrightarrow> tm_ok (snd (tm_insert t e m))"
  by (auto simp: tm_ok_def tm_insert_def distinct_nodes_insert set_nodes_insert less_Suc_eq)

lemma tm_ok_AddSleeper: "tm_ok m \<Longrightarrow> tm_ok (AddSleeper clock d tk m)"
  unfolding AddSleeper_def Let_def by (rule tm_ok_insert) auto

lemma tm_ok_AddTimerAt: "tm_ok m \<Longrightarrow> tm_ok (snd (AddTimerAt t cb p m))"
  using tm_ok_insert [of m "\<lparr>e_type = TimerTimeout, e_cb = cb, e_task = None, e_param = p, e_node = 0\<rparr>" t]
  by (simp add: AddTimerAt_def Let_def split_def)

lemma node_elem_in:
  "distinct (nodes xs) \<Longrightarrow> x \<in> set xs \<Longrightarrow> node_elem (e_node (snd x)) xs = Some x"
  unfolding node_elem_def by (induction xs) (auto simp: set_nodes)

lemma node_elem_None: "node_elem n xs = None \<longleftrightarrow> n \<notin> set (nodes xs)"
  by (induction xs) (auto simp: node_elem_def)

lemma node_elem_Some: "node_elem n xs = Some x \<Longrightarrow> x \<in> set xs \<and> e_node (snd x) = n"
  by (auto simp: node_elem_def find_Some_iff)

lemma nodes_remove1: "distinct (nodes xs) \<Longrightarrow> x \<in> set xs \<Longrightarrow> nodes (remove1 x xs) = remove1 (e_node (snd x)) (nodes xs)"
proof (induction xs)
  case (Cons y ys)
  show ?case
  proof (cases "x = y")
    case False
    then have "x \<in> set ys" using Cons.prems by simp
    then have "e_node (snd x) \<in> set (nodes ys)" by (simp add: set_nodes)
    then have "e_node (snd x) \<noteq> e_node (snd y)" using Cons.prems by auto
    then show ?thesis using Cons \<open>x \<in> set ys\<close> False by simp
  qed simp
qed simp

text \<open>Stopping a pending timer removes exactly its element; a handle that is not in the map is an error.\<close>

lemma tm_StopTimer_pending:
  assumes "tm_ok m" "x \<in> set (timer_map m)" "id_node tm = e_node (snd x)"
  shows "tm_StopTimer tm m = Some (True, tm\<lparr>t_processer := None\<rparr>, m\<lparr>timer_map := remove1 x (timer_map m)\<rparr>)"
  using assms node_elem_in [of "timer_map m" x] by (simp add: tm_StopTimer_def tm_ok_def mm_erase_def)

lemma tm_StopTimer_gone: "id_node tm \<notin> set (nodes (timer_map m)) \<Longrightarrow> tm_StopTimer tm m = None"
  by (simp add: tm_StopTimer_def node_elem_None [symmetric])

lemma tm_ok_StopTimer:
  assumes "tm_ok m" "tm_StopTimer tm m = Some (b, tm', m')"
  shows "tm_ok m'"
proof -
  obtain x where x: "x \<in> set (timer_map m)" "m' = m\<lparr>timer_map := remove1 x (timer_map m)\<rparr>"
    using assms(2) by (auto simp: tm_StopTimer_def mm_erase_def split: Option.bind_splits if_splits)
  have "distinct (nodes (timer_map m))" using assms(1) by (simp add: tm_ok_def)
  then have "nodes (remove1 x (timer_map m)) = remove1 (e_node (snd x)) (nodes (timer_map m))"
    using x(1) by (rule nodes_remove1)
  then show ?thesis using assms(1) x
    by (auto simp: tm_ok_def dest: notin_set_remove1 in_set_remove1 [THEN iffD1, rotated] set_remove1_subset [THEN subsetD])
qed


section \<open>What waking up does\<close>

text \<open>The effects of one expired element, and of several in order.\<close>

definition fire ::
  "(nat \<Rightarrow> ptr \<Rightarrow> 'w \<Rightarrow> 'w \<times> timer_call list) \<Rightarrow> (addr \<Rightarrow> 'w \<Rightarrow> 'w option) \<Rightarrow> telem \<Rightarrow> 'w
     \<Rightarrow> ('w \<times> timer_call list) option" where
  "fire cb wake e w = (case e_type e of
      TimerTimeout \<Rightarrow> Some (cb (e_cb e) (e_param e) w)
    | TaskTimeout \<Rightarrow> Option.bind (e_task e) (\<lambda>tk. map_option (\<lambda>w. (w, [])) (wake tk w)))"

primrec fire_all ::
  "(nat \<Rightarrow> ptr \<Rightarrow> 'w \<Rightarrow> 'w \<times> timer_call list) \<Rightarrow> (addr \<Rightarrow> 'w \<Rightarrow> 'w option) \<Rightarrow> (int, telem) mmap \<Rightarrow> 'w
     \<Rightarrow> ('w \<times> timer_call list) option" where
  "fire_all cb wake [] w = Some (w, [])"
| "fire_all cb wake (x # xs) w =
     Option.bind (fire cb wake (snd x) w) (\<lambda>(w, cs).
       Option.bind (fire_all cb wake xs w) (\<lambda>(w, ds). Some (w, cs @ ds)))"

text \<open>A call that concerns neither the expired elements nor the past.\<close>

definition later_call :: "int \<Rightarrow> (int, telem) mmap \<Rightarrow> timer_call \<Rightarrow> bool" where
  "later_call now due c = (case c of Call_Add t k p \<Rightarrow> now < t | Call_Stop tm \<Rightarrow> id_node tm \<notin> set (nodes due))"

lemma do_calls_append:
  "do_calls (xs @ ys) m = Option.bind (do_calls xs m) (do_calls ys)"
  by (induction xs arbitrary: m) (auto split: Option.bind_splits)

lemma do_call_append:
  assumes "later_call now due c" "\<forall>x\<in>set due. fst x \<le> now"
  shows "do_call c (m\<lparr>timer_map := due @ xs\<rparr>) =
    map_option (\<lambda>m'. m'\<lparr>timer_map := due @ timer_map m'\<rparr>) (do_call c (m\<lparr>timer_map := xs\<rparr>))"
proof (cases c)
  case (Call_Add t k p)
  then have "\<forall>x\<in>set due. fst x \<le> t" using assms by (auto simp: later_call_def)
  then show ?thesis using Call_Add
    by (simp add: AddTimerAt_def tm_insert_def Let_def mm_insert_append_right)
next
  case (Call_Stop tm)
  then have out: "id_node tm \<notin> set (nodes due)" using assms by (simp add: later_call_def)
  then have "node_elem (id_node tm) (due @ xs) = node_elem (id_node tm) xs"
    by (induction due) (auto simp: node_elem_def)
  moreover have "x \<notin> set due" if "node_elem (id_node tm) xs = Some x" for x
    using node_elem_Some [OF that] out in_nodes [of x due] by auto
  ultimately show ?thesis using Call_Stop
    by (auto simp: tm_StopTimer_def mm_erase_def remove1_append node_elem_Some split: Option.bind_splits)
qed

lemma do_calls_prefix:
  assumes "\<forall>c\<in>set cs. later_call now due c" "\<forall>x\<in>set due. fst x \<le> now"
  shows "do_calls cs (m\<lparr>timer_map := due @ xs\<rparr>) =
    map_option (\<lambda>m'. m'\<lparr>timer_map := due @ timer_map m'\<rparr>) (do_calls cs (m\<lparr>timer_map := xs\<rparr>))"
  using assms(1)
proof (induction cs arbitrary: m xs)
  case (Cons c cs)
  have c: "do_call c (m\<lparr>timer_map := due @ xs\<rparr>) =
    map_option (\<lambda>m'. m'\<lparr>timer_map := due @ timer_map m'\<rparr>) (do_call c (m\<lparr>timer_map := xs\<rparr>))"
    using do_call_append [OF _ assms(2), where c = c and m = m and xs = xs] Cons.prems by simp
  show ?case
  proof (cases "do_call c (m\<lparr>timer_map := xs\<rparr>)")
    case None
    then show ?thesis using c by simp
  next
    case (Some m')
    then show ?thesis using c Cons.IH [where m = m' and xs = "timer_map m'"] Cons.prems by simp
  qed
qed simp

text \<open>The calls keep the manager well formed and add nothing that is already expired.\<close>

lemma do_call_ok:
  assumes "tm_ok m" "do_call c m = Some m'"
  shows "tm_ok m'"
proof (cases c)
  case (Call_Add t k p)
  then show ?thesis using assms tm_ok_AddTimerAt by auto
next
  case (Call_Stop tm)
  then show ?thesis using assms tm_ok_StopTimer [OF assms(1)] by fastforce
qed

lemma do_calls_ok: "tm_ok m \<Longrightarrow> do_calls cs m = Some m' \<Longrightarrow> tm_ok m'"
  by (induction cs arbitrary: m) (auto intro: do_call_ok split: Option.bind_splits)

lemma do_call_future:
  assumes "later_call now due c" "do_call c m = Some m'" "\<forall>x\<in>set (timer_map m). now < fst x"
  shows "\<forall>x\<in>set (timer_map m'). now < fst x"
proof (cases c)
  case (Call_Add t k p)
  then show ?thesis using assms by (auto simp: later_call_def AddTimerAt_def tm_insert_def Let_def)
next
  case (Call_Stop tm)
  then show ?thesis using assms
    by (auto simp: tm_StopTimer_def mm_erase_def split: Option.bind_splits if_splits dest: set_remove1_subset [THEN subsetD])
qed

lemma do_calls_future:
  "\<forall>c\<in>set cs. later_call now due c \<Longrightarrow> do_calls cs m = Some m' \<Longrightarrow> \<forall>x\<in>set (timer_map m). now < fst x
   \<Longrightarrow> \<forall>x\<in>set (timer_map m'). now < fst x"
proof (induction cs arbitrary: m)
  case (Cons c cs)
  then obtain m1 where "do_call c m = Some m1" "do_calls cs m1 = Some m'"
    by (auto split: Option.bind_splits)
  with Cons show ?case using do_call_future by (metis list.set_intros(1,2))
qed simp

text \<open>The first node of a list, as an iterator.\<close>

definition first_node :: "(int, telem) mmap \<Rightarrow> nat option" where
  "first_node xs = (case xs of [] \<Rightarrow> None | y # _ \<Rightarrow> Some (e_node (snd y)))"

lemma node_succ_split:
  "e_node (snd x) \<notin> set (nodes us) \<Longrightarrow> node_succ (e_node (snd x)) (us @ x # vs) = Some (first_node vs)"
  by (induction us) (auto simp: first_node_def)

lemma node_elem_split:
  "e_node (snd x) \<notin> set (nodes us) \<Longrightarrow> node_elem (e_node (snd x)) (us @ x # vs) = Some x"
  unfolding node_elem_def by (induction us) auto

lemma erase_before_split:
  "set (nodes us) \<inter> set (nodes vs) = {} \<Longrightarrow> erase_before (first_node vs) (us @ vs) = Some vs"
proof (induction us)
  case Nil
  then show ?case by (cases vs) (auto simp: first_node_def)
next
  case (Cons u us)
  then show ?case by (cases vs) (auto simp: first_node_def)
qed

lemma wakeup_loop_ok:
  assumes "due = us @ ys" "\<forall>x\<in>set due. fst x \<le> now" "\<forall>x\<in>set (timer_map m). now < fst x"
    "tm_ok (m\<lparr>timer_map := due @ timer_map m\<rparr>)" "fire_all cb wake ys w = Some (w', cs)"
    "\<forall>c\<in>set cs. later_call now due c" "do_calls cs m = Some m'"
  shows "wakeup_loop cb wake now (first_node (ys @ timer_map m)) (m\<lparr>timer_map := due @ timer_map m\<rparr>) w
    = Some (first_node (timer_map m'), m'\<lparr>timer_map := due @ timer_map m'\<rparr>, w')"
  using assms
proof (induction ys arbitrary: us m w cs)
  case Nil
  have m': "m' = m" "w' = w" using Nil by auto
  have "distinct (nodes (due @ timer_map m))" using Nil by (simp add: tm_ok_def)
  then show ?case
  proof (cases "timer_map m")
    case Nil
    then show ?thesis using m' by (subst wakeup_loop.simps) (simp add: first_node_def)
  next
    case (Cons x xs)
    have "node_elem (e_node (snd x)) (due @ x # xs) = Some x"
      using \<open>distinct (nodes (due @ timer_map m))\<close> Cons by (intro node_elem_split) auto
    moreover have "now < fst x" using Nil.prems(3) Cons by simp
    ultimately show ?thesis using m' Cons by (subst wakeup_loop.simps) (simp add: first_node_def)
  qed
next
  case (Cons y ys)
  have dist: "distinct (nodes (due @ timer_map m))" using Cons.prems(4) by (simp add: tm_ok_def)
  have due: "due @ timer_map m = us @ y # (ys @ timer_map m)" using Cons.prems(1) by simp
  have out: "e_node (snd y) \<notin> set (nodes us)" using dist unfolding due by auto
  have el: "node_elem (e_node (snd y)) (due @ timer_map m) = Some y"
    unfolding due using out by (rule node_elem_split)
  have le: "fst y \<le> now" using Cons.prems(1,2) by simp
  obtain w1 c1 c2 where f: "fire cb wake (snd y) w = Some (w1, c1)"
    "fire_all cb wake ys w1 = Some (w', c2)" "cs = c1 @ c2"
    using Cons.prems(5) by (auto split: Option.bind_splits)
  obtain m1 where m1: "do_calls c1 m = Some m1" "do_calls c2 m1 = Some m'"
    using Cons.prems(7) f(3) by (auto simp: do_calls_append split: Option.bind_splits)
  have later: "\<forall>c\<in>set c1. later_call now due c" "\<forall>c\<in>set c2. later_call now due c"
    using Cons.prems(6) f(3) by auto
  have mm: "m\<lparr>timer_map := timer_map m\<rparr> = m" by simp
  have step: "do_calls c1 (m\<lparr>timer_map := due @ timer_map m\<rparr>) = Some (m1\<lparr>timer_map := due @ timer_map m1\<rparr>)"
    using do_calls_prefix [OF later(1) Cons.prems(2), where m = m and xs = "timer_map m"] m1(1) by (simp add: mm)
  have ok1: "tm_ok (m1\<lparr>timer_map := due @ timer_map m1\<rparr>)" using do_calls_ok [OF Cons.prems(4) step] .
  have fut1: "\<forall>x\<in>set (timer_map m1). now < fst x"
    using do_calls_future [OF later(1) m1(1) Cons.prems(3)] .
  have due1: "due @ timer_map m1 = us @ y # (ys @ timer_map m1)" using Cons.prems(1) by simp
  have succ: "node_succ (e_node (snd y)) (due @ timer_map m1) = Some (first_node (ys @ timer_map m1))"
    unfolding due1 using out by (rule node_succ_split)
  have eff: "(case e_type (snd y) of
        TimerTimeout \<Rightarrow> (let r = cb (e_cb (snd y)) (e_param (snd y)) w
          in map_option (\<lambda>m. (m, fst r)) (do_calls (snd r) (m\<lparr>timer_map := due @ timer_map m\<rparr>)))
      | TaskTimeout \<Rightarrow> Option.bind (e_task (snd y))
          (\<lambda>tk. map_option (Pair (m\<lparr>timer_map := due @ timer_map m\<rparr>)) (wake tk w)))
      = Some (m1\<lparr>timer_map := due @ timer_map m1\<rparr>, w1)"
    using f(1) step by (cases "e_type (snd y)") (auto simp: fire_def split: Option.bind_splits)
  have "wakeup_loop cb wake now (first_node ((y # ys) @ timer_map m)) (m\<lparr>timer_map := due @ timer_map m\<rparr>) w
      = wakeup_loop cb wake now (first_node (ys @ timer_map m1)) (m1\<lparr>timer_map := due @ timer_map m1\<rparr>) w1"
    using el le eff succ by (subst wakeup_loop.simps) (simp add: first_node_def)
  also have "\<dots> = Some (first_node (timer_map m'), m'\<lparr>timer_map := due @ timer_map m'\<rparr>, w')"
    by (rule Cons.IH [where us = "us @ [y]"]) (use Cons.prems(1,2) ok1 fut1 f(2) later(2) m1(2) in auto)
  finally show ?case .
qed

lemma WakeupTimers_ok:
  fixes now :: int
  assumes ok: "tm_ok m"
  defines "due \<equiv> takeWhile (\<lambda>x. fst x \<le> now) (timer_map m)"
    and "rest \<equiv> dropWhile (\<lambda>x. fst x \<le> now) (timer_map m)"
  assumes "fire_all cb wake due w = Some (w', cs)" "\<forall>c\<in>set cs. later_call now due c"
    "do_calls cs (m\<lparr>timer_map := rest\<rparr>) = Some m'"
  shows "WakeupTimers cb wake now m w = Some (m', w') \<and> tm_ok m' \<and> (\<forall>x\<in>set (timer_map m'). now < fst x)
    \<and> set (nodes due) \<inter> set (nodes (timer_map m')) = {}"
proof -
  let ?m = "m\<lparr>timer_map := rest\<rparr>"
  have map: "timer_map m = due @ rest" by (simp add: due_def rest_def)
  have le: "\<forall>x\<in>set due. fst x \<le> now" unfolding due_def by (auto dest: set_takeWhileD)
  have fut: "\<forall>x\<in>set rest. now < fst x"
  proof (cases rest)
    case (Cons r rs)
    then have "now < fst r" using hd_dropWhile [of "\<lambda>x. fst x \<le> now" "timer_map m"] by (force simp: rest_def)
    then show ?thesis using ok Cons map by (fastforce simp: tm_ok_def mm_sorted_append)
  qed simp
  have m: "?m\<lparr>timer_map := due @ timer_map ?m\<rparr> = m" using map by simp
  have ok': "tm_ok (?m\<lparr>timer_map := due @ timer_map ?m\<rparr>)" unfolding m by (rule ok)
  have loop: "wakeup_loop cb wake now (first_node (due @ timer_map ?m)) (?m\<lparr>timer_map := due @ timer_map ?m\<rparr>) w
    = Some (first_node (timer_map m'), m'\<lparr>timer_map := due @ timer_map m'\<rparr>, w')"
    by (rule wakeup_loop_ok [where us = "[]"]) (use le fut ok' assms(4-6) in auto)
  have "do_calls cs (?m\<lparr>timer_map := due @ timer_map ?m\<rparr>) = Some (m'\<lparr>timer_map := due @ timer_map m'\<rparr>)"
    using do_calls_prefix [OF assms(5) le, where m = ?m and xs = rest] assms(6) by simp
  then have okm: "tm_ok (m'\<lparr>timer_map := due @ timer_map m'\<rparr>)" using do_calls_ok ok' by blast
  then have disj: "set (nodes due) \<inter> set (nodes (timer_map m')) = {}" by (simp add: tm_ok_def)
  have okr: "tm_ok m'" using okm by (auto simp: tm_ok_def mm_sorted_append)
  have futr: "\<forall>x\<in>set (timer_map m'). now < fst x"
    using do_calls_future [OF assms(5,6)] fut by simp
  have "WakeupTimers cb wake now m w = Some (m', w')"
  proof (cases "timer_map m = []")
    case True
    then have "due = []" "rest = []" by (simp_all add: due_def rest_def)
    then show ?thesis using True assms(4,6) by (simp add: WakeupTimers_def) (metis True timer_manager.surjective
      timer_manager.update_convs(1) map append_Nil do_calls.simps(1) option.inject)
  next
    case False
    then have "first_node (due @ timer_map ?m) = Some (e_node (snd (hd (timer_map m))))"
      using map by (auto simp: first_node_def split: list.splits)
    then show ?thesis using loop m False erase_before_split [OF disj] by (simp add: WakeupTimers_def)
  qed
  then show ?thesis using okr futr disj by simp
qed

lemma tm_ok_empty_map: "timer_map m = [] \<Longrightarrow> tm_ok m"
  by (simp add: tm_ok_def)

section \<open>Properties\<close>

text \<open>
  C11: One call of \<open>WakeupTimers\<close> wakes every expired element exactly once, in the order of expiry
  (equal times in the order they were added), removes exactly these, and keeps every other
  one: the result is the same as if the expired elements had been taken out first, their
  sleeping tasks woken and callbacks run in order, and the calls that the callbacks made
  (new timers that expire after \<open>now\<close>, stopping of timers that are not among the expired) done
  on what remains. No iterator is used after its element is gone.
\<close>

theorem wakeup_timers_fires_expired_in_order:
  fixes now :: int
  assumes "tm_ok m"
    and "fire_all cb wake (takeWhile (\<lambda>x. fst x \<le> now) (timer_map m)) w = Some (w', cs)"
    and "\<forall>c\<in>set cs. later_call now (takeWhile (\<lambda>x. fst x \<le> now) (timer_map m)) c"
    and "do_calls cs (m\<lparr>timer_map := dropWhile (\<lambda>x. fst x \<le> now) (timer_map m)\<rparr>) = Some m'"
  shows "WakeupTimers cb wake now m w = Some (m', w') \<and> tm_ok m'
    \<and> (\<forall>x\<in>set (timer_map m'). now < fst x)"
  using WakeupTimers_ok [OF assms] by simp

definition demo_manager :: timer_manager where
  "demo_manager = AddSleeper 0 20 7 (snd (AddTimer 0 30 1 None (snd (AddTimer 0 10 0 None tm_new))))"

definition demo_cb :: "nat \<Rightarrow> ptr \<Rightarrow> nat list \<Rightarrow> nat list \<times> timer_call list" where
  "demo_cb k p w = (w @ [k], [Call_Add 90 2 None])"

definition demo_wake :: "addr \<Rightarrow> nat list \<Rightarrow> nat list option" where
  "demo_wake tk w = Some (w @ [tk])"

lemma demo_manager_ok: "tm_ok demo_manager"
  unfolding demo_manager_def AddTimer_def
  by (intro tm_ok_AddSleeper tm_ok_AddTimerAt tm_ok_new)

lemma wakeup_timers_fires_expired_in_order_witness:
  "\<exists>m'. WakeupTimers demo_cb demo_wake 25 demo_manager [] = Some (m', [0, 7])
     \<and> map fst (timer_map m') = [30, 90]"
proof -
  let ?m = "\<lparr>timer_map = [(30, \<lparr>e_type = TimerTimeout, e_cb = 1, e_task = None, e_param = None, e_node = 1\<rparr>),
      (90, \<lparr>e_type = TimerTimeout, e_cb = 2, e_task = None, e_param = None, e_node = 3\<rparr>)], next_node = 4\<rparr>"
  have "WakeupTimers demo_cb demo_wake 25 demo_manager [] = Some (?m, [0, 7]) \<and> tm_ok ?m
    \<and> (\<forall>x\<in>set (timer_map ?m). 25 < fst x)"
    by (rule wakeup_timers_fires_expired_in_order [OF demo_manager_ok, where cs = "[Call_Add 90 2 None]"])
      (simp_all add: demo_manager_def AddTimer_def AddTimerAt_def AddSleeper_def tm_insert_def tm_new_def
        Let_def fire_def demo_cb_def demo_wake_def later_call_def)
  then show ?thesis by auto
qed

text \<open>
  \<open>StopTimer\<close> on a pending timer reports success, removes exactly that timer and detaches the
  handle; the other timers and sleepers keep their order and the map stays well formed.
\<close>

theorem stop_pending_timer:
  assumes "tm_ok m" and "x \<in> set (timer_map m)" and "id_node tm = e_node (snd x)"
  shows "\<exists>tm' m'. tm_StopTimer tm m = Some (True, tm', m') \<and> t_processer tm' = None \<and> tm_ok m'
    \<and> timer_map m' = remove1 x (timer_map m) \<and> x \<notin> set (timer_map m')"
proof -
  have S: "tm_StopTimer tm m = Some (True, tm\<lparr>t_processer := None\<rparr>, m\<lparr>timer_map := remove1 x (timer_map m)\<rparr>)"
    using tm_StopTimer_pending [OF assms] .
  have "distinct (nodes (timer_map m))" using assms(1) by (simp add: tm_ok_def)
  then have "distinct (timer_map m)" by (auto simp: nodes_def distinct_map)
  then show ?thesis using S tm_ok_StopTimer [OF assms(1) S] by simp
qed

lemma stop_pending_timer_witness:
  "\<exists>tm' m'. tm_StopTimer \<lparr>id_node = 1, t_processer = Some 0\<rparr> demo_manager = Some (True, tm', m')
     \<and> t_processer tm' = None \<and> map fst (timer_map m') = [10, 20]"
proof -
  let ?x = "(30, \<lparr>e_type = TimerTimeout, e_cb = 1, e_task = None, e_param = None, e_node = 1\<rparr>)"
  have "?x \<in> set (timer_map demo_manager)"
    by (simp add: demo_manager_def AddTimer_def AddTimerAt_def AddSleeper_def tm_insert_def tm_new_def Let_def)
  from stop_pending_timer [OF demo_manager_ok this, of "\<lparr>id_node = 1, t_processer = Some 0\<rparr>"]
  show ?thesis
    by (auto simp: demo_manager_def AddTimer_def AddTimerAt_def AddSleeper_def tm_insert_def tm_new_def Let_def)
qed

text \<open>
  A timer that has fired cannot be stopped safely. After \<open>WakeupTimers\<close> the handle of every
  timer it fired still names its processer but no element of the map, so a later \<open>StopTimer\<close>
  erases an iterator that is no longer valid instead of reporting false, as the comment on
  \<open>StopTimer\<close> says it would.
\<close>

theorem stop_fired_timer_invalid_iterator:
  fixes now :: int
  assumes "tm_ok m" and "x \<in> set (takeWhile (\<lambda>x. fst x \<le> now) (timer_map m))"
    and "fire_all cb wake (takeWhile (\<lambda>x. fst x \<le> now) (timer_map m)) w = Some (w', [])"
    and "id_node tm = e_node (snd x)"
  shows "\<exists>m'. WakeupTimers cb wake now m w = Some (m', w') \<and> tm_StopTimer tm m' = None"
proof -
  let ?m = "m\<lparr>timer_map := dropWhile (\<lambda>x. fst x \<le> now) (timer_map m)\<rparr>"
  have W: "WakeupTimers cb wake now m w = Some (?m, w')"
    "set (nodes (takeWhile (\<lambda>x. fst x \<le> now) (timer_map m))) \<inter> set (nodes (timer_map ?m)) = {}"
    using WakeupTimers_ok [OF assms(1,3)] by simp_all
  have "id_node tm \<notin> set (nodes (timer_map ?m))" using W(2) in_nodes [OF assms(2)] assms(4) by auto
  then show ?thesis using W(1) tm_StopTimer_gone by blast
qed

lemma stop_fired_timer_invalid_iterator_witness:
  "\<exists>m'. WakeupTimers (\<lambda>k p w. (w, [])) demo_wake 15 demo_manager [] = Some (m', [])
     \<and> tm_StopTimer \<lparr>id_node = 0, t_processer = Some 0\<rparr> m' = None"
  by (rule stop_fired_timer_invalid_iterator [OF demo_manager_ok, where
        x = "(10, \<lparr>e_type = TimerTimeout, e_cb = 0, e_task = None, e_param = None, e_node = 0\<rparr>)"])
    (simp_all add: demo_manager_def AddTimer_def AddTimerAt_def AddSleeper_def tm_insert_def tm_new_def
      Let_def fire_def)

text \<open>
  The time a processer may sleep in its wait loop: 10 ms when there is no timer; otherwise
  never negative, never beyond the first expiry and short of it by less than a millisecond,
  as long as the first expiry is less than \<open>2 ^ 31\<close> ms away.
\<close>

theorem last_duration_bounds:
  assumes "timer_map m = x # xs" and "fst x - clock < 2 ^ 31 * 1000000" and "- (2 ^ 31 * 1000000) < fst x - clock"
  shows "0 \<le> GetLastDuration clock m
    \<and> GetLastDuration clock m * 1000000 \<le> max 0 (fst x - clock)
    \<and> fst x - clock < (GetLastDuration clock m + 1) * 1000000
    \<and> GetLastDuration clock (m\<lparr>timer_map := []\<rparr>) = 10"
proof -
  define d where "d = fst x - clock"
  have r: "- (2 ^ 31) \<le> ms_of_ns d" "ms_of_ns d < 2 ^ 31"
  proof -
    have k: "e div 1000000 * 1000000 \<le> e \<and> e < (e div 1000000 + 1) * 1000000" for e :: int
    proof -
      have "0 \<le> e mod 1000000" "e mod 1000000 < 1000000" by simp_all
      then show ?thesis using div_mult_mod_eq [of e 1000000] by (auto simp: algebra_simps)
    qed
    have "d < 2147483648 * 1000000" "- d < 2147483648 * 1000000" using assms(2,3) by (simp_all add: d_def)
    then have "- 2147483648 \<le> ms_of_ns d \<and> ms_of_ns d < 2147483648"
      using k [of d] k [of "- d"] unfolding ms_of_ns_def by (cases "d < 0") (simp_all only: if_True if_False; linarith)+
    then show "- (2 ^ 31) \<le> ms_of_ns d" "ms_of_ns d < 2 ^ 31" by simp_all
  qed
  then have "to_int32 (ms_of_ns d) = ms_of_ns d" by (rule to_int32_small)
  then have "GetLastDuration clock m = (if ms_of_ns d \<le> 0 then 0 else ms_of_ns d)"
    using assms(1) by (simp add: GetLastDuration_def d_def Let_def)
  then show ?thesis
    using div_mult_mod_eq [of d 1000000] pos_mod_bound [of 1000000 d] pos_mod_sign [of 1000000 d]
    by (simp add: d_def [symmetric] GetLastDuration_def MIN_WAITE_TIME_def) (auto simp: ms_of_ns_def max_def split: if_splits)
qed

lemma last_duration_bounds_witness: "0 \<le> GetLastDuration 3 demo_manager \<and> GetLastDuration 3 demo_manager * 1000000 \<le> 7"
proof -
  obtain x xs where x: "timer_map demo_manager = x # xs" "fst x = 10"
    by (simp add: demo_manager_def AddTimer_def AddTimerAt_def AddSleeper_def tm_insert_def tm_new_def Let_def)
  from last_duration_bounds [OF x(1), of 3] x(2) show ?thesis by simp
qed

text \<open>
  Beyond \<open>2 ^ 31\<close> ms (24.8 days) the narrowing to \<open>int\<close> loses the wait: with the first timer
  exactly \<open>2 ^ 31\<close> ms away the processer does not sleep at all but polls.
\<close>

theorem last_duration_overflow:
  "GetLastDuration 0 (snd (AddTimer 0 (2 ^ 31 * 1000000) cb p tm_new)) = 0"
  by (simp add: GetLastDuration_def AddTimer_def AddTimerAt_def tm_insert_def tm_new_def Let_def
      ms_of_ns_def to_int32_def)

end
