(* ===== verification/Hook_Heap.thy ===== *)
theory Hook_Heap
  imports Prelude
begin

text \<open>
  The store of intrusive list hooks (\<open>TSQueueHook\<close> of \<open>common/ts_queue.h\<close>): every task carries
  a \<open>prev\<close>, a \<open>next\<close> and a \<open>check_\<close> pointer, and the queues link the tasks themselves. The
  theory holds the store, its reads and writes, \<open>link\<close> and \<open>unlink\<close>, and the facts about
  doubly linked segments (\<open>seg\<close>) that the queue theories are proved with.
\<close>

section \<open>Hooks and the store\<close>

record hook =
  hprev :: ptr
  hnext :: ptr
  hcheck :: ptr

type_synonym heap = "addr \<rightharpoonup> hook"

definition new_hook :: hook where
  "new_hook = \<lparr>hprev = None, hnext = None, hcheck = None\<rparr>"

text \<open>Reading through a pointer and writing one field; a null or dead pointer has no result.\<close>

definition deref :: "heap \<Rightarrow> ptr \<Rightarrow> hook option" where
  "deref h p = Option.bind p h"

definition set_prev :: "addr \<Rightarrow> ptr \<Rightarrow> heap \<Rightarrow> heap option" where
  "set_prev p v h = map_option (\<lambda>k. h(p \<mapsto> k\<lparr>hprev := v\<rparr>)) (h p)"

definition set_next :: "addr \<Rightarrow> ptr \<Rightarrow> heap \<Rightarrow> heap option" where
  "set_next p v h = map_option (\<lambda>k. h(p \<mapsto> k\<lparr>hnext := v\<rparr>)) (h p)"

definition set_check :: "addr \<Rightarrow> ptr \<Rightarrow> heap \<Rightarrow> heap option" where
  "set_check p v h = map_option (\<lambda>k. h(p \<mapsto> k\<lparr>hcheck := v\<rparr>)) (h p)"

lemmas set_field_defs = set_prev_def set_next_def set_check_def

lemma deref_simps [simp]: "deref h None = None" "deref h (Some p) = h p"
  by (simp_all add: deref_def)

lemma set_field_Some [simp]:
  "h p = Some k \<Longrightarrow> set_prev p v h = Some (h(p \<mapsto> k\<lparr>hprev := v\<rparr>))"
  "h p = Some k \<Longrightarrow> set_next p v h = Some (h(p \<mapsto> k\<lparr>hnext := v\<rparr>))"
  "h p = Some k \<Longrightarrow> set_check p v h = Some (h(p \<mapsto> k\<lparr>hcheck := v\<rparr>))"
  by (simp_all add: set_field_defs)

section \<open>link and unlink\<close>

definition link :: "addr \<Rightarrow> addr \<Rightarrow> heap \<Rightarrow> heap option" where
  "link this theNext h = do {
     a \<leftarrow> h this;
     assert_c (hnext a = None);
     b \<leftarrow> h theNext;
     assert_c (hprev b = None);
     h \<leftarrow> set_next this (Some theNext) h;
     set_prev theNext (Some this) h }"

definition unlink :: "addr \<Rightarrow> addr \<Rightarrow> heap \<Rightarrow> heap option" where
  "unlink this theNext h = do {
     a \<leftarrow> h this;
     assert_c (hnext a = Some theNext);
     b \<leftarrow> h theNext;
     assert_c (hprev b = Some this);
     h \<leftarrow> set_next this None h;
     set_prev theNext None h }"

lemma link_Some:
  assumes "h a = Some ka" "hnext ka = None" "h b = Some kb" "hprev kb = None" "a \<noteq> b"
  shows "link a b h = Some (h(a \<mapsto> ka\<lparr>hnext := Some b\<rparr>, b \<mapsto> kb\<lparr>hprev := Some a\<rparr>))"
  using assms by (simp add: link_def)

lemma unlink_Some:
  assumes "h a = Some ka" "hnext ka = Some b" "h b = Some kb" "hprev kb = Some a" "a \<noteq> b"
  shows "unlink a b h = Some (h(a \<mapsto> ka\<lparr>hnext := None\<rparr>, b \<mapsto> kb\<lparr>hprev := None\<rparr>))"
  using assms by (simp add: unlink_def)

section \<open>Doubly linked segments\<close>

text \<open>
  \<open>linked h x p n\<close>: the hook at \<open>x\<close> is alive with these neighbours. \<open>seg h p xs n\<close>: the
  addresses \<open>xs\<close> are linked in this order, the first one's \<open>prev\<close> is \<open>p\<close> and the last one's
  \<open>next\<close> is \<open>n\<close>.
\<close>

definition linked :: "heap \<Rightarrow> addr \<Rightarrow> ptr \<Rightarrow> ptr \<Rightarrow> bool" where
  "linked h x p n \<longleftrightarrow> (case h x of None \<Rightarrow> False | Some k \<Rightarrow> hprev k = p \<and> hnext k = n)"

lemma linkedE:
  assumes "linked h x p n"
  obtains k where "h x = Some k" "hprev k = p" "hnext k = n"
  using assms by (auto simp: linked_def split: option.splits)

lemma linked_dom: "linked h x p n \<Longrightarrow> x \<in> dom h"
  by (auto elim: linkedE)

lemma linked_upd [simp]:
  "linked (h(a \<mapsto> k)) x p n = (if x = a then hprev k = p \<and> hnext k = n else linked h x p n)"
  by (simp add: linked_def)

lemma linked_del [simp]: "linked (h(a := None)) x p n = (x \<noteq> a \<and> linked h x p n)"
  by (simp add: linked_def)

lemma linked_cong: "h' x = h x \<Longrightarrow> linked h' x p n = linked h x p n"
  by (simp add: linked_def)

primrec seg :: "heap \<Rightarrow> ptr \<Rightarrow> addr list \<Rightarrow> ptr \<Rightarrow> bool" where
  "seg h p [] n \<longleftrightarrow> True"
| "seg h p (x # xs) n \<longleftrightarrow> linked h x p (first_or n xs) \<and> seg h (Some x) xs n"

lemma seg_append:
  "seg h p (xs @ ys) n \<longleftrightarrow> seg h p xs (first_or n ys) \<and> seg h (last_or p xs) ys n"
  by (induction xs arbitrary: p) auto

lemma seg_dom: "seg h p xs n \<Longrightarrow> set xs \<subseteq> dom h"
  by (induction xs arbitrary: p) (auto dest: linked_dom)

lemma seg_frame:
  "seg h p xs n \<Longrightarrow> (\<And>x. x \<in> set xs \<Longrightarrow> h' x = h x) \<Longrightarrow> seg h' p xs n"
  by (induction xs arbitrary: p) (auto simp: linked_def)

lemma seg_upd_other [simp]: "a \<notin> set xs \<Longrightarrow> seg (h(a \<mapsto> k)) p xs n = seg h p xs n"
  by (induction xs arbitrary: p) auto

lemma seg_del_other [simp]: "a \<notin> set xs \<Longrightarrow> seg (h(a := None)) p xs n = seg h p xs n"
  by (induction xs arbitrary: p) auto

text \<open>A segment whose members keep their links (only \<open>check_\<close> may change) stays one.\<close>

lemma linked_set_check:
  "h a = Some k \<Longrightarrow> linked (h(a \<mapsto> k\<lparr>hcheck := c\<rparr>)) x p n = linked h x p n"
  by (auto simp: linked_def)

lemma seg_set_check:
  "h a = Some k \<Longrightarrow> seg (h(a \<mapsto> k\<lparr>hcheck := c\<rparr>)) p xs n = seg h p xs n"
  by (induction xs arbitrary: p) (auto simp: linked_set_check simp del: linked_upd)

lemma seg_last: "seg h p xs n \<Longrightarrow> xs \<noteq> [] \<Longrightarrow> linked h (last xs) (last_or p (butlast xs)) n"
  by (cases xs rule: rev_cases) (auto simp: seg_append)

lemma seg_at:
  "seg h p (xs @ x # ys) n \<Longrightarrow> linked h x (last_or p xs) (first_or n ys)"
  by (simp add: seg_append)

text \<open>
  Removing one member, joining two segments and splitting one: the hooks at the seam change,
  the others do not. The lemmas speak about any later store \<open>h'\<close>.
\<close>

lemma seg_remove:
  assumes "seg h p (us @ x # vs) n" "distinct (us @ x # vs)"
    and "us \<noteq> [] \<Longrightarrow> linked h' (last us) (last_or p (butlast us)) (first_or n vs)"
    and "vs \<noteq> [] \<Longrightarrow> linked h' (hd vs) (last_or p us) (first_or n (tl vs))"
    and "\<And>a. a \<noteq> x \<Longrightarrow> Some a \<noteq> last_or None us \<Longrightarrow> Some a \<noteq> first_or None vs \<Longrightarrow> h' a = h a"
  shows "seg h' p (us @ vs) n"
proof -
  have "seg h' p us (first_or n vs)"
  proof (cases us rule: rev_cases)
    case (snoc us' y)
    have "seg h' p us' (Some y)"
      by (rule seg_frame [of h]) (use assms(1,2) snoc in \<open>auto simp: seg_append intro!: assms(5)
        simp: first_or_Some_iff dest!: sym [of "Some _"]\<close>)
    with snoc assms(3) show ?thesis by (simp add: seg_append)
  qed simp
  moreover have "seg h' (last_or p us) vs n"
  proof (cases vs)
    case (Cons z zs)
    have "seg h' (Some z) zs n"
      by (rule seg_frame [of h]) (use assms(1,2) Cons in \<open>auto simp: seg_append last_or_def
        intro!: assms(5) split: if_splits dest: last_in_set\<close>)
    with Cons assms(4) show ?thesis by simp
  qed simp
  ultimately show ?thesis by (simp add: seg_append)
qed

lemma seg_join:
  assumes "seg h p (us @ [a]) m" "seg h q (b # vs) n" "distinct (us @ a # b # vs)"
    and "linked h' a (last_or p us) (Some b)" "linked h' b (Some a) (first_or n vs)"
    and "\<And>c. c \<noteq> a \<Longrightarrow> c \<noteq> b \<Longrightarrow> h' c = h c"
  shows "seg h' p (us @ a # b # vs) n"
proof -
  have "seg h' p us (Some a)"
    by (rule seg_frame [of h]) (use assms(1-5) in \<open>auto simp: seg_append intro!: assms(6)\<close>)
  moreover have "seg h' (Some b) vs n"
    by (rule seg_frame [of h]) (use assms(2,3) in \<open>auto intro!: assms(6)\<close>)
  ultimately show ?thesis using assms(4,5) by (simp add: seg_append)
qed

lemma seg_split:
  assumes "seg h p (us @ a # b # vs) n" "distinct (us @ a # b # vs)"
    and "linked h' a (last_or p us) m" "linked h' b q (first_or n vs)"
    and "\<And>c. c \<noteq> a \<Longrightarrow> c \<noteq> b \<Longrightarrow> h' c = h c"
  shows "seg h' p (us @ [a]) m" and "seg h' q (b # vs) n"
proof -
  have "seg h' p us (Some a)"
    by (rule seg_frame [of h]) (use assms(1-4) in \<open>auto simp: seg_append intro!: assms(5)\<close>)
  then show "seg h' p (us @ [a]) m" using assms(3) by (simp add: seg_append)
  have "seg h' (Some b) vs n"
    by (rule seg_frame [of h]) (use assms(1-4) in \<open>auto simp: seg_append intro!: assms(5)\<close>)
  then show "seg h' q (b # vs) n" using assms(4) by simp
qed

lemma seg_extract:
  assumes sg: "seg h p (us @ bs @ vs) n" and dist: "distinct (us @ bs @ vs)"
    and ne: "us \<noteq> []" "bs \<noteq> []"
    and us: "linked h' (last us) (last_or p (butlast us)) (first_or n vs)"
    and vs: "vs \<noteq> [] \<Longrightarrow> linked h' (hd vs) (Some (last us)) (first_or n (tl vs))"
    and b1: "linked h' (hd bs) None (first_or None (tl bs))"
    and b2: "linked h' (last bs) (last_or None (butlast bs)) None"
    and frame: "\<And>a. a \<noteq> last us \<Longrightarrow> a \<noteq> hd bs \<Longrightarrow> a \<noteq> last bs \<Longrightarrow> first_or None vs \<noteq> Some a
      \<Longrightarrow> h' a = h a"
  shows "seg h' p (us @ vs) n" and "seg h' None bs None"
proof -
  have out: "hd bs \<notin> set us" "hd bs \<notin> set vs" "last bs \<notin> set us" "last bs \<notin> set vs"
    using dist hd_in_set [OF ne(2)] last_in_set [OF ne(2)] by auto
  obtain us' u where us': "us = us' @ [u]" using ne(1) by (cases us rule: rev_cases) auto
  have "seg h' p us' (Some u)"
    by (rule seg_frame [of h]) (use sg dist ne out us' in \<open>auto simp: seg_append first_or_Some_iff intro!: frame\<close>)
  then have "seg h' p us (first_or n vs)" using us us' by (simp add: seg_append)
  moreover have "seg h' (Some u) vs n"
  proof (cases vs)
    case (Cons z zs)
    have "seg h' (Some z) zs n"
      by (rule seg_frame [of h]) (use sg dist ne out us' Cons in \<open>auto simp: seg_append intro!: frame\<close>)
    with Cons vs us' show ?thesis by simp
  qed simp
  ultimately show "seg h' p (us @ vs) n" using us' by (simp add: seg_append)
  show "seg h' None bs None"
  proof (cases bs)
    case (Cons b bs')
    show ?thesis
    proof (cases bs' rule: rev_cases)
      case Nil
      with Cons b1 show ?thesis by simp
    next
      case (snoc ms e)
      have "seg h' (Some b) ms (Some e)"
        by (rule seg_frame [of h])
          (use sg dist us' Cons snoc in \<open>auto simp: seg_append first_or_Some_iff intro!: frame\<close>)
      with Cons snoc b1 b2 show ?thesis by (simp add: seg_append)
    qed
  qed (use ne in simp)
qed

section \<open>Frames\<close>

text \<open>\<open>only_changes A h h'\<close>: the step from \<open>h\<close> to \<open>h'\<close> writes hooks of \<open>A\<close> and frees none.\<close>

definition only_changes :: "addr set \<Rightarrow> heap \<Rightarrow> heap \<Rightarrow> bool" where
  "only_changes A h h' \<longleftrightarrow> dom h' = dom h \<and> (\<forall>p. p \<notin> A \<longrightarrow> h' p = h p)"

lemma only_changes_refl [simp]: "only_changes A h h"
  by (simp add: only_changes_def)

lemma only_changes_trans:
  "only_changes A h h1 \<Longrightarrow> only_changes B h1 h2 \<Longrightarrow> only_changes (A \<union> B) h h2"
  by (simp add: only_changes_def)

lemma only_changes_mono: "only_changes A h h' \<Longrightarrow> A \<subseteq> B \<Longrightarrow> only_changes B h h'"
  by (auto simp: only_changes_def)

lemma only_changes_dom: "only_changes A h h' \<Longrightarrow> dom h' = dom h"
  by (simp add: only_changes_def)

lemma only_changes_at: "only_changes A h h' \<Longrightarrow> p \<notin> A \<Longrightarrow> h' p = h p"
  by (simp add: only_changes_def)

lemma seg_only_changes:
  "seg h p xs n \<Longrightarrow> only_changes A h h' \<Longrightarrow> A \<inter> set xs = {} \<Longrightarrow> seg h' p xs n"
  by (erule seg_frame) (auto simp: only_changes_def)

text \<open>A hook that is in no queue: both links null.\<close>

definition unlinked :: "heap \<Rightarrow> addr \<Rightarrow> bool" where
  "unlinked h x \<longleftrightarrow> (case h x of None \<Rightarrow> False | Some k \<Rightarrow> hprev k = None \<and> hnext k = None)"

lemma unlinkedE:
  assumes "unlinked h x"
  obtains k where "h x = Some k" "hprev k = None" "hnext k = None"
  using assms by (auto simp: unlinked_def split: option.splits)

lemma unlinked_only_changes:
  "unlinked h x \<Longrightarrow> only_changes A h h' \<Longrightarrow> x \<notin> A \<Longrightarrow> unlinked h' x"
  by (simp add: unlinked_def only_changes_def)

text \<open>
  The store holds fewer than \<open>2 ^ 64\<close> hooks, so that a count of distinct hooks fits into
  \<open>size_t\<close>: every hook has its own address in a 64 bit address space and null is not one.
\<close>

definition small_heap :: "heap \<Rightarrow> bool" where
  "small_heap h \<longleftrightarrow> finite (dom h) \<and> card (dom h) < 2 ^ 64"

lemma small_heap_length:
  assumes "small_heap h" "distinct xs" "set xs \<subseteq> dom h"
  shows "length xs < 2 ^ 64"
proof -
  have "length xs = card (set xs)" using assms(2) by (simp add: distinct_card)
  also have "\<dots> \<le> card (dom h)" using assms(1,3) by (simp add: small_heap_def card_mono)
  also have "\<dots> < 2 ^ 64" using assms(1) by (simp add: small_heap_def)
  finally show ?thesis .
qed

lemma small_heap_only_changes: "small_heap h \<Longrightarrow> only_changes A h h' \<Longrightarrow> small_heap h'"
  by (simp add: small_heap_def only_changes_def)

end
