(* ===== verification/Slist.thy ===== *)
theory Slist
  imports Hook_Heap
begin

text \<open>
  \<open>SList\<close> of \<open>common/ts_queue.h\<close>: the movable intrusive list that carries a batch of tasks from
  one queue to another. State: the two end pointers and the count (\<open>size_t\<close>). A move leaves
  its source empty (\<open>stealed\<close>), so an operation that takes an rvalue returns that list too.
  \<open>slist_ok h l xs\<close> says that \<open>l\<close> represents the sequence \<open>xs\<close> in the store \<open>h\<close>; each operation
  has one lemma that gives its result and its effect on the represented sequences.
\<close>

section \<open>The list and its iterator\<close>

record slist =
  shead :: ptr
  stail :: ptr
  scount :: size_t

definition slist_new :: slist where
  "slist_new = \<lparr>shead = None, stail = None, scount = 0\<rparr>"

definition slist_of :: "ptr \<Rightarrow> ptr \<Rightarrow> size_t \<Rightarrow> slist" where
  "slist_of h t c = \<lparr>shead = h, stail = t, scount = c\<rparr>"

definition stealed :: "slist \<Rightarrow> slist" where
  "stealed l = l\<lparr>shead := None, stail := None, scount := 0\<rparr>"

definition slist_empty :: "slist \<Rightarrow> bool" where
  "slist_empty l \<longleftrightarrow> shead l = None"

definition slist_size :: "slist \<Rightarrow> size_t" where
  "slist_size l = scount l"

text \<open>Move construction: the new list and what is left of the source.\<close>

definition slist_move :: "slist \<Rightarrow> slist \<times> slist" where
  "slist_move other = (\<lparr>shead = shead other, stail = stail other, scount = scount other\<rparr>, stealed other)"

record iterator =
  it_ptr :: ptr
  it_prev :: ptr
  it_next :: ptr

definition slist_end :: iterator where
  "slist_end = \<lparr>it_ptr = None, it_prev = None, it_next = None\<rparr>"

definition it_reset :: "ptr \<Rightarrow> heap \<Rightarrow> iterator option" where
  "it_reset p h =
     (case p of
        None \<Rightarrow> Some \<lparr>it_ptr = None, it_prev = None, it_next = None\<rparr>
      | Some a \<Rightarrow> map_option (\<lambda>k. \<lparr>it_ptr = p, it_prev = hprev k, it_next = hnext k\<rparr>) (h a))"

definition it_eq :: "iterator \<Rightarrow> iterator \<Rightarrow> bool" where
  "it_eq a b \<longleftrightarrow> it_ptr a = it_ptr b"

definition it_incr :: "iterator \<Rightarrow> heap \<Rightarrow> iterator option" where
  "it_incr it h = it_reset (it_next it) h"

definition it_decr :: "iterator \<Rightarrow> heap \<Rightarrow> iterator option" where
  "it_decr it h = it_reset (it_prev it) h"

definition slist_begin :: "slist \<Rightarrow> heap \<Rightarrow> iterator option" where
  "slist_begin l h = it_reset (shead l) h"

section \<open>Removal\<close>

text \<open>\<open>erase(T* ptr)\<close> unlinks the element and frees it.\<close>

definition slist_erase :: "addr \<Rightarrow> slist \<Rightarrow> heap \<Rightarrow> (slist \<times> heap) option" where
  "slist_erase x l h = do {
     k \<leftarrow> h x;
     (l, h) \<leftarrow> (case hprev k of
          Some p \<Rightarrow> do { h \<leftarrow> set_next p (hnext k) h; Some (l, h) }
        | None \<Rightarrow> do { a \<leftarrow> deref h (shead l); Some (l\<lparr>shead := hnext a\<rparr>, h) });
     k \<leftarrow> h x;
     (l, h) \<leftarrow> (case hnext k of
          Some n \<Rightarrow> do { h \<leftarrow> set_prev n (hprev k) h; Some (l, h) }
        | None \<Rightarrow> do { a \<leftarrow> deref h (stail l); Some (l\<lparr>stail := hprev a\<rparr>, h) });
     h \<leftarrow> set_next x None h;
     h \<leftarrow> set_prev x None h;
     Some (l\<lparr>scount := scount l - 1\<rparr>, h(x := None)) }"

definition slist_erase_checked :: "addr \<Rightarrow> ptr \<Rightarrow> slist \<Rightarrow> heap \<Rightarrow> (bool \<times> slist \<times> heap) option" where
  "slist_erase_checked x c l h = do {
     k \<leftarrow> h x;
     if hcheck k \<noteq> c then Some (False, l, h)
     else do { (l, h) \<leftarrow> slist_erase x l h; Some (True, l, h) } }"

text \<open>\<open>erase(iterator)\<close> steps the iterator before the element is freed.\<close>

definition slist_erase_it :: "iterator \<Rightarrow> slist \<Rightarrow> heap \<Rightarrow> (iterator \<times> slist \<times> heap) option" where
  "slist_erase_it it l h = do {
     it' \<leftarrow> it_incr it h;
     x \<leftarrow> it_ptr it;
     (l, h) \<leftarrow> slist_erase x l h;
     Some (it', l, h) }"

partial_function (option) clear_loop :: "iterator \<Rightarrow> slist \<Rightarrow> heap \<Rightarrow> (slist \<times> heap) option" where
  "clear_loop it l h =
     (if it_eq it slist_end then Some (l, h)
      else Option.bind (slist_erase_it it l h) (\<lambda>r. clear_loop (fst r) (fst (snd r)) (snd (snd r))))"

definition slist_clear :: "slist \<Rightarrow> heap \<Rightarrow> (slist \<times> heap) option" where
  "slist_clear l h = do {
     it \<leftarrow> slist_begin l h;
     (l, h) \<leftarrow> clear_loop it l h;
     Some (stealed l, h) }"

text \<open>Move assignment frees what the target held.\<close>

definition slist_move_assign :: "slist \<Rightarrow> slist \<Rightarrow> heap \<Rightarrow> (slist \<times> slist \<times> heap) option" where
  "slist_move_assign this other h = do {
     (this, h) \<leftarrow> slist_clear this h;
     Some (this\<lparr>shead := shead other, stail := stail other, scount := scount other\<rparr>, stealed other, h) }"

section \<open>append and cut\<close>

definition slist_append :: "slist \<Rightarrow> slist \<Rightarrow> heap \<Rightarrow> (slist \<times> slist \<times> heap) option" where
  "slist_append this other h =
     (if slist_empty other then Some (this, other, h)
      else if slist_empty this then slist_move_assign this other h
      else do {
        t \<leftarrow> stail this;
        o1 \<leftarrow> shead other;
        h \<leftarrow> link t o1 h;
        Some (this\<lparr>stail := stail other, scount := scount this + scount other\<rparr>, stealed other, h) })"

text \<open>The loop \<open>for (i = 1; i < n; ++i) pos = pos->next\<close>.\<close>

function cut_walk :: "size_t \<Rightarrow> size_t \<Rightarrow> ptr \<Rightarrow> heap \<Rightarrow> ptr option" where
  "cut_walk i n pos h =
     (if i < n then Option.bind (deref h pos) (\<lambda>k. cut_walk (i + 1) n (hnext k) h) else Some pos)"
  by pat_completeness auto
termination
  by (relation "measure (\<lambda>(i, n, pos, h). unat n - unat i)") (auto simp: word_less_measure)

declare cut_walk.simps [simp del]

text \<open>\<open>cut\<close> returns the first \<open>n\<close> elements as a list of their own and keeps the rest.\<close>

definition slist_cut :: "size_t \<Rightarrow> slist \<Rightarrow> heap \<Rightarrow> (slist \<times> slist \<times> heap) option" where
  "slist_cut n this h =
     (if slist_empty this then Some (slist_new, this, h)
      else if n \<ge> slist_size this then (let (o1, this') = slist_move this in Some (o1, this', h))
      else if n = 0 then Some (slist_new, this, h)
      else do {
        pos \<leftarrow> cut_walk 1 n (shead this) h;
        p \<leftarrow> pos;
        k \<leftarrow> h p;
        let o1 = slist_new\<lparr>shead := shead this, stail := pos, scount := n\<rparr>;
        let this' = this\<lparr>scount := scount this - n, shead := hnext k\<rparr>;
        q \<leftarrow> shead this';
        h \<leftarrow> unlink p q h;
        Some (o1, this', h) })"

section \<open>What a list represents\<close>

definition slist_ok :: "heap \<Rightarrow> slist \<Rightarrow> addr list \<Rightarrow> bool" where
  "slist_ok h l xs \<longleftrightarrow>
     seg h None xs None \<and> distinct xs \<and> shead l = first_or None xs \<and> stail l = last_or None xs
     \<and> scount l = of_nat (length xs)"

lemma slist_ok_new [simp]: "slist_ok h slist_new []"
  by (simp add: slist_ok_def slist_new_def)

lemma slist_ok_stealed [simp]: "slist_ok h (stealed l) []"
  by (simp add: slist_ok_def stealed_def)

lemma slist_ok_empty: "slist_ok h l xs \<Longrightarrow> slist_empty l \<longleftrightarrow> xs = []"
  by (simp add: slist_ok_def slist_empty_def)

lemma slist_ok_dom: "slist_ok h l xs \<Longrightarrow> set xs \<subseteq> dom h"
  by (auto simp: slist_ok_def dest: seg_dom)

lemma slist_ok_length: "slist_ok h l xs \<Longrightarrow> small_heap h \<Longrightarrow> length xs < 2 ^ 64"
  by (rule small_heap_length [where h = h]) (auto simp: slist_ok_def dest: seg_dom)

lemma slist_ok_size: "slist_ok h l xs \<Longrightarrow> small_heap h \<Longrightarrow> unat (slist_size l) = length xs"
  by (frule slist_ok_length, assumption) (simp add: slist_ok_def slist_size_def unat_of_nat_64)

lemma slist_ok_only_changes:
  "slist_ok h l xs \<Longrightarrow> only_changes A h h' \<Longrightarrow> A \<inter> set xs = {} \<Longrightarrow> slist_ok h' l xs"
  by (auto simp: slist_ok_def elim: seg_only_changes)

lemma slist_move_ok:
  "slist_ok h l xs \<Longrightarrow> slist_move l = (l1, l2) \<Longrightarrow> slist_ok h l1 xs \<and> slist_ok h l2 []"
  by (auto simp: slist_move_def slist_ok_def stealed_def)

section \<open>What the operations do to it\<close>

lemma slist_clear_empty:
  "slist_ok h l [] \<Longrightarrow> slist_clear l h = Some (stealed l, h)"
  by (simp add: slist_clear_def slist_begin_def slist_ok_def it_reset_def clear_loop.simps
      it_eq_def slist_end_def)

lemma slist_move_assign_empty:
  assumes "slist_ok h a []"
  shows "\<exists>a'. slist_move_assign a b h = Some (a', stealed b, h)
    \<and> shead a' = shead b \<and> stail a' = stail b \<and> scount a' = scount b"
  using slist_clear_empty [OF assms] by (simp add: slist_move_assign_def)

text \<open>\<open>append\<close> concatenates and leaves the source empty.\<close>

lemma slist_append_ok:
  assumes "slist_ok h a xs" "slist_ok h b ys" "set xs \<inter> set ys = {}"
  shows "\<exists>a' b' h'. slist_append a b h = Some (a', b', h') \<and> slist_ok h' a' (xs @ ys)
    \<and> slist_ok h' b' [] \<and> only_changes (set xs \<union> set ys) h h'"
proof (cases "ys = []")
  case True
  with assms show ?thesis by (simp add: slist_append_def slist_ok_empty)
next
  case False
  then obtain y ys' where ys: "ys = y # ys'" by (cases ys) auto
  show ?thesis
  proof (cases xs rule: rev_cases)
    case Nil
    obtain a' where "slist_move_assign a b h = Some (a', stealed b, h)"
      "shead a' = shead b" "stail a' = stail b" "scount a' = scount b"
      using slist_move_assign_empty assms(1) Nil by blast
    with Nil ys assms show ?thesis
      by (auto simp: slist_append_def slist_empty_def slist_ok_def stealed_def)
  next
    case (snoc us x)
    have segs: "seg h None (us @ [x]) None" "seg h None (y # ys') None"
      using assms snoc ys by (auto simp: slist_ok_def)
    have dist: "distinct (us @ x # y # ys')"
      using assms snoc ys by (auto simp: slist_ok_def)
    obtain k where k: "h x = Some k" "hprev k = last_or None us" "hnext k = None"
      using segs(1) by (auto simp: seg_append elim: linkedE)
    obtain m where m: "h y = Some m" "hprev m = None" "hnext m = first_or None ys'"
      using segs(2) by (auto elim: linkedE)
    define h' where "h' = h(x \<mapsto> k\<lparr>hnext := Some y\<rparr>, y \<mapsto> m\<lparr>hprev := Some x\<rparr>)"
    have "link x y h = Some h'"
      using k m dist unfolding h'_def by (intro link_Some) auto
    moreover have "seg h' None (us @ x # y # ys') None"
      by (rule seg_join [OF segs dist]) (use k m dist in \<open>auto simp: h'_def\<close>)
    moreover have "only_changes (set xs \<union> set ys) h h'"
      using k m snoc ys by (auto simp: only_changes_def h'_def)
    ultimately show ?thesis
      using assms snoc ys dist
      by (auto simp: slist_append_def slist_empty_def slist_ok_def stealed_def)
  qed
qed

lemma cut_walk_drop:
  assumes "i \<le> n" "unat n - unat i < length ys" "seg h p ys None"
  shows "cut_walk i n (first_or None ys) h = Some (first_or None (drop (unat n - unat i) ys))"
  using assms
proof (induction i n "first_or None ys" h arbitrary: ys p rule: cut_walk.induct)
  case (1 i n h)
  show ?case
  proof (cases "i < n")
    case False
    with "1.prems" show ?thesis by (simp add: cut_walk.simps)
  next
    case True
    obtain z zs where ys: "ys = z # zs" using "1.prems"(2) by (cases ys) auto
    obtain k where k: "h z = Some k" "hnext k = first_or None zs"
      using "1.prems"(3) ys by (auto elim: linkedE)
    have step: "unat n - unat i = Suc (unat n - unat (i + 1))"
      using True word_Suc_unat [OF True] by (simp add: word_less_nat_alt)
    have "i + 1 \<le> n" using True by (simp add: inc_le)
    then have "cut_walk (i + 1) n (first_or None zs) h
        = Some (first_or None (drop (unat n - unat (i + 1)) zs))"
      using "1.hyps" [OF True] k ys "1.prems" step by auto
    with True k ys step show ?thesis by (simp add: cut_walk.simps [of i])
  qed
qed

text \<open>\<open>cut n\<close> splits the sequence at \<open>n\<close>.\<close>

lemma slist_cut_ok:
  assumes ok: "slist_ok h l xs" and small: "small_heap h"
  shows "\<exists>l1 l2 h'. slist_cut n l h = Some (l1, l2, h') \<and> slist_ok h' l1 (take (unat n) xs)
    \<and> slist_ok h' l2 (drop (unat n) xs) \<and> only_changes (set xs) h h'"
proof (cases "xs = [] \<or> n \<ge> slist_size l \<or> n = 0")
  case True
  have "length xs \<le> unat n" if "n \<ge> slist_size l"
    using that slist_ok_size [OF ok small] by (simp add: word_le_nat_alt)
  with True ok show ?thesis
    by (cases "slist_move l")
      (auto simp: slist_cut_def slist_ok_empty dest: slist_move_ok [OF ok])
next
  case False
  define j where "j = unat n"
  have j: "0 < j" "j < length xs"
    using False slist_ok_size [OF ok small] unfolding j_def
    by (auto simp: word_le_nat_alt unat_gt_0)
  define us where "us = take (j - 1) xs"
  define a where "a = xs ! (j - 1)"
  define b where "b = xs ! j"
  define vs where "vs = drop (Suc j) xs"
  have "xs = take (j - 1) xs @ xs ! (j - 1) # drop j xs"
    using j id_take_nth_drop [of "j - 1" xs] by simp
  then have xs: "xs = us @ a # b # vs"
    using j unfolding us_def a_def b_def vs_def by (simp add: Cons_nth_drop_Suc)
  have len_us: "length us = j - 1" using j by (simp add: us_def)
  have tk: "take j xs = us @ [a]" "drop j xs = b # vs"
    using j len_us by (auto simp: xs)
  have sg: "seg h None (us @ a # b # vs) None" and dist: "distinct (us @ a # b # vs)"
    using ok xs by (auto simp: slist_ok_def)
  obtain k where k: "h a = Some k" "hprev k = last_or None us" "hnext k = Some b"
    using sg by (auto simp: seg_append elim: linkedE)
  obtain m where m: "h b = Some m" "hprev m = Some a" "hnext m = first_or None vs"
    using sg by (auto simp: seg_append elim: linkedE)
  define h' where "h' = h(a \<mapsto> k\<lparr>hnext := None\<rparr>, b \<mapsto> m\<lparr>hprev := None\<rparr>)"
  have "cut_walk 1 n (first_or None xs) h = Some (first_or None (drop (j - 1) xs))"
    using cut_walk_drop [of 1 n xs h None] j sg xs
    by (simp add: j_def word_le_nat_alt)
  then have walk: "cut_walk 1 n (shead l) h = Some (Some a)"
    using ok xs len_us by (simp add: slist_ok_def)
  have ul: "unlink a b h = Some h'"
    using k m dist unfolding h'_def by (intro unlink_Some) auto
  have segs: "seg h' None (us @ [a]) None" "seg h' None (b # vs) None"
    using seg_split [OF sg dist, of h' None None] k m dist by (auto simp: h'_def)
  have changes: "only_changes (set xs) h h'"
    using k m xs by (auto simp: only_changes_def h'_def)
  have n: "n = of_nat (length (us @ [a]))"
  proof -
    have "length (us @ [a]) = j" using len_us j by simp
    then show ?thesis by (simp add: j_def)
  qed
  define l1 where "l1 = slist_new\<lparr>shead := shead l, stail := Some a, scount := n\<rparr>"
  define l2 where "l2 = l\<lparr>scount := scount l - n, shead := Some b\<rparr>"
  have "slist_cut n l h = Some (l1, l2, h')"
    using False slist_ok_empty [OF ok] walk ul k
    by (simp add: slist_cut_def l1_def l2_def Let_def)
  moreover have "slist_ok h' l1 (us @ [a])"
    using segs(1) dist ok n xs by (simp add: slist_ok_def l1_def slist_new_def)
  moreover have "slist_ok h' l2 (b # vs)"
  proof -
    have "scount l - n = of_nat (length (b # vs))"
      using ok unfolding slist_ok_def n xs by simp
    then show ?thesis using segs(2) dist ok xs by (simp add: slist_ok_def l2_def)
  qed
  ultimately show ?thesis
    using changes tk unfolding j_def by auto
qed

text \<open>\<open>erase\<close> removes the element and frees exactly that hook.\<close>

lemma slist_erase_ok:
  assumes "slist_ok h l (us @ x # vs)"
  shows "\<exists>l' h'. slist_erase x l h = Some (l', h') \<and> slist_ok h' l' (us @ vs)
    \<and> dom h' = dom h - {x} \<and> (\<forall>a. a \<notin> set (us @ x # vs) \<longrightarrow> h' a = h a)"
proof -
  have sg: "seg h None (us @ x # vs) None" and dist: "distinct (us @ x # vs)"
    using assms by (auto simp: slist_ok_def)
  obtain k where k: "h x = Some k" "hprev k = last_or None us" "hnext k = first_or None vs"
    using seg_at [OF sg] by (elim linkedE)
  define l1 where "l1 = (if us = [] then l\<lparr>shead := first_or None vs\<rparr> else l)"
  define h1 where "h1 = (if us = [] then h
    else h(last us \<mapsto> (the (h (last us)))\<lparr>hnext := first_or None vs\<rparr>))"
  have step1: "(case hprev k of
        Some p \<Rightarrow> do { h \<leftarrow> set_next p (hnext k) h; Some (l, h) }
      | None \<Rightarrow> do { a \<leftarrow> deref h (shead l); Some (l\<lparr>shead := hnext a\<rparr>, h) }) = Some (l1, h1)"
    and left: "us \<noteq> [] \<Longrightarrow> linked h1 (last us) (last_or None (butlast us)) (first_or None vs)"
  proof -
    show "us \<noteq> [] \<Longrightarrow> linked h1 (last us) (last_or None (butlast us)) (first_or None vs)"
      using sg by (cases us rule: rev_cases) (auto simp: h1_def seg_append elim: linkedE)
    show "(case hprev k of
        Some p \<Rightarrow> do { h \<leftarrow> set_next p (hnext k) h; Some (l, h) }
      | None \<Rightarrow> do { a \<leftarrow> deref h (shead l); Some (l\<lparr>shead := hnext a\<rparr>, h) }) = Some (l1, h1)"
      using sg k assms by (cases us rule: rev_cases)
        (auto simp: h1_def l1_def seg_append slist_ok_def elim!: linkedE)
  qed
  have h1x: "h1 x = Some k" and h1_vs: "\<And>a. a \<in> set vs \<Longrightarrow> h1 a = h a"
    using k dist by (auto simp: h1_def dest: last_in_set)
  define l2 where "l2 = (if vs = [] then l1\<lparr>stail := last_or None us\<rparr> else l1)"
  define h2 where "h2 = (if vs = [] then h1
    else h1(hd vs \<mapsto> (the (h (hd vs)))\<lparr>hprev := last_or None us\<rparr>))"
  have stail1: "vs = [] \<Longrightarrow> stail l1 = Some x"
    using assms by (auto simp: l1_def slist_ok_def)
  have step2: "(case hnext k of
        Some n \<Rightarrow> do { h \<leftarrow> set_prev n (hprev k) h1; Some (l1, h) }
      | None \<Rightarrow> do { a \<leftarrow> deref h1 (stail l1); Some (l1\<lparr>stail := hprev a\<rparr>, h1) }) = Some (l2, h2)"
    using sg k h1x h1_vs stail1 by (cases vs) (auto simp: h2_def l2_def seg_append elim!: linkedE)
  have right: "vs \<noteq> [] \<Longrightarrow> linked h2 (hd vs) (last_or None us) (first_or None (tl vs))"
    using sg by (cases vs) (auto simp: h2_def seg_append elim: linkedE)
  have left2: "us \<noteq> [] \<Longrightarrow> linked h2 (last us) (last_or None (butlast us)) (first_or None vs)"
  proof -
    assume "us \<noteq> []"
    moreover from this have "vs \<noteq> [] \<Longrightarrow> last us \<noteq> hd vs"
      using dist last_in_set [of us] hd_in_set [of vs]
      by (metis IntI distinct_append empty_iff list.set_intros(2))
    ultimately show ?thesis using left by (auto simp: h2_def)
  qed
  have h2x: "h2 x = Some k"
    using h1x dist hd_in_set [of vs] by (auto simp: h2_def)
  define h3 where "h3 = h2(x := None)"
  have seg3: "seg h3 None (us @ vs) None"
  proof (rule seg_remove [OF sg dist])
    show "us \<noteq> [] \<Longrightarrow> linked h3 (last us) (last_or None (butlast us)) (first_or None vs)"
      using left2 dist by (auto simp: h3_def)
    show "vs \<noteq> [] \<Longrightarrow> linked h3 (hd vs) (last_or None us) (first_or None (tl vs))"
      using right dist hd_in_set [of vs] by (auto simp: h3_def)
    show "h3 a = h a" if "a \<noteq> x" "Some a \<noteq> last_or None us" "Some a \<noteq> first_or None vs" for a
      using that by (cases "us = []"; cases "vs = []";
          simp add: h3_def h2_def h1_def last_or_nonempty first_or_nonempty)
  qed
  have result: "slist_erase x l h = Some (l2\<lparr>scount := scount l2 - 1\<rparr>, h3)"
    using k h1x h2x step1 step2 unfolding slist_erase_def
    by (simp add: h3_def)
  have "dom h3 = dom h - {x}"
    using seg_dom [OF sg] last_in_set [of us] hd_in_set [of vs]
    by (cases "us = []"; cases "vs = []") (auto simp: h3_def h2_def h1_def subset_iff dom_def)
  moreover have "h3 a = h a" if "a \<notin> set (us @ x # vs)" for a
  proof -
    have "a \<noteq> x" "us \<noteq> [] \<Longrightarrow> a \<noteq> last us" "vs \<noteq> [] \<Longrightarrow> a \<noteq> hd vs"
      using that by auto
    then show ?thesis by (cases "us = []"; cases "vs = []"; simp add: h3_def h2_def h1_def)
  qed
  moreover have "slist_ok h3 (l2\<lparr>scount := scount l2 - 1\<rparr>) (us @ vs)"
    using assms seg3 dist by (cases us; cases vs rule: rev_cases)
      (auto simp: slist_ok_def l2_def l1_def)
  ultimately show ?thesis using result by blast
qed

text \<open>\<open>clear\<close> terminates on every list and frees exactly its elements.\<close>

lemma clear_loop_ok:
  assumes "slist_ok h l xs" "it_ptr it = first_or None xs" "it_next it = first_or None (tl xs)"
  shows "\<exists>l' h'. clear_loop it l h = Some (l', h') \<and> slist_ok h' l' []
    \<and> dom h' = dom h - set xs \<and> (\<forall>a. a \<notin> set xs \<longrightarrow> h' a = h a)"
  using assms
proof (induction xs arbitrary: it l h)
  case Nil
  then show ?case by (simp add: clear_loop.simps it_eq_def slist_end_def)
next
  case (Cons x xs)
  obtain l1 h1 where er: "slist_erase x l h = Some (l1, h1)" and ok1: "slist_ok h1 l1 xs"
    and d1: "dom h1 = dom h - {x}" and f1: "\<And>a. a \<notin> set (x # xs) \<Longrightarrow> h1 a = h a"
    using slist_erase_ok [of h l "[]" x xs] Cons.prems(1) by auto
  obtain it' where it': "it_incr it h = Some it'" "it_ptr it' = first_or None xs"
    "it_next it' = first_or None (tl xs)"
  proof (cases xs)
    case Nil
    with Cons.prems that show thesis by (auto simp: it_incr_def it_reset_def)
  next
    case (Cons y ys)
    with Cons.prems that show thesis
      by (auto simp: it_incr_def it_reset_def slist_ok_def elim!: linkedE)
  qed
  obtain l2 h2 where "clear_loop it' l1 h1 = Some (l2, h2)" "slist_ok h2 l2 []"
    "dom h2 = dom h1 - set xs" "\<And>a. a \<notin> set xs \<Longrightarrow> h2 a = h1 a"
    using Cons.IH [OF ok1 it'(2,3)] by auto
  with er it' Cons.prems d1 f1 show ?case
    by (auto simp: clear_loop.simps [of it] slist_erase_it_def it_eq_def slist_end_def)
qed

lemma slist_clear_ok:
  assumes "slist_ok h l xs"
  shows "\<exists>l' h'. slist_clear l h = Some (l', h') \<and> slist_ok h' l' []
    \<and> dom h' = dom h - set xs \<and> (\<forall>a. a \<notin> set xs \<longrightarrow> h' a = h a)"
proof -
  obtain it where it: "slist_begin l h = Some it" "it_ptr it = first_or None xs"
    "it_next it = first_or None (tl xs)"
    using assms by (cases xs) (auto simp: slist_begin_def it_reset_def slist_ok_def elim!: linkedE)
  obtain l' h' where "clear_loop it l h = Some (l', h')"
    "dom h' = dom h - set xs" "\<And>a. a \<notin> set xs \<Longrightarrow> h' a = h a"
    using clear_loop_ok [OF assms it(2,3)] by auto
  with it show ?thesis by (auto simp: slist_clear_def)
qed

section \<open>Properties\<close>

definition two_hooks :: heap where
  "two_hooks = [1 \<mapsto> \<lparr>hprev = None, hnext = Some 2, hcheck = None\<rparr>,
                2 \<mapsto> \<lparr>hprev = Some 1, hnext = None, hcheck = None\<rparr>]"

definition two_list :: slist where
  "two_list = slist_of (Some 1) (Some 2) 2"

lemma two_ok: "slist_ok two_hooks two_list [1, 2]" and two_small: "small_heap two_hooks"
  by (simp_all add: slist_ok_def two_hooks_def two_list_def slist_of_def small_heap_def linked_def)

text \<open>
  Cutting a batch at \<open>n\<close> and appending the two parts restores the batch: \<open>cut (n)\<close> returns
  exactly the first \<open>n\<close> elements (all of them when there are fewer), keeps the rest, and
  \<open>append\<close> glues them back in the original order; no assertion or null pointer is hit.
\<close>

theorem slist_cut_append_roundtrip:
  assumes "slist_ok h l xs" and "small_heap h"
  shows "\<exists>a b h1 c d h2. slist_cut n l h = Some (a, b, h1)
    \<and> slist_ok h1 a (take (unat n) xs) \<and> slist_ok h1 b (drop (unat n) xs)
    \<and> slist_append a b h1 = Some (c, d, h2) \<and> slist_ok h2 c xs \<and> slist_ok h2 d []"
proof -
  obtain a b h1 where 1: "slist_cut n l h = Some (a, b, h1)" "slist_ok h1 a (take (unat n) xs)"
    "slist_ok h1 b (drop (unat n) xs)"
    using slist_cut_ok [OF assms, of n] by auto
  have "set (take (unat n) xs) \<inter> set (drop (unat n) xs) = {}"
    using assms(1) by (intro set_take_disj_set_drop_if_distinct) (simp_all add: slist_ok_def)
  from slist_append_ok [OF 1(2,3) this] 1 show ?thesis by auto
qed

lemma slist_cut_append_roundtrip_witness:
  "\<exists>a b h1 c d h2. slist_cut 1 two_list two_hooks = Some (a, b, h1)
    \<and> slist_ok h1 a [1] \<and> slist_ok h1 b [2]
    \<and> slist_append a b h1 = Some (c, d, h2) \<and> slist_ok h2 c [1, 2] \<and> slist_ok h2 d []"
  using slist_cut_append_roundtrip [OF two_ok two_small, of 1] by simp

text \<open>
  \<open>clear\<close> frees every element of the list, exactly those, and leaves an empty list; the
  iterator survives the removal of the element it stands on.
\<close>

theorem slist_clear_frees_all:
  assumes "slist_ok h l xs"
  shows "\<exists>l' h'. slist_clear l h = Some (l', h') \<and> slist_ok h' l' []
    \<and> dom h' = dom h - set xs \<and> (\<forall>a. a \<notin> set xs \<longrightarrow> h' a = h a)"
  using slist_clear_ok [OF assms] .

lemma slist_clear_frees_all_witness:
  "\<exists>l' h'. slist_clear two_list two_hooks = Some (l', h') \<and> slist_ok h' l' [] \<and> dom h' = {}"
  using slist_clear_frees_all [OF two_ok] by (auto simp: two_hooks_def)

end
