(* ===== verification/Ts_Queue.thy ===== *)
theory Ts_Queue
  imports Slist
begin

text \<open>
  \<open>TSQueue\<close> of \<open>common/ts_queue.h\<close>: the task queue of a processer, a doubly linked list with a
  sentinel. Every public operation takes the queue's spin lock for its whole body, so an
  operation is one atomic step here; the checks that \<open>pop\<close>, \<open>pop_front\<close>, \<open>pop_back\<close> and
  \<open>pop_all\<close> make before taking the lock are repeated inside and are kept. \<open>check_\<close> holds the
  queue's own address. Of the debug-only code (\<open>TSQueue_DEBUG\<close> is 0) only \<open>AssertLink\<close> is kept.
  \<open>tsq_ok h q xs\<close> relates a queue to the sequence of its elements.
\<close>

section \<open>State\<close>

record tsqueue =
  qhead :: addr
  qtail :: addr
  qcount :: size_t
  qcheck :: ptr

text \<open>The constructor allocates the sentinel, at an address \<open>s\<close> that is free.\<close>

definition tsq_new :: "addr \<Rightarrow> addr \<Rightarrow> heap \<Rightarrow> (tsqueue \<times> heap) option" where
  "tsq_new this s h =
     (if h s \<noteq> None then None
      else Some (\<lparr>qhead = s, qtail = s, qcount = 0, qcheck = Some this\<rparr>, h(s \<mapsto> new_hook)))"

section \<open>Reading\<close>

definition nextWithoutLock :: "addr \<Rightarrow> tsqueue \<Rightarrow> heap \<Rightarrow> (ptr \<times> heap) option" where
  "nextWithoutLock p q h = do {
     k \<leftarrow> h p;
     (case hnext k of
        None \<Rightarrow> Some (None, h)
      | Some out \<Rightarrow> do { h \<leftarrow> set_check out (qcheck q) h; Some (Some out, h) }) }"

definition tsq_next :: "addr \<Rightarrow> tsqueue \<Rightarrow> heap \<Rightarrow> (ptr \<times> heap) option" where
  "tsq_next p q h = nextWithoutLock p q h"

definition tsq_front :: "tsqueue \<Rightarrow> heap \<Rightarrow> (ptr \<times> heap) option" where
  "tsq_front q h = do {
     k \<leftarrow> h (qhead q);
     (case hnext k of
        None \<Rightarrow> Some (None, h)
      | Some out \<Rightarrow> do { h \<leftarrow> set_check out (qcheck q) h; Some (Some out, h) }) }"

definition tsq_empty :: "tsqueue \<Rightarrow> bool" where
  "tsq_empty q \<longleftrightarrow> qcount q = 0"

definition emptyUnsafe :: "tsqueue \<Rightarrow> bool" where
  "emptyUnsafe q \<longleftrightarrow> qcount q = 0"

definition tsq_size :: "tsqueue \<Rightarrow> size_t" where
  "tsq_size q = qcount q"

section \<open>Adding\<close>

definition pushWithoutLock :: "addr \<Rightarrow> tsqueue \<Rightarrow> heap \<Rightarrow> (size_t \<times> tsqueue \<times> heap) option" where
  "pushWithoutLock x q h = do {
     k \<leftarrow> h x;
     assert_c (hnext k = None);
     assert_c (hprev k = None);
     h \<leftarrow> link (qtail q) x h;
     let q = q\<lparr>qtail := x\<rparr>;
     h \<leftarrow> set_next x None h;
     h \<leftarrow> set_check x (qcheck q) h;
     let q = q\<lparr>qcount := qcount q + 1\<rparr>;
     Some (qcount q, q, h) }"

definition tsq_push :: "addr \<Rightarrow> tsqueue \<Rightarrow> heap \<Rightarrow> (size_t \<times> tsqueue \<times> heap) option" where
  "tsq_push x q h = pushWithoutLock x q h"

definition pushListWithoutLock :: "slist \<Rightarrow> tsqueue \<Rightarrow> heap \<Rightarrow> (slist \<times> tsqueue \<times> heap) option" where
  "pushListWithoutLock es q h =
     (if slist_empty es then Some (es, q, h)
      else do {
        a \<leftarrow> deref h (shead es);
        assert_c (hprev a = None);
        b \<leftarrow> deref h (stail es);
        assert_c (hnext b = None);
        listHead \<leftarrow> shead es;
        let q = q\<lparr>qcount := qcount q + slist_size es\<rparr>;
        h \<leftarrow> link (qtail q) listHead h;
        t \<leftarrow> stail es;
        Some (stealed es, q\<lparr>qtail := t\<rparr>, h) })"

definition tsq_push_list :: "slist \<Rightarrow> tsqueue \<Rightarrow> heap \<Rightarrow> (slist \<times> tsqueue \<times> heap) option" where
  "tsq_push_list es q h =
     (if slist_empty es then Some (es, q, h) else pushListWithoutLock es q h)"

section \<open>Taking\<close>

definition tsq_pop :: "tsqueue \<Rightarrow> heap \<Rightarrow> (ptr \<times> tsqueue \<times> heap) option" where
  "tsq_pop q h =
     (if qhead q = qtail q then Some (None, q, h)
      else if qhead q = qtail q then Some (None, q, h)
      else do {
        s \<leftarrow> h (qhead q);
        p \<leftarrow> hnext s;
        let q = (if p = qtail q then q\<lparr>qtail := qhead q\<rparr> else q);
        k \<leftarrow> h p;
        h \<leftarrow> set_next (qhead q) (hnext k) h;
        k \<leftarrow> h p;
        h \<leftarrow> (case hnext k of None \<Rightarrow> Some h | Some n \<Rightarrow> set_prev n (Some (qhead q)) h);
        h \<leftarrow> set_next p None h;
        h \<leftarrow> set_prev p None h;
        h \<leftarrow> set_check p None h;
        Some (Some p, q\<lparr>qcount := qcount q - 1\<rparr>, h) })"

text \<open>The scan \<open>for (; c < n && last->next; ++c) last = last->next\<close> of \<open>pop_front\<close>.\<close>

function pop_front_walk :: "uint32 \<Rightarrow> uint32 \<Rightarrow> addr \<Rightarrow> heap \<Rightarrow> (uint32 \<times> addr) option" where
  "pop_front_walk c n l h =
     (if c < n
      then Option.bind (h l) (\<lambda>k. case hnext k of
             None \<Rightarrow> Some (c, l)
           | Some m \<Rightarrow> pop_front_walk (c + 1) n m h)
      else Some (c, l))"
  by pat_completeness auto
termination
  by (relation "measure (\<lambda>(c, n, l, h). unat n - unat c)") (auto simp: word_less_measure)

declare pop_front_walk.simps [simp del]

definition tsq_pop_front :: "uint32 \<Rightarrow> tsqueue \<Rightarrow> heap \<Rightarrow> (slist \<times> tsqueue \<times> heap) option" where
  "tsq_pop_front n q h =
     (if qhead q = qtail q then Some (slist_new, q, h)
      else if qhead q = qtail q then Some (slist_new, q, h)
      else do {
        s \<leftarrow> h (qhead q);
        first \<leftarrow> hnext s;
        (c, l) \<leftarrow> pop_front_walk 1 n first h;
        let q = (if l = qtail q then q\<lparr>qtail := qhead q\<rparr> else q);
        k \<leftarrow> h l;
        h \<leftarrow> set_next (qhead q) (hnext k) h;
        k \<leftarrow> h l;
        h \<leftarrow> (case hnext k of None \<Rightarrow> Some h | Some m \<Rightarrow> set_prev m (Some (qhead q)) h);
        h \<leftarrow> set_next l None h;
        h \<leftarrow> set_prev first None h;
        Some (slist_of (Some first) (Some l) (ucast c), q\<lparr>qcount := qcount q - ucast c\<rparr>, h) })"

text \<open>The scan \<open>for (; c < n && first->prev != head_; ++c) first = first->prev\<close> of \<open>pop_back\<close>.\<close>

function pop_back_walk :: "uint32 \<Rightarrow> uint32 \<Rightarrow> addr \<Rightarrow> addr \<Rightarrow> heap \<Rightarrow> (uint32 \<times> addr) option" where
  "pop_back_walk c n s f h =
     (if c < n
      then Option.bind (h f) (\<lambda>k.
             if hprev k = Some s then Some (c, f)
             else case hprev k of
               None \<Rightarrow> None
             | Some m \<Rightarrow> pop_back_walk (c + 1) n s m h)
      else Some (c, f))"
  by pat_completeness auto
termination
  by (relation "measure (\<lambda>(c, n, s, f, h). unat n - unat c)") (auto simp: word_less_measure)

declare pop_back_walk.simps [simp del]

definition pop_backWithoutLock :: "uint32 \<Rightarrow> tsqueue \<Rightarrow> heap \<Rightarrow> (slist \<times> tsqueue \<times> heap) option" where
  "pop_backWithoutLock n q h =
     (if qhead q = qtail q then Some (slist_new, q, h)
      else do {
        let l = qtail q;
        (c, first) \<leftarrow> pop_back_walk 1 n (qhead q) l h;
        k \<leftarrow> h first;
        t \<leftarrow> hprev k;
        let q = q\<lparr>qtail := t\<rparr>;
        h \<leftarrow> set_next t None h;
        h \<leftarrow> set_prev first None h;
        Some (slist_of (Some first) (Some l) (ucast c), q\<lparr>qcount := qcount q - ucast c\<rparr>, h) })"

definition tsq_pop_back :: "uint32 \<Rightarrow> tsqueue \<Rightarrow> heap \<Rightarrow> (slist \<times> tsqueue \<times> heap) option" where
  "tsq_pop_back n q h =
     (if qhead q = qtail q then Some (slist_new, q, h) else pop_backWithoutLock n q h)"

definition pop_allWithoutLock :: "tsqueue \<Rightarrow> heap \<Rightarrow> (slist \<times> tsqueue \<times> heap) option" where
  "pop_allWithoutLock q h =
     (if qhead q = qtail q then Some (slist_new, q, h)
      else do {
        s \<leftarrow> h (qhead q);
        first \<leftarrow> hnext s;
        let l = qtail q;
        let q = q\<lparr>qtail := qhead q\<rparr>;
        h \<leftarrow> set_next (qhead q) None h;
        h \<leftarrow> set_next l None h;
        h \<leftarrow> set_prev first None h;
        let c = qcount q;
        Some (slist_of (Some first) (Some l) c, q\<lparr>qcount := 0\<rparr>, h) })"

definition tsq_pop_all :: "tsqueue \<Rightarrow> heap \<Rightarrow> (slist \<times> tsqueue \<times> heap) option" where
  "tsq_pop_all q h =
     (if qhead q = qtail q then Some (slist_new, q, h) else pop_allWithoutLock q h)"

section \<open>Removing an element by its address\<close>

definition eraseWithoutLock :: "addr \<Rightarrow> bool \<Rightarrow> tsqueue \<Rightarrow> heap \<Rightarrow> (bool \<times> tsqueue \<times> heap) option" where
  "eraseWithoutLock x chk q h = do {
     k \<leftarrow> h x;
     if hprev k = None \<and> hnext k = None then Some (False, q, h)
     else if chk \<and> hcheck k \<noteq> qcheck q then Some (False, q, h)
     else do {
       assert_c (hprev k \<noteq> None);
       assert_c (x = qtail q \<or> hnext k \<noteq> None);
       h \<leftarrow> (case hprev k of None \<Rightarrow> Some h | Some p \<Rightarrow> set_next p (hnext k) h);
       k \<leftarrow> h x;
       (q, h) \<leftarrow> (case hnext k of
            Some n \<Rightarrow> do { h \<leftarrow> set_prev n (hprev k) h; Some (q, h) }
          | None \<Rightarrow> (if x = qtail q
                     then do { t \<leftarrow> h (qtail q); p \<leftarrow> hprev t; Some (q\<lparr>qtail := p\<rparr>, h) }
                     else Some (q, h)));
       h \<leftarrow> set_next x None h;
       h \<leftarrow> set_prev x None h;
       h \<leftarrow> set_check x None h;
       assert_c (qcount q > 0);
       Some (True, q\<lparr>qcount := qcount q - 1\<rparr>, h) } }"

definition tsq_erase :: "addr \<Rightarrow> bool \<Rightarrow> tsqueue \<Rightarrow> heap \<Rightarrow> (bool \<times> tsqueue \<times> heap) option" where
  "tsq_erase x chk q h = eraseWithoutLock x chk q h"

section \<open>What a queue represents\<close>

definition tsq_ok :: "heap \<Rightarrow> tsqueue \<Rightarrow> addr list \<Rightarrow> bool" where
  "tsq_ok h q xs \<longleftrightarrow>
     seg h None (qhead q # xs) None \<and> distinct (qhead q # xs)
     \<and> qtail q = last (qhead q # xs) \<and> qcount q = of_nat (length xs)"

text \<open>The hooks of a queue: its sentinel and its elements.\<close>

definition foot :: "tsqueue \<Rightarrow> addr list \<Rightarrow> addr set" where
  "foot q xs = insert (qhead q) (set xs)"

lemma tsq_ok_dom: "tsq_ok h q xs \<Longrightarrow> foot q xs \<subseteq> dom h"
  unfolding tsq_ok_def foot_def by (metis list.set(2) seg_dom)

lemma tsq_ok_distinct: "tsq_ok h q xs \<Longrightarrow> distinct xs \<and> qhead q \<notin> set xs"
  by (simp add: tsq_ok_def)

lemma tsq_ok_length: "tsq_ok h q xs \<Longrightarrow> small_heap h \<Longrightarrow> length xs < 2 ^ 64"
  using small_heap_length [of h xs] tsq_ok_dom [of h q xs]
  by (auto simp: tsq_ok_def foot_def)

lemma tsq_ok_size: "tsq_ok h q xs \<Longrightarrow> small_heap h \<Longrightarrow> unat (tsq_size q) = length xs"
  by (frule tsq_ok_length, assumption) (simp add: tsq_ok_def tsq_size_def unat_of_nat_64)

lemma tsq_ok_empty: "tsq_ok h q xs \<Longrightarrow> small_heap h \<Longrightarrow> tsq_empty q \<longleftrightarrow> xs = []"
  by (frule tsq_ok_length, assumption) (simp add: tsq_ok_def tsq_empty_def of_nat_size_eq_0)

lemma tsq_ok_no_elements: "tsq_ok h q xs \<Longrightarrow> qhead q = qtail q \<longleftrightarrow> xs = []"
  using last_in_set [of xs] by (auto simp: tsq_ok_def)

lemma tsq_ok_only_changes:
  "tsq_ok h q xs \<Longrightarrow> only_changes A h h' \<Longrightarrow> A \<inter> foot q xs = {} \<Longrightarrow> tsq_ok h' q xs"
  unfolding tsq_ok_def foot_def
  by (metis list.set(2) seg_only_changes)

text \<open>Every operation keeps the sentinel and the queue's address.\<close>

definition same_queue :: "tsqueue \<Rightarrow> tsqueue \<Rightarrow> bool" where
  "same_queue q q' \<longleftrightarrow> qhead q' = qhead q \<and> qcheck q' = qcheck q"

lemma same_queue_refl [simp]: "same_queue q q"
  by (simp add: same_queue_def)

lemma same_queue_trans: "same_queue a b \<Longrightarrow> same_queue b c \<Longrightarrow> same_queue a c"
  by (simp add: same_queue_def)

lemma foot_same_queue: "same_queue q q' \<Longrightarrow> foot q' xs = foot q xs"
  by (simp add: same_queue_def foot_def)

lemma tsq_okI:
  assumes "seg h None (qhead q # xs) None" "distinct (qhead q # xs)"
    "qtail q = last (qhead q # xs)" "qcount q = of_nat (length xs)"
  shows "tsq_ok h q xs"
  using assms by (simp add: tsq_ok_def)

lemma tsq_okD:
  assumes "tsq_ok h q xs"
  shows "seg h None (qhead q # xs) None" "distinct (qhead q # xs)"
    "qtail q = last (qhead q # xs)" "qcount q = of_nat (length xs)"
  using assms by (simp_all add: tsq_ok_def)

lemma tsq_ok_tail:
  assumes "tsq_ok h q xs"
  obtains us k where "qhead q # xs = us @ [qtail q]" "seg h None (us @ [qtail q]) None"
    "distinct (us @ [qtail q])" "h (qtail q) = Some k" "hprev k = last_or None us" "hnext k = None"
proof -
  note D = tsq_okD [OF assms]
  have us: "qhead q # xs = butlast (qhead q # xs) @ [qtail q]"
    using D(3) by (metis append_butlast_last_id list.distinct(1))
  then have sg: "seg h None (butlast (qhead q # xs) @ [qtail q]) None" using D(1) by metis
  then have "linked h (qtail q) (last_or None (butlast (qhead q # xs))) None"
    by (simp only: seg_append seg.simps first_or.simps)
  then show thesis by (rule linkedE) (rule that [OF us sg], use us D(2) in metis)
qed

section \<open>What the operations do to it\<close>

lemma tsq_new_ok:
  assumes "h s = None"
  shows "\<exists>q h'. tsq_new this s h = Some (q, h') \<and> tsq_ok h' q [] \<and> qhead q = s
    \<and> qcheck q = Some this \<and> h' = h(s \<mapsto> new_hook)"
  using assms by (simp add: tsq_new_def tsq_ok_def linked_def new_hook_def)

text \<open>\<open>push\<close> appends an element that is in no queue and returns the new length.\<close>

lemma pushWithoutLock_ok:
  assumes ok: "tsq_ok h q xs" and x: "unlinked h x" "x \<notin> foot q xs"
  shows "\<exists>q' h'. pushWithoutLock x q h = Some (of_nat (Suc (length xs)), q', h')
    \<and> tsq_ok h' q' (xs @ [x]) \<and> same_queue q q' \<and> only_changes (foot q xs \<union> {x}) h h'"
proof -
  obtain k where k: "h x = Some k" "hprev k = None" "hnext k = None"
    using x(1) by (rule unlinkedE)
  obtain us t where us: "qhead q # xs = us @ [qtail q]" "seg h None (us @ [qtail q]) None"
    "distinct (us @ [qtail q])" and t: "h (qtail q) = Some t" "hprev t = last_or None us" "hnext t = None"
    using ok by (rule tsq_ok_tail)
  have foot: "foot q xs = set (us @ [qtail q])"
    using us(1) unfolding foot_def by (metis list.set(2))
  define h1 where "h1 = h(qtail q \<mapsto> t\<lparr>hnext := Some x\<rparr>, x \<mapsto> k\<lparr>hprev := Some (qtail q)\<rparr>)"
  define h' where "h' = h1(x \<mapsto> k\<lparr>hprev := Some (qtail q), hnext := None, hcheck := qcheck q\<rparr>)"
  define q' where "q' = q\<lparr>qtail := x, qcount := qcount q + 1\<rparr>"
  have "link (qtail q) x h = Some h1"
    using k t x(2) foot unfolding h1_def by (intro link_Some) auto
  then have "pushWithoutLock x q h = Some (qcount q + 1, q', h')"
    using k by (simp add: pushWithoutLock_def h'_def h1_def q'_def Let_def)
  moreover have "tsq_ok h' q' (xs @ [x])"
  proof (rule tsq_okI)
    have dist: "distinct (us @ qtail q # [x])" using us(3) x(2) foot by auto
    have "seg h None [x] None" using k by (simp add: linked_def)
    then have "seg h' None (us @ qtail q # [x]) None"
      by (rule seg_join [OF us(2) _ dist]) (use k t x(2) foot in \<open>auto simp: h'_def h1_def\<close>)
    moreover have "qhead q' # xs @ [x] = us @ qtail q # [x]" using us(1) by (simp add: q'_def)
    ultimately show "seg h' None (qhead q' # xs @ [x]) None" "distinct (qhead q' # xs @ [x])"
      using dist by (metis, metis)
  qed (use tsq_okD [OF ok] in \<open>auto simp: q'_def\<close>)
  moreover have "only_changes (foot q xs \<union> {x}) h h'"
    using k t foot by (auto simp: only_changes_def h'_def h1_def)
  ultimately show ?thesis using tsq_okD(4) [OF ok] by (auto simp: same_queue_def q'_def)
qed

text \<open>Pushing a batch concatenates it and leaves the batch empty.\<close>

lemma pushListWithoutLock_ok:
  assumes ok: "tsq_ok h q xs" and es: "slist_ok h es ys" "foot q xs \<inter> set ys = {}"
  shows "\<exists>es' q' h'. pushListWithoutLock es q h = Some (es', q', h')
    \<and> tsq_ok h' q' (xs @ ys) \<and> slist_ok h' es' [] \<and> same_queue q q'
    \<and> only_changes (foot q xs \<union> set ys) h h'"
proof (cases ys)
  case Nil
  with ok es show ?thesis by (simp add: pushListWithoutLock_def slist_ok_empty)
next
  case (Cons y zs)
  have E: "seg h None (y # zs) None" "distinct (y # zs)" "shead es = Some y"
    "stail es = Some (last ys)" "scount es = of_nat (length ys)"
    using es(1) Cons by (auto simp: slist_ok_def last_or_def)
  obtain k where k: "h y = Some k" "hprev k = None" "hnext k = first_or None zs"
    using E(1) by (auto elim: linkedE)
  obtain m where m: "h (last ys) = Some m" "hnext m = None"
    using seg_last [of h None ys None] es(1) Cons by (auto simp: slist_ok_def elim!: linkedE)
  obtain us t where us: "qhead q # xs = us @ [qtail q]" "seg h None (us @ [qtail q]) None"
    "distinct (us @ [qtail q])" and t: "h (qtail q) = Some t" "hprev t = last_or None us" "hnext t = None"
    using ok by (rule tsq_ok_tail)
  have foot: "foot q xs = set (us @ [qtail q])"
    using us(1) unfolding foot_def by (metis list.set(2))
  define h' where "h' = h(qtail q \<mapsto> t\<lparr>hnext := Some y\<rparr>, y \<mapsto> k\<lparr>hprev := Some (qtail q)\<rparr>)"
  define q' where "q' = q\<lparr>qcount := qcount q + scount es, qtail := last ys\<rparr>"
  have ne: "qtail q \<noteq> y" using es(2) foot Cons by auto
  have "link (qtail q) y h = Some h'"
    using k t ne unfolding h'_def by (intro link_Some) auto
  then have "pushListWithoutLock es q h = Some (stealed es, q', h')"
    using E k m by (simp add: pushListWithoutLock_def slist_empty_def slist_size_def q'_def Let_def)
  moreover have "tsq_ok h' q' (xs @ ys)"
  proof (rule tsq_okI)
    have dist: "distinct (us @ qtail q # y # zs)" using us(3) E(2) es(2) foot Cons by auto
    have "seg h' None (us @ qtail q # y # zs) None"
      by (rule seg_join [OF us(2) E(1) dist]) (use k t ne in \<open>auto simp: h'_def\<close>)
    moreover have "qhead q' # xs @ ys = us @ qtail q # y # zs" using us(1) Cons by (simp add: q'_def)
    ultimately show "seg h' None (qhead q' # xs @ ys) None" "distinct (qhead q' # xs @ ys)"
      using dist by (metis, metis)
  qed (use tsq_okD [OF ok] E Cons in \<open>auto simp: q'_def\<close>)
  moreover have "only_changes (foot q xs \<union> set ys) h h'"
    using k t foot Cons by (auto simp: only_changes_def h'_def)
  ultimately show ?thesis by (auto simp: same_queue_def q'_def)
qed

text \<open>\<open>pop\<close> takes the first element and leaves it in no queue.\<close>

lemma tsq_pop_ok:
  assumes ok: "tsq_ok h q (x # ys)"
  shows "\<exists>q' h'. tsq_pop q h = Some (Some x, q', h') \<and> tsq_ok h' q' ys \<and> unlinked h' x
    \<and> same_queue q q' \<and> only_changes (foot q (x # ys)) h h'"
proof -
  note D = tsq_okD [OF ok]
  define s where "s = qhead q"
  have sg: "seg h None ([s] @ [x] @ ys) None" and dist: "distinct ([s] @ [x] @ ys)"
    using D by (simp_all add: s_def)
  obtain a where a: "h s = Some a" "hprev a = None" "hnext a = Some x"
    using sg by (auto elim: linkedE)
  obtain k where k: "h x = Some k" "hprev k = Some s" "hnext k = first_or None ys"
    using sg by (auto elim: linkedE)
  define h1 where "h1 = h(s \<mapsto> a\<lparr>hnext := first_or None ys\<rparr>)"
  define h2 where "h2 = (if ys = [] then h1
    else h1(hd ys \<mapsto> (the (h (hd ys)))\<lparr>hprev := Some s\<rparr>))"
  define h' where "h' = h2(x \<mapsto> k\<lparr>hnext := None, hprev := None, hcheck := None\<rparr>)"
  define q' where "q' = (if x = qtail q then q\<lparr>qtail := s\<rparr> else q)\<lparr>qcount := qcount q - 1\<rparr>"
  have ne: "qhead q \<noteq> qtail q" using tsq_ok_no_elements [OF ok] by simp
  have "tsq_pop q h = Some (Some x, q', h')"
  proof (cases ys)
    case Nil
    then have "qtail q = x" using D(3) by simp
    then show ?thesis using a k ne dist Nil unfolding tsq_pop_def s_def h'_def h2_def h1_def q'_def
      by (simp add: Let_def)
  next
    case (Cons y zs)
    obtain m where m: "h y = Some m" using sg Cons by (auto elim: linkedE)
    have "qtail q \<noteq> x" using D(2,3) Cons last_in_set [of ys] by auto
    then show ?thesis using a k m ne dist Cons unfolding tsq_pop_def s_def h'_def h2_def h1_def q'_def
      by (auto simp: Let_def)
  qed
  moreover have hds: "ys \<noteq> [] \<Longrightarrow> hd ys \<noteq> x \<and> hd ys \<noteq> s"
    using dist hd_in_set [of ys] by auto
  have sgs: "seg h' None ([s] @ ys) None" "seg h' None [x] None"
    by (rule seg_extract [OF sg dist, of h'];
        use a k dist sg hds in \<open>cases ys; auto simp: h'_def h2_def h1_def elim: linkedE\<close>)+
  then have "tsq_ok h' q' ys"
    using D dist by (cases "ys = []"; intro tsq_okI)
      (use last_in_set [of ys] in \<open>auto simp: q'_def s_def\<close>)
  moreover have "unlinked h' x"
    by (simp add: unlinked_def h'_def)
  moreover have "only_changes (foot q (x # ys)) h h'"
    using a k tsq_ok_dom [OF ok] hds unfolding foot_def s_def [symmetric]
    by (cases ys) (auto simp: only_changes_def h'_def h2_def h1_def)
  ultimately show ?thesis by (auto simp: same_queue_def q'_def)
qed

lemma tsq_pop_empty: "tsq_ok h q [] \<Longrightarrow> tsq_pop q h = Some (None, q, h)"
  using tsq_ok_no_elements [of h q "[]"] by (simp add: tsq_pop_def)

text \<open>\<open>pop_all\<close> moves the whole sequence into a batch.\<close>

lemma pop_allWithoutLock_ok:
  assumes ok: "tsq_ok h q xs"
  shows "\<exists>l q' h'. pop_allWithoutLock q h = Some (l, q', h') \<and> tsq_ok h' q' [] \<and> slist_ok h' l xs
    \<and> same_queue q q' \<and> only_changes (foot q xs) h h'"
proof (cases "xs = []")
  case True
  with ok show ?thesis using tsq_ok_no_elements [OF ok] by (simp add: pop_allWithoutLock_def)
next
  case False
  note D = tsq_okD [OF ok]
  define s where "s = qhead q"
  have sg: "seg h None ([s] @ xs @ []) None" and dist: "distinct ([s] @ xs @ [])"
    using D by (simp_all add: s_def)
  obtain a where a: "h s = Some a" "hprev a = None" "hnext a = Some (hd xs)"
    using sg False by (auto simp: first_or_nonempty elim: linkedE)
  obtain m where m: "h (last xs) = Some m" "hprev m = last_or (Some s) (butlast xs)" "hnext m = None"
    using seg_last [of h "Some s" xs None] sg False by (auto elim: linkedE)
  obtain k where k: "h (hd xs) = Some k" "hprev k = Some s" "hnext k = first_or None (tl xs)"
    using sg False by (cases xs) (auto elim: linkedE)
  have sne: "s \<noteq> hd xs" "s \<noteq> last xs" using dist hd_in_set [OF False] last_in_set [OF False] by auto
  define h2 where "h2 = h(s \<mapsto> a\<lparr>hnext := None\<rparr>, last xs \<mapsto> m\<lparr>hnext := None\<rparr>)"
  define h' where "h' = h2(hd xs \<mapsto> (the (h2 (hd xs)))\<lparr>hprev := None\<rparr>)"
  define q' where "q' = q\<lparr>qtail := s, qcount := 0\<rparr>"
  define l where "l = slist_of (Some (hd xs)) (Some (last xs)) (qcount q)"
  have ne: "qhead q \<noteq> qtail q" using tsq_ok_no_elements [OF ok] False by simp
  have tl: "qtail q = last xs" using D(3) False by simp
  have "pop_allWithoutLock q h = Some (l, q', h')"
    using a m k ne tl sne unfolding pop_allWithoutLock_def
    by (auto simp: s_def [symmetric] h2_def h'_def q'_def l_def Let_def)
  moreover have sgs: "seg h' None ([s] @ []) None" "seg h' None xs None"
    by (rule seg_extract [OF sg dist, of h'];
        use a k m sne False in \<open>cases xs rule: rev_cases; cases "butlast xs";
          auto simp: h'_def h2_def hd_append elim: linkedE\<close>)+
  have "tsq_ok h' q' []"
    using sgs(1) by (intro tsq_okI) (auto simp: q'_def s_def)
  moreover have "slist_ok h' l xs"
    using sgs(2) dist D(4) False
    by (simp add: slist_ok_def l_def slist_of_def first_or_nonempty last_or_nonempty)
  moreover have "only_changes (foot q xs) h h'"
    using a k m tl hd_in_set [OF False] last_in_set [OF False] unfolding foot_def s_def [symmetric]
    by (auto simp: only_changes_def h'_def h2_def)
  ultimately show ?thesis by (auto simp: same_queue_def q'_def)
qed

section \<open>Taking batches from the ends\<close>

text \<open>The two scans stop after \<open>n - c\<close> more elements or at the end of the queue.\<close>

lemma pop_front_walk_ok:
  "seg h p (l # rest) None \<Longrightarrow>
   pop_front_walk c n l h =
     Some (c + of_nat (min (unat n - unat c) (length rest)),
           last (l # take (unat n - unat c) rest))"
proof (induction rest arbitrary: c l p)
  case Nil
  then show ?case by (subst pop_front_walk.simps) (auto elim!: linkedE)
next
  case (Cons m rest)
  obtain k where k: "h l = Some k" "hnext k = Some m" using Cons.prems by (auto elim: linkedE)
  show ?case
  proof (cases "c < n")
    case True
    have step: "unat n - unat c = Suc (unat n - unat (c + 1))"
      using True word_Suc_unat [OF True] by (simp add: word_less_nat_alt)
    have "seg h (Some l) (m # rest) None" using Cons.prems by simp
    from Cons.IH [OF this, of "c + 1"] show ?thesis
      using True k by (subst pop_front_walk.simps) (simp add: step add.assoc)
  next
    case False
    then have "unat n - unat c = 0" by (simp add: word_less_nat_alt)
    with False show ?thesis by (subst pop_front_walk.simps) simp
  qed
qed

lemma pop_back_walk_ok:
  "seg h (Some s) (rest @ [f]) e \<Longrightarrow> distinct (s # rest @ [f]) \<Longrightarrow>
   pop_back_walk c n s f h =
     Some (c + of_nat (min (unat n - unat c) (length rest)),
           hd (drop (length rest - (unat n - unat c)) rest @ [f]))"
proof (induction rest arbitrary: c f e rule: rev_induct)
  case Nil
  then show ?case by (subst pop_back_walk.simps) (auto elim!: linkedE)
next
  case (snoc m rest)
  have sg: "seg h (Some s) (rest @ [m]) (Some f)" and lf: "linked h f (Some m) e"
    using snoc.prems(1) by (simp_all add: seg_append)
  obtain k where k: "h f = Some k" "hprev k = Some m" using lf by (auto elim: linkedE)
  show ?case
  proof (cases "c < n")
    case True
    have step: "unat n - unat c = Suc (unat n - unat (c + 1))"
      using True word_Suc_unat [OF True] by (simp add: word_less_nat_alt)
    have ne: "m \<noteq> s" and d: "distinct (s # rest @ [m])" using snoc.prems(2) by auto
    have "pop_back_walk c n s f h = pop_back_walk (c + 1) n s m h"
      using True k ne by (subst pop_back_walk.simps) simp
    also have "\<dots> = Some (c + 1 + of_nat (min (unat n - unat (c + 1)) (length rest)),
        hd (drop (length rest - (unat n - unat (c + 1))) rest @ [m]))"
      by (rule snoc.IH [OF sg d])
    finally have "pop_back_walk c n s f h = Some (c + 1 + of_nat (min (unat n - unat (c + 1)) (length rest)),
        hd (drop (length rest - (unat n - unat (c + 1))) rest @ [m]))" .
    moreover have "hd (drop (length (rest @ [m]) - Suc d) (rest @ [m]) @ [f])
        = hd (drop (length rest - d) rest @ [m])" for d
      by (cases "drop (length rest - d) rest") simp_all
    moreover have "c + 1 + of_nat (min (unat n - unat (c + 1)) (length rest))
        = c + of_nat (min (unat n - unat c) (length (rest @ [m])))"
      by (simp add: step)
    ultimately show ?thesis by (simp only: step)
  next
    case False
    then have "unat n - unat c = 0" by (simp add: word_less_nat_alt)
    with False show ?thesis by (subst pop_back_walk.simps) simp
  qed
qed

text \<open>How many elements \<open>pop_front (n)\<close> and \<open>pop_back (n)\<close> take: at least one.\<close>

definition batch :: "uint32 \<Rightarrow> 'a list \<Rightarrow> nat" where
  "batch n xs = min (max 1 (unat n)) (length xs)"

lemma batch_count:
  assumes "xs \<noteq> []"
  shows "ucast (1 + of_nat (min (unat n - unat (1::uint32)) (length xs - 1)) :: uint32)
    = (of_nat (batch n xs) :: size_t)"
proof -
  have b: "Suc (min (unat n - 1) (length xs - 1)) = batch n xs"
    using assms by (cases xs) (auto simp: batch_def)
  have "batch n xs < 2 ^ 32"
  proof -
    have "unat n < 2 ^ 32" by (rule order_less_le_trans [OF unsigned_less]) simp
    then show ?thesis by (auto simp: batch_def)
  qed
  then have "unat (of_nat (batch n xs) :: uint32) = batch n xs" by (rule unat_of_nat_32)
  then have "ucast (of_nat (batch n xs) :: uint32) = (of_nat (batch n xs) :: size_t)"
    by (metis of_nat_unat)
  moreover have "1 + of_nat (min (unat n - unat (1::uint32)) (length xs - 1)) = (of_nat (batch n xs) :: uint32)"
    using b by (metis of_nat_Suc unat_1)
  ultimately show ?thesis by simp
qed

lemma batch_pos: "xs \<noteq> [] \<Longrightarrow> 0 < batch n xs"
  by (cases xs) (auto simp: batch_def)

lemma batch_le: "batch n xs \<le> length xs"
  by (simp add: batch_def)

lemma tsq_pop_front_ok:
  assumes ok: "tsq_ok h q xs" and ne: "xs \<noteq> []"
  shows "\<exists>l q' h'. tsq_pop_front n q h = Some (l, q', h')
    \<and> tsq_ok h' q' (drop (batch n xs) xs) \<and> slist_ok h' l (take (batch n xs) xs)
    \<and> same_queue q q' \<and> only_changes (foot q xs) h h'"
proof -
  note D = tsq_okD [OF ok]
  define s where "s = qhead q"
  define bs where "bs = take (batch n xs) xs"
  define vs where "vs = drop (batch n xs) xs"
  have bsne: "bs \<noteq> []" using batch_pos [OF ne, of n] ne by (simp add: bs_def)
  have xs: "xs = bs @ vs" by (simp add: bs_def vs_def)
  have lbs: "length bs = batch n xs" using batch_le [of n xs] by (simp add: bs_def)
  have sg: "seg h None ([s] @ bs @ vs) None" and dist: "distinct ([s] @ bs @ vs)"
    using D by (simp_all add: s_def xs)
  obtain a where a: "h s = Some a" "hprev a = None" "hnext a = Some (hd bs)"
    using sg bsne by (auto simp: first_or_nonempty seg_append elim: linkedE)
  have hd: "hd xs = hd bs" using bsne by (simp add: xs)
  have walk: "pop_front_walk 1 n (hd bs) h = Some (1 + of_nat (min (unat n - unat (1::uint32)) (length xs - 1)), last bs)"
  proof -
    have "seg h (Some s) (hd xs # tl xs) None" using D(1) ne by (simp add: s_def)
    from pop_front_walk_ok [OF this, of 1 n]
    have "pop_front_walk 1 n (hd bs) h = Some (1 + of_nat (min (unat n - unat (1::uint32)) (length xs - 1)), 
       last (hd xs # take (unat n - unat (1::uint32)) (tl xs)))" by (simp add: hd)
    moreover have "hd xs # take (unat n - unat (1::uint32)) (tl xs) = bs"
      using ne by (cases xs; cases "unat n") (auto simp: bs_def batch_def min_def)
    ultimately show ?thesis by (simp only:)
  qed
  obtain k where k: "h (hd bs) = Some k" "hprev k = Some s" "hnext k = first_or (first_or None vs) (tl bs)"
    using sg bsne by (cases bs) (auto simp: seg_append elim: linkedE)
  obtain m where m: "h (last bs) = Some m" "hprev m = last_or (Some s) (butlast bs)" "hnext m = first_or None vs"
    using seg_last [of h "Some s" bs "first_or None vs"] sg bsne by (auto simp: seg_append elim: linkedE)
  define h1 where "h1 = h(s \<mapsto> a\<lparr>hnext := first_or None vs\<rparr>)"
  define h2 where "h2 = (if vs = [] then h1 else h1(hd vs \<mapsto> (the (h (hd vs)))\<lparr>hprev := Some s\<rparr>))"
  define h3 where "h3 = h2(last bs \<mapsto> m\<lparr>hnext := None\<rparr>)"
  define h' where "h' = h3(hd bs \<mapsto> (the (h3 (hd bs)))\<lparr>hprev := None\<rparr>)"
  define q' where "q' = (if vs = [] then q\<lparr>qtail := s\<rparr> else q)\<lparr>qcount := qcount q - of_nat (batch n xs)\<rparr>"
  define l where "l = slist_of (Some (hd bs)) (Some (last bs)) (of_nat (batch n xs))"
  have ne2: "qhead q \<noteq> qtail q" using tsq_ok_no_elements [OF ok] ne by simp
  have out: "hd bs \<noteq> s" "last bs \<noteq> s" "hd bs \<notin> set vs" "last bs \<notin> set vs"
    using dist hd_in_set [OF bsne] last_in_set [OF bsne] by auto
  have tail: "last bs = qtail q \<longleftrightarrow> vs = []"
    using D(3) out(4) bsne last_in_set [of vs] by (cases "vs = []") (auto simp: xs)
  have "tsq_pop_front n q h = Some (l, q', h')"
  proof (cases vs)
    case Nil
    with tail have "qtail q = last bs" by simp
    then show ?thesis using a k m ne2 walk out Nil batch_count [OF ne, of n]
      unfolding tsq_pop_front_def s_def h'_def h3_def h2_def h1_def q'_def l_def
      by (auto simp: Let_def)
  next
    case (Cons y zs)
    obtain e where e: "h y = Some e" using sg Cons by (auto simp: seg_append elim: linkedE)
    have "qtail q \<noteq> last bs" "y \<noteq> s" using tail dist Cons by auto
    then show ?thesis using a k m e ne2 walk out Cons batch_count [OF ne, of n]
      unfolding tsq_pop_front_def s_def h'_def h3_def h2_def h1_def q'_def l_def
      by (auto simp: Let_def)
  qed
  moreover have hds: "vs \<noteq> [] \<Longrightarrow> hd vs \<noteq> s \<and> hd vs \<notin> set bs \<and> hd vs \<noteq> hd bs \<and> hd vs \<noteq> last bs"
    using dist hd_in_set [of vs] out by (metis Int_iff distinct_append emptyE list.set_intros(1) append_Cons UnCI set_append distinct.simps(2))
  have hv: "linked h' (hd vs) (Some s) (first_or None (tl vs))" if "vs \<noteq> []"
    using sg that hds out by (cases vs) (auto simp: seg_append h'_def h3_def h2_def h1_def elim!: linkedE)
  have hl: "hd bs \<noteq> last bs" if "tl bs \<noteq> []"
    using dist that by (cases bs) auto
  have hb: "linked h' (hd bs) None (first_or None (tl bs))"
    using k m out bsne hds hl by (cases "tl bs"; cases bs) (auto simp: h'_def h3_def h2_def h1_def linked_def)
  have lb: "linked h' (last bs) (last_or None (butlast bs)) None"
    using k m out bsne hds hl by (cases bs rule: rev_cases; cases "butlast bs") 
      (auto simp: h'_def h3_def h2_def h1_def linked_def hd_append)
  have hs: "linked h' (last [s]) (last_or None (butlast [s])) (first_or None vs)"
    using a out hds by (auto simp: h'_def h3_def h2_def h1_def)
  have fr: "h' c = h c" if "c \<noteq> last [s]" "c \<noteq> hd bs" "c \<noteq> last bs" "first_or None vs \<noteq> Some c" for c
    using that by (cases vs) (auto simp: h'_def h3_def h2_def h1_def)
  have sgs: "seg h' None ([s] @ vs) None" "seg h' None bs None"
    by (rule seg_extract [OF sg dist _ bsne hs _ hb lb fr]; use hv in simp)+
  have "tsq_ok h' q' vs"
    using D dist sgs(1) batch_le [of n xs] by (intro tsq_okI) (auto simp: q'_def s_def xs lbs word_of_nat_diff)
  moreover have "slist_ok h' l bs"
    using sgs(2) dist bsne lbs
    by (simp add: slist_ok_def l_def slist_of_def first_or_nonempty last_or_nonempty)
  moreover have "only_changes (foot q xs) h h'"
    using a k m tsq_ok_dom [OF ok] hd_in_set [OF bsne] last_in_set [OF bsne] hd_in_set [of vs]
    unfolding foot_def s_def [symmetric] xs
    by (cases vs) (auto simp: only_changes_def h'_def h3_def h2_def h1_def)
  ultimately show ?thesis unfolding bs_def vs_def by (auto simp: same_queue_def q'_def)
qed


lemma pop_backWithoutLock_ok:
  assumes ok: "tsq_ok h q xs" and ne: "xs \<noteq> []"
  shows "\<exists>l q' h'. pop_backWithoutLock n q h = Some (l, q', h')
    \<and> tsq_ok h' q' (take (length xs - batch n xs) xs)
    \<and> slist_ok h' l (drop (length xs - batch n xs) xs)
    \<and> same_queue q q' \<and> only_changes (foot q xs) h h'"
proof -
  note D = tsq_okD [OF ok]
  define s where "s = qhead q"
  define us where "us = take (length xs - batch n xs) xs"
  define bs where "bs = drop (length xs - batch n xs) xs"
  have "length xs - batch n xs < length xs" using batch_pos [OF ne, of n] ne by simp
  then have bsne: "bs \<noteq> []" by (simp add: bs_def)
  have xs: "xs = us @ bs" by (simp add: bs_def us_def)
  have lbs: "length bs = batch n xs" using batch_le [of n xs] by (simp add: bs_def)
  have sg: "seg h None ((s # us) @ bs @ []) None" and dist: "distinct ((s # us) @ bs @ [])"
    using D by (simp_all add: s_def xs)
  define t where "t = last (s # us)"
  have tl: "qtail q = last bs" using D(3) bsne by (simp add: xs)
  obtain k where k: "h (hd bs) = Some k" "hprev k = Some t" "hnext k = first_or None (tl bs)"
    using sg bsne by (cases bs) (auto simp: seg_append last_or_def t_def elim: linkedE split: if_splits)
  have walk: "pop_back_walk 1 n s (last bs) h =
      Some (1 + of_nat (min (unat n - unat (1::uint32)) (length xs - 1)), hd bs)"
  proof -
    have x: "butlast xs @ [last bs] = xs" using bsne by (simp add: xs butlast_append)
    have "seg h (Some s) (butlast xs @ [last bs]) None" "distinct (s # butlast xs @ [last bs])"
      using D(1,2) by (simp_all add: x s_def)
    from pop_back_walk_ok [OF this, of 1 n]
    have "pop_back_walk 1 n s (last bs) h = Some (1 + of_nat (min (unat n - unat (1::uint32)) (length (butlast xs))),
       hd (drop (length (butlast xs) - (unat n - unat (1::uint32))) (butlast xs) @ [last bs]))" .
    moreover have "drop (length (butlast xs) - (unat n - unat (1::uint32))) (butlast xs) @ [last bs] = bs"
    proof -
      have "drop i (butlast xs) @ [last bs] = drop i xs" if "i \<le> length (butlast xs)" for i
        using that x by (metis drop_append drop_0 diff_is_0_eq)
      moreover have "length (butlast xs) - (unat n - unat (1::uint32)) = length xs - batch n xs"
        using ne by (cases xs; cases "unat n") (auto simp: batch_def min_def)
      ultimately show ?thesis by (simp add: bs_def)
    qed
    ultimately show ?thesis by (simp only: length_butlast)
  qed
  obtain a where a: "h t = Some a" "hprev a = last_or None (butlast (s # us))" "hnext a = Some (hd bs)"
    using seg_last [of h None "s # us" "first_or None bs"] sg bsne
    by (auto simp: t_def seg_append first_or_nonempty last_or_def elim: linkedE split: if_splits)
  obtain m where m: "h (last bs) = Some m" "hprev m = last_or (Some t) (butlast bs)" "hnext m = None"
    using seg_last [of h "Some t" bs None] sg bsne
    by (auto simp: t_def seg_append last_or_def elim: linkedE split: if_splits)
  define h' where "h' = h(t \<mapsto> a\<lparr>hnext := None\<rparr>, hd bs \<mapsto> k\<lparr>hprev := None\<rparr>)"
  define q' where "q' = q\<lparr>qtail := t, qcount := qcount q - of_nat (batch n xs)\<rparr>"
  define l where "l = slist_of (Some (hd bs)) (Some (last bs)) (of_nat (batch n xs))"
  have ne2: "qhead q \<noteq> qtail q" using tsq_ok_no_elements [OF ok] ne by simp
  have tin: "t \<in> set (s # us)" unfolding t_def by (rule last_in_set) simp
  then have out: "hd bs \<noteq> t" "last bs \<noteq> t"
    using dist hd_in_set [OF bsne] last_in_set [OF bsne] by auto
  have "pop_backWithoutLock n q h = Some (l, q', h')"
    using a k m ne2 walk out tl batch_count [OF ne, of n]
    unfolding pop_backWithoutLock_def s_def h'_def q'_def l_def
    by (auto simp: Let_def)
  moreover have hl: "hd bs \<noteq> last bs" if "tl bs \<noteq> []"
    using dist that by (cases bs) auto
  have hs: "linked h' (last (s # us)) (last_or None (butlast (s # us))) (first_or None [])"
    using a out unfolding t_def [symmetric] by (simp add: h'_def)
  have hb: "linked h' (hd bs) None (first_or None (tl bs))" using k by (simp add: h'_def)
  have lb: "linked h' (last bs) (last_or None (butlast bs)) None"
    using k m out bsne hl by (cases bs rule: rev_cases; cases "butlast bs")
      (auto simp: h'_def linked_def hd_append)
  have fr: "h' c = h c" if "c \<noteq> last (s # us)" "c \<noteq> hd bs" for c
    using that unfolding t_def [symmetric] by (simp add: h'_def)
  have sgs: "seg h' None ((s # us) @ []) None" "seg h' None bs None"
    by (rule seg_extract [OF sg dist _ bsne hs _ hb lb]; (rule fr; assumption)?; simp)+
  have "tsq_ok h' q' us"
    using D dist sgs(1) batch_le [of n xs]
    by (intro tsq_okI) (auto simp: q'_def s_def t_def xs lbs word_of_nat_diff)
  moreover have "slist_ok h' l bs"
    using sgs(2) dist bsne lbs
    by (simp add: slist_ok_def l_def slist_of_def first_or_nonempty last_or_nonempty)
  moreover have "only_changes (foot q xs) h h'"
    using a k tin hd_in_set [OF bsne] unfolding foot_def s_def [symmetric] xs
    by (auto simp: only_changes_def h'_def)
  ultimately show ?thesis unfolding us_def bs_def by (auto simp: same_queue_def q'_def)
qed

section \<open>Removing an element by its address\<close>

lemma erase_member_ok:
  assumes ok: "tsq_ok h q (us @ x # vs)" and small: "small_heap h"
    and chk: "\<not> chk \<or> (\<forall>k. h x = Some k \<longrightarrow> hcheck k = qcheck q)"
  shows "\<exists>q' h'. eraseWithoutLock x chk q h = Some (True, q', h') \<and> tsq_ok h' q' (us @ vs)
    \<and> unlinked h' x \<and> same_queue q q' \<and> only_changes (foot q (us @ x # vs)) h h'"
proof -
  note D = tsq_okD [OF ok]
  define s where "s = qhead q"
  have sg: "seg h None ((s # us) @ [x] @ vs) None" and dist: "distinct ((s # us) @ [x] @ vs)"
    using D by (simp_all add: s_def)
  define p where "p = last (s # us)"
  have pin: "p \<in> set (s # us)" unfolding p_def by (rule last_in_set) simp
  obtain k where k: "h x = Some k" "hprev k = Some p" "hnext k = first_or None vs"
    using sg by (auto simp: seg_append last_or_def p_def elim: linkedE split: if_splits)
  obtain a where a: "h p = Some a" "hprev a = last_or None (butlast (s # us))"
    using seg_last [of h None "s # us" "Some x"] sg
    by (auto simp: p_def seg_append last_or_def elim: linkedE split: if_splits)
  have out: "p \<noteq> x" "p \<notin> set vs" "x \<notin> set vs" using dist pin by auto
  define h1 where "h1 = h(p \<mapsto> a\<lparr>hnext := first_or None vs\<rparr>)"
  define h2 where "h2 = (if vs = [] then h1 else h1(hd vs \<mapsto> (the (h (hd vs)))\<lparr>hprev := Some p\<rparr>))"
  define h' where "h' = h2(x \<mapsto> k\<lparr>hnext := None, hprev := None, hcheck := None\<rparr>)"
  define q' where "q' = (if vs = [] then q\<lparr>qtail := p\<rparr> else q)\<lparr>qcount := qcount q - 1\<rparr>"
  have cnt: "qcount q > 0"
    using tsq_ok_length [OF ok small] D(4) of_nat_size_eq_0 [of "length (us @ x # vs)"]
    by (simp add: word_neq_0_conv del: of_nat_Suc)
  have tail: "x = qtail q \<longleftrightarrow> vs = []" using D(3) out last_in_set [of vs] by auto
  have "eraseWithoutLock x chk q h = Some (True, q', h')"
  proof (cases vs)
    case Nil
    then have "qtail q = x" using tail by simp
    then show ?thesis using a k cnt chk out Nil
      unfolding eraseWithoutLock_def h'_def h2_def h1_def q'_def
      by (auto simp: Let_def)
  next
    case (Cons y zs)
    obtain e where e: "h y = Some e" using sg Cons by (auto simp: seg_append elim: linkedE)
    have "qtail q \<noteq> x" using tail Cons by auto
    then show ?thesis using a k e cnt chk out Cons
      unfolding eraseWithoutLock_def h'_def h2_def h1_def q'_def
      by (auto simp: Let_def)
  qed
  moreover have hds: "vs \<noteq> [] \<Longrightarrow> hd vs \<noteq> p \<and> hd vs \<noteq> x"
    using out hd_in_set [of vs] by auto
  have hv: "linked h' (hd vs) (Some (last (s # us))) (first_or None (tl vs))" if "vs \<noteq> []"
    using sg that hds out unfolding p_def [symmetric]
    by (cases vs) (auto simp: seg_append h'_def h2_def h1_def elim!: linkedE)
  have hs: "linked h' (last (s # us)) (last_or None (butlast (s # us))) (first_or None vs)"
    using a out hds unfolding p_def [symmetric] by (auto simp: h'_def h2_def h1_def)
  have hb: "linked h' (hd [x]) None (first_or None (tl [x]))"
    "linked h' (last [x]) (last_or None (butlast [x])) None"
    by (simp_all add: h'_def)
  have fr: "h' c = h c" if "c \<noteq> last (s # us)" "c \<noteq> hd [x]" "first_or None vs \<noteq> Some c" for c
    using that unfolding p_def [symmetric] by (cases vs) (auto simp: h'_def h2_def h1_def)
  have sgs: "seg h' None ((s # us) @ vs) None" "seg h' None [x] None"
    by (rule seg_extract [OF sg dist _ _ hs hv hb]; (rule fr; assumption)?; simp)+
  have "tsq_ok h' q' (us @ vs)"
    using D dist sgs(1) by (intro tsq_okI) (auto simp: q'_def s_def p_def)
  moreover have "unlinked h' x" by (simp add: unlinked_def h'_def)
  moreover have "only_changes (foot q (us @ x # vs)) h h'"
    using a k tsq_ok_dom [OF ok] pin unfolding foot_def s_def [symmetric]
    by (cases vs) (auto simp: only_changes_def h'_def h2_def h1_def)
  ultimately show ?thesis by (auto simp: same_queue_def q'_def)
qed

text \<open>An element that is in no queue, or (checked) in another one, is refused.\<close>

lemma erase_unlinked: "unlinked h x \<Longrightarrow> eraseWithoutLock x chk q h = Some (False, q, h)"
  by (auto simp: eraseWithoutLock_def elim!: unlinkedE)

lemma erase_other_queue:
  "h x = Some k \<Longrightarrow> hcheck k \<noteq> qcheck q \<Longrightarrow> eraseWithoutLock x True q h = Some (False, q, h)"
  by (simp add: eraseWithoutLock_def)

section \<open>Looking at the first element and the successor\<close>

lemma tsq_ok_set_check:
  "tsq_ok h q xs \<Longrightarrow> h x = Some k \<Longrightarrow> tsq_ok (h(x \<mapsto> k\<lparr>hcheck := c\<rparr>)) q xs"
  unfolding tsq_ok_def by (simp only: seg_set_check)

lemma nextWithoutLock_ok:
  assumes ok: "tsq_ok h q xs" and sp: "qhead q # xs = us @ p # vs"
  shows "\<exists>h'. nextWithoutLock p q h = Some (first_or None vs, h') \<and> tsq_ok h' q xs
    \<and> only_changes (foot q xs) h h'"
proof -
  have sg: "seg h None (us @ p # vs) None" using tsq_okD(1) [OF ok] sp by simp
  then obtain k where k: "h p = Some k" "hnext k = first_or None vs"
    by (auto simp: seg_append elim: linkedE)
  show ?thesis
  proof (cases vs)
    case Nil
    with k ok show ?thesis by (simp add: nextWithoutLock_def)
  next
    case (Cons y zs)
    obtain e where e: "h y = Some e" using sg Cons by (auto simp: seg_append elim: linkedE)
    have "y \<in> foot q xs" using sp Cons unfolding foot_def
      by (metis list.set(2) in_set_conv_decomp append_Cons append_assoc append_Nil)
    with k e Cons ok show ?thesis
      by (auto simp: nextWithoutLock_def tsq_ok_set_check only_changes_def)
  qed
qed

lemma tsq_front_next: "tsq_front q h = nextWithoutLock (qhead q) q h"
  by (simp add: tsq_front_def nextWithoutLock_def)

lemma tsq_front_ok:
  "tsq_ok h q xs \<Longrightarrow> \<exists>h'. tsq_front q h = Some (first_or None xs, h') \<and> tsq_ok h' q xs
    \<and> only_changes (foot q xs) h h'"
  using nextWithoutLock_ok [of h q xs "[]" "qhead q" xs] by (simp add: tsq_front_next)

section \<open>The destructor\<close>

text \<open>Frees the elements from the back and then the sentinel.\<close>

partial_function (option) destroy_loop :: "addr \<Rightarrow> addr \<Rightarrow> heap \<Rightarrow> heap option" where
  "destroy_loop s t h =
     (if s = t then Some h
      else Option.bind (h t) (\<lambda>k. Option.bind (hprev k) (\<lambda>p. destroy_loop s p (h(t := None)))))"

definition tsq_destroy :: "tsqueue \<Rightarrow> heap \<Rightarrow> heap option" where
  "tsq_destroy q h = Option.bind (destroy_loop (qhead q) (qtail q) h) (\<lambda>h. Some (h(qhead q := None)))"

lemma destroy_loop_ok:
  "seg h None (s # xs) e \<Longrightarrow> distinct (s # xs) \<Longrightarrow>
   destroy_loop s (last (s # xs)) h = Some (\<lambda>p. if p \<in> set xs then None else h p)"
proof (induction xs arbitrary: h e rule: rev_induct)
  case Nil
  then show ?case by (subst destroy_loop.simps) simp
next
  case (snoc x xs)
  define t where "t = last (s # xs)"
  have sg: "seg h None (s # xs) (Some x)" using snoc.prems(1) by (simp add: seg_append)
  obtain k where k: "h x = Some k" "hprev k = Some t"
    using snoc.prems(1) by (auto simp: seg_append t_def last_or_def elim: linkedE split: if_splits)
  have x: "x \<notin> set (s # xs)" and d: "distinct (s # xs)" using snoc.prems(2) by auto
  have sg': "seg (h(x := None)) None (s # xs) (Some x)" using sg x by simp
  have "destroy_loop s x h = destroy_loop s t (h(x := None))"
    using k x by (subst destroy_loop.simps) simp
  also have "\<dots> = Some (\<lambda>p. if p \<in> set xs then None else (h(x := None)) p)"
    unfolding t_def by (rule snoc.IH [OF sg' d])
  also have "(\<lambda>p. if p \<in> set xs then None else (h(x := None)) p)
      = (\<lambda>p. if p \<in> set (xs @ [x]) then None else h p)"
    by auto
  finally show ?case by simp
qed

lemma tsq_destroy_ok:
  "tsq_ok h q xs \<Longrightarrow> tsq_destroy q h = Some (\<lambda>p. if p \<in> foot q xs then None else h p)"
  using destroy_loop_ok [of h "qhead q" xs None] tsq_okD [of h q xs]
  by (auto simp: tsq_destroy_def foot_def fun_eq_iff)

section \<open>The check of the links\<close>

text \<open>\<open>AssertLink\<close>, with \<open>TSQueue_DEBUG\<close>: follows \<open>prev\<close> from the last hook and asserts that this leads to the sentinel.\<close>

partial_function (option) assert_link_walk :: "addr \<Rightarrow> addr \<Rightarrow> heap \<Rightarrow> unit option" where
  "assert_link_walk s pos h =
     (if pos = s then Some ()
      else Option.bind (h pos) (\<lambda>k. Option.bind (hprev k) (\<lambda>p. assert_link_walk s p h)))"

definition AssertLink :: "tsqueue \<Rightarrow> heap \<Rightarrow> unit option" where
  "AssertLink q h = (if qhead q = qtail q then Some () else assert_link_walk (qhead q) (qtail q) h)"

lemma assert_link_walk_ok:
  "seg h None (s # xs) e \<Longrightarrow> distinct (s # xs) \<Longrightarrow> assert_link_walk s (last (s # xs)) h = Some ()"
proof (induction xs arbitrary: e rule: rev_induct)
  case Nil
  then show ?case by (subst assert_link_walk.simps) simp
next
  case (snoc x xs)
  have sg: "seg h None (s # xs) (Some x)" and d: "distinct (s # xs)" and x: "x \<noteq> s"
    using snoc.prems by (auto simp: seg_append)
  obtain k where k: "h x = Some k" "hprev k = Some (last (s # xs))"
    using snoc.prems(1) by (auto simp: seg_append last_or_def elim: linkedE split: if_splits)
  have "assert_link_walk s x h = assert_link_walk s (last (s # xs)) h"
    using k x by (subst assert_link_walk.simps) simp
  then show ?case using snoc.IH [OF sg d] by simp
qed

text \<open>The check comes to an end and holds for every well-formed queue, so for all that the operations produce.\<close>

theorem assert_link_holds:
  assumes "tsq_ok h q xs"
  shows "AssertLink q h = Some ()"
  using assert_link_walk_ok [OF tsq_okD(1,2) [OF assms]] tsq_okD(3) [OF assms] by (simp add: AssertLink_def)

section \<open>Refinement: the queue is a list\<close>

text \<open>
  The specification keeps the sequence of queued elements and the set of hooks that are in no
  queue. \<open>None\<close> marks the calls the code forbids (\<open>push\<close> of a queued element).
\<close>

datatype qop = QPush addr | QPop | QErase addr | QSize | QEmpty

datatype qres = RSize size_t | RPtr ptr | RBool bool

fun qstep :: "qop \<Rightarrow> tsqueue \<times> heap \<Rightarrow> (qres \<times> tsqueue \<times> heap) option" where
  "qstep (QPush x) (q, h) = map_option (\<lambda>(n, q, h). (RSize n, q, h)) (tsq_push x q h)"
| "qstep QPop (q, h) = map_option (\<lambda>(p, q, h). (RPtr p, q, h)) (tsq_pop q h)"
| "qstep (QErase x) (q, h) = map_option (\<lambda>(b, q, h). (RBool b, q, h)) (tsq_erase x False q h)"
| "qstep QSize (q, h) = Some (RSize (tsq_size q), q, h)"
| "qstep QEmpty (q, h) = Some (RBool (tsq_empty q), q, h)"

fun qspec :: "qop \<Rightarrow> addr list \<times> addr set \<Rightarrow> (qres \<times> addr list \<times> addr set) option" where
  "qspec (QPush x) (xs, F) =
     (if x \<in> F then Some (RSize (of_nat (Suc (length xs))), xs @ [x], F - {x}) else None)"
| "qspec QPop ([], F) = Some (RPtr None, [], F)"
| "qspec QPop (x # xs, F) = Some (RPtr (Some x), xs, insert x F)"
| "qspec (QErase x) (xs, F) =
     (if x \<in> set xs then Some (RBool True, remove1 x xs, insert x F)
      else if x \<in> F then Some (RBool False, xs, F) else None)"
| "qspec QSize (xs, F) = Some (RSize (of_nat (length xs)), xs, F)"
| "qspec QEmpty (xs, F) = Some (RBool (xs = []), xs, F)"

definition queue_rep :: "tsqueue \<times> heap \<Rightarrow> addr list \<times> addr set \<Rightarrow> bool" where
  "queue_rep s a \<longleftrightarrow> tsq_ok (snd s) (fst s) (fst a) \<and> small_heap (snd s)
     \<and> (\<forall>x\<in>snd a. unlinked (snd s) x) \<and> snd a \<inter> foot (fst s) (fst a) = {}"

lemma queue_repI:
  assumes "tsq_ok h' q' ys" "same_queue q q'" "only_changes A h h'" "small_heap h"
    and "\<And>x. x \<in> G \<Longrightarrow> unlinked h' x \<and> x \<noteq> qhead q \<and> x \<notin> set ys"
  shows "queue_rep (q', h') (ys, G)"
  using assms small_heap_only_changes [of h A h']
  by (auto simp: queue_rep_def foot_def same_queue_def)

lemma queue_push_sim:
  assumes rep: "queue_rep (q, h) (xs, F)" and x: "x \<in> F"
  shows "\<exists>q' h'. tsq_push x q h = Some (of_nat (Suc (length xs)), q', h')
    \<and> queue_rep (q', h') (xs @ [x], F - {x})"
proof -
  have R: "tsq_ok h q xs" "small_heap h" "unlinked h x" "x \<notin> foot q xs"
    and F: "\<And>y. y \<in> F \<Longrightarrow> unlinked h y \<and> y \<notin> foot q xs"
    using rep x by (auto simp: queue_rep_def)
  obtain q' h' where S: "pushWithoutLock x q h = Some (of_nat (Suc (length xs)), q', h')"
    "tsq_ok h' q' (xs @ [x])" "same_queue q q'" "only_changes (foot q xs \<union> {x}) h h'"
    using pushWithoutLock_ok [OF R(1,3,4)] by auto
  have "queue_rep (q', h') (xs @ [x], F - {x})"
    by (rule queue_repI [OF S(2,3,4) R(2)])
      (use F unlinked_only_changes [OF _ S(4)] in \<open>auto simp: foot_def\<close>)
  with S(1) show ?thesis by (simp add: tsq_push_def)
qed

lemma queue_pop_sim:
  assumes rep: "queue_rep (q, h) (x # xs, F)"
  shows "\<exists>q' h'. tsq_pop q h = Some (Some x, q', h') \<and> queue_rep (q', h') (xs, insert x F)"
proof -
  have R: "tsq_ok h q (x # xs)" "small_heap h"
    and F: "\<And>y. y \<in> F \<Longrightarrow> unlinked h y \<and> y \<notin> foot q (x # xs)"
    using rep by (auto simp: queue_rep_def)
  obtain q' h' where S: "tsq_pop q h = Some (Some x, q', h')" "tsq_ok h' q' xs" "unlinked h' x"
    "same_queue q q'" "only_changes (foot q (x # xs)) h h'"
    using tsq_pop_ok [OF R(1)] by auto
  have "queue_rep (q', h') (xs, insert x F)"
    by (rule queue_repI [OF S(2,4,5) R(2)])
      (use F S(3) tsq_ok_distinct [OF R(1)] unlinked_only_changes [OF _ S(5)] in \<open>auto simp: foot_def\<close>)
  with S(1) show ?thesis by simp
qed

lemma queue_erase_sim:
  assumes rep: "queue_rep (q, h) (xs, F)" and x: "x \<in> set xs"
  shows "\<exists>q' h'. tsq_erase x False q h = Some (True, q', h') \<and> queue_rep (q', h') (remove1 x xs, insert x F)"
proof -
  obtain us vs where sp: "xs = us @ x # vs" "x \<notin> set us" using x by (meson split_list_first)
  have R: "tsq_ok h q (us @ x # vs)" "small_heap h"
    and F: "\<And>y. y \<in> F \<Longrightarrow> unlinked h y \<and> y \<notin> foot q xs"
    using rep sp by (auto simp: queue_rep_def)
  obtain q' h' where S: "eraseWithoutLock x False q h = Some (True, q', h')" "tsq_ok h' q' (us @ vs)"
    "unlinked h' x" "same_queue q q'" "only_changes (foot q (us @ x # vs)) h h'"
    using erase_member_ok [OF R, of False] by auto
  have "queue_rep (q', h') (us @ vs, insert x F)"
    by (rule queue_repI [OF S(2,4,5) R(2)])
      (use F S(3) sp tsq_ok_distinct [OF R(1)] unlinked_only_changes [OF _ S(5)] in \<open>auto simp: foot_def\<close>)
  moreover have "remove1 x xs = us @ vs" using sp by (simp add: remove1_append)
  ultimately show ?thesis using S(1) by (simp add: tsq_erase_def)
qed

lemma queue_sim:
  assumes "queue_rep s a" "qspec x a = Some (r, a')"
  shows "\<exists>s'. qstep x s = Some (r, s') \<and> queue_rep s' a'"
proof -
  obtain q h where s: "s = (q, h)" by (cases s)
  obtain xs F where a: "a = (xs, F)" by (cases a)
  note rep = assms(1) [unfolded s a]
  have ok: "tsq_ok h q xs" "small_heap h" using rep by (simp_all add: queue_rep_def)
  show ?thesis
  proof (cases x)
    case (QPush y)
    then show ?thesis using queue_push_sim [OF rep, of y] assms(2) by (auto simp: s a split: if_splits)
  next
    case QPop
    then show ?thesis using queue_pop_sim [of q h _ _ F] tsq_pop_empty [of h q] ok rep assms(2)
      by (cases xs) (fastforce simp: s a)+
  next
    case (QErase y)
    show ?thesis
    proof (cases "y \<in> set xs")
      case True
      then show ?thesis using queue_erase_sim [OF rep, of y] assms(2) QErase by (auto simp: s a)
    next
      case False
      then have "y \<in> F" "r = RBool False" "a' = a"
        using assms(2) QErase by (auto simp: a split: if_splits)
      moreover have "unlinked h y" using rep \<open>y \<in> F\<close> by (simp add: queue_rep_def)
      ultimately show ?thesis using erase_unlinked [of h y False q] rep QErase
        by (simp add: s a tsq_erase_def)
    qed
  next
    case QSize
    then show ?thesis using ok assms rep by (auto simp: s a tsq_size_def tsq_okD(4))
  next
    case QEmpty
    then show ?thesis using ok assms rep tsq_ok_empty [OF ok] by (auto simp: s a)
  qed
qed

interpretation tsq: data_refinement queue_rep qstep qspec
  by unfold_locales (rule queue_sim)

section \<open>Properties\<close>

definition three_hooks :: heap where
  "three_hooks = [0 \<mapsto> new_hook, 1 \<mapsto> new_hook, 2 \<mapsto> new_hook]"

definition fresh_queue :: tsqueue where
  "fresh_queue = \<lparr>qhead = 0, qtail = 0, qcount = 0, qcheck = Some 9\<rparr>"

lemma fresh_queue_new: "tsq_new 9 0 (three_hooks(0 := None)) = Some (fresh_queue, three_hooks)"
  by (simp add: tsq_new_def three_hooks_def fresh_queue_def fun_eq_iff)

lemma fresh_queue_rep: "queue_rep (fresh_queue, three_hooks) ([], {1, 2})"
  by (simp add: queue_rep_def tsq_ok_def fresh_queue_def three_hooks_def small_heap_def unlinked_def
      new_hook_def foot_def linked_def)

text \<open>
  C4: Over every sequence of \<open>push\<close>, \<open>pop\<close>, \<open>erase\<close>, \<open>size\<close> and \<open>empty\<close> calls the pointer
  structure behaves as a FIFO list: every call returns what the list returns (the new length,
  the oldest element or null, whether the element was queued), no assertion fails, no null
  pointer is followed, and the pointers still represent the list afterwards.
\<close>

theorem tsqueue_refines_list:
  assumes "queue_rep (q, h) (xs, F)" and "run qspec ops (xs, F) = Some (rs, ys, G)"
  shows "\<exists>q' h'. run qstep ops (q, h) = Some (rs, q', h') \<and> queue_rep (q', h') (ys, G)"
  using tsq.run_sim [OF assms] by auto

lemma tsqueue_refines_list_witness:
  "\<exists>q' h'. run qstep [QPush 1, QPush 2, QErase 1, QPush 1, QPop, QErase 2, QSize] (fresh_queue, three_hooks)
     = Some ([RSize 1, RSize 2, RBool True, RSize 2, RPtr (Some 2), RBool False, RSize 1], q', h')
     \<and> queue_rep (q', h') ([1], {2})"
  by (rule tsqueue_refines_list [OF fresh_queue_rep]) auto

text \<open>
  C25: Stealing: taking \<open>n\<close> elements from the back of one queue and pushing the batch onto another
  one moves exactly the last \<open>max 1 n\<close> elements (all, when there are fewer), in order, and both
  structures stay well formed: nothing is lost or duplicated.
\<close>

theorem tsqueue_steal_moves_batch:
  assumes "tsq_ok h q xs" and "tsq_ok h r ys" and "foot q xs \<inter> foot r ys = {}" and "xs \<noteq> []"
  shows "\<exists>l l' q' r' h1 h2.
      tsq_pop_back n q h = Some (l, q', h1) \<and> tsq_push_list l r h1 = Some (l', r', h2)
    \<and> tsq_ok h2 q' (take (length xs - batch n xs) xs)
    \<and> tsq_ok h2 r' (ys @ drop (length xs - batch n xs) xs) \<and> slist_ok h2 l' []"
proof -
  let ?us = "take (length xs - batch n xs) xs" and ?bs = "drop (length xs - batch n xs) xs"
  obtain l q' h1 where 1: "pop_backWithoutLock n q h = Some (l, q', h1)" "tsq_ok h1 q' ?us"
    "slist_ok h1 l ?bs" "same_queue q q'" "only_changes (foot q xs) h h1"
    using pop_backWithoutLock_ok [OF assms(1,4), of n] by blast
  have ne: "?bs \<noteq> []" using batch_pos [OF assms(4), of n] assms(4) by (simp add: not_le)
  have sub: "set ?bs \<subseteq> foot q xs" by (auto simp: foot_def dest: in_set_dropD)
  have r1: "tsq_ok h1 r ys" using tsq_ok_only_changes [OF assms(2) 1(5) assms(3)] .
  have disj: "foot r ys \<inter> set ?bs = {}" using sub assms(3) by blast
  obtain l' r' h2 where 2: "pushListWithoutLock l r h1 = Some (l', r', h2)" "tsq_ok h2 r' (ys @ ?bs)"
    "slist_ok h2 l' []" "only_changes (foot r ys \<union> set ?bs) h1 h2"
    using pushListWithoutLock_ok [OF r1 1(3) disj] by blast
  have "set ?us \<inter> set ?bs = {}"
    using tsq_ok_distinct [OF assms(1)] by (intro set_take_disj_set_drop_if_distinct) auto
  moreover have "qhead q \<notin> set ?bs" using tsq_ok_distinct [OF assms(1)] by (auto dest: in_set_dropD)
  moreover have foot': "foot q' ?us = insert (qhead q) (set ?us)"
    using 1(4) by (simp add: foot_def same_queue_def)
  ultimately have "set ?bs \<inter> foot q' ?us = {}" by (simp add: Int_commute)
  moreover have "foot q' ?us \<subseteq> foot q xs"
    unfolding foot' by (simp add: foot_def set_take_subset subset_insertI2)
  then have "foot r ys \<inter> foot q' ?us = {}" using assms(3) by blast
  ultimately have "(foot r ys \<union> set ?bs) \<inter> foot q' ?us = {}" by (simp add: Int_Un_distrib2)
  then have "tsq_ok h2 q' ?us" by (rule tsq_ok_only_changes [OF 1(2) 2(4)])
  moreover have "tsq_pop_back n q h = Some (l, q', h1)"
    using tsq_ok_no_elements [OF assms(1)] assms(4) 1(1) by (simp add: tsq_pop_back_def)
  moreover have "\<not> slist_empty l" using slist_ok_empty [OF 1(3)] ne by blast
  then have "tsq_push_list l r h1 = Some (l', r', h2)" using 2(1) by (simp add: tsq_push_list_def)
  ultimately show ?thesis using 2(2,3) by blast
qed

definition four_hooks :: heap where
  "four_hooks = [0 \<mapsto> \<lparr>hprev = None, hnext = Some 1, hcheck = None\<rparr>,
                 1 \<mapsto> \<lparr>hprev = Some 0, hnext = Some 2, hcheck = Some 9\<rparr>,
                 2 \<mapsto> \<lparr>hprev = Some 1, hnext = None, hcheck = Some 9\<rparr>,
                 3 \<mapsto> new_hook]"

lemma tsqueue_steal_moves_batch_witness:
  "\<exists>l l' q' r' h1 h2.
      tsq_pop_back 1 \<lparr>qhead = 0, qtail = 2, qcount = 2, qcheck = Some 9\<rparr> four_hooks = Some (l, q', h1)
    \<and> tsq_push_list l \<lparr>qhead = 3, qtail = 3, qcount = 0, qcheck = Some 8\<rparr> h1 = Some (l', r', h2)
    \<and> tsq_ok h2 q' [1] \<and> tsq_ok h2 r' [2] \<and> slist_ok h2 l' []"
proof -
  have "tsq_ok four_hooks \<lparr>qhead = 0, qtail = 2, qcount = 2, qcheck = Some 9\<rparr> [1, 2]"
    "tsq_ok four_hooks \<lparr>qhead = 3, qtail = 3, qcount = 0, qcheck = Some 8\<rparr> []"
    by (simp_all add: tsq_ok_def four_hooks_def linked_def new_hook_def)
  from tsqueue_steal_moves_batch [OF this, of 1] show ?thesis by (simp add: foot_def batch_def)
qed

lemma assert_link_holds_witness:
  "AssertLink \<lparr>qhead = 0, qtail = 2, qcount = 2, qcheck = Some 9\<rparr> four_hooks = Some ()"
  by (rule assert_link_holds [of _ _ "[1, 2]"]) (simp add: tsq_ok_def four_hooks_def linked_def)

end
