(* ===== verification/Processer.thy ===== *)
theory Processer
  imports Task_Pool Timer Ts_Queue
begin

text \<open>
  \<open>Processer\<close> of \<open>scheduler/processer.h\<close> and \<open>scheduler/processer.cpp\<close>: one thread's scheduler. Its
  two queues are the lists of task addresses that the task queue theory shows \<open>TSQueue\<close> to
  represent, with the operations in their list form. What a task does between two switches is a
  parameter: the calls it makes on the runtime and whether its function returned. The default
  build is modelled (task cache on, no task GC, no debugger).
\<close>

section \<open>Queues\<close>

text \<open>The list forms of the \<open>TSQueue\<close> operations the processer uses.\<close>

definition take_back :: "uint32 \<Rightarrow> 'a list \<Rightarrow> 'a list \<times> 'a list" where
  "take_back n xs = (let k = min (max 1 (unat n)) (length xs)
     in (drop (length xs - k) xs, take (length xs - k) xs))"

definition erase_elem :: "'a \<Rightarrow> 'a list \<Rightarrow> bool \<times> 'a list" where
  "erase_elem x xs = (x \<in> set xs, remove1 x xs)"

fun elem_next :: "'a \<Rightarrow> 'a list \<Rightarrow> 'a option" where
  "elem_next x [] = None"
| "elem_next x (y # ys) = (if x = y then (case ys of [] \<Rightarrow> None | z # _ \<Rightarrow> Some z) else elem_next x ys)"

definition elem_front :: "'a list \<Rightarrow> 'a option" where
  "elem_front xs = (case xs of [] \<Rightarrow> None | x # _ \<Rightarrow> Some x)"

section \<open>State\<close>

record proc =
  p_id :: int
  p_active :: bool
  runningTask :: "addr option"
  nextTask :: "addr option"
  runnableQueue :: "addr list"
  newQueue :: "addr list"
  markTick :: int
  markSwitch :: uint64
  switchCount :: uint64
  p_timers :: timer_manager

definition proc_new :: "int \<Rightarrow> proc" where
  "proc_new i = \<lparr>p_id = i, p_active = True, runningTask = None, nextTask = None, runnableQueue = [],
     newQueue = [], markTick = 0, markSwitch = 0, switchCount = 0, p_timers = tm_new\<rparr>"

section \<open>Operations\<close>

definition proc_AddTask :: "addr \<Rightarrow> proc \<Rightarrow> proc" where
  "proc_AddTask tk p = p\<lparr>newQueue := newQueue p @ [tk]\<rparr>"

definition proc_AddTasks :: "addr list \<Rightarrow> proc \<Rightarrow> proc" where
  "proc_AddTasks ts p = p\<lparr>newQueue := newQueue p @ ts\<rparr>"

definition AddNewTasks :: "proc \<Rightarrow> bool \<times> proc" where
  "AddNewTasks p =
     (if newQueue p = [] then (False, p)
      else (True, p\<lparr>runnableQueue := runnableQueue p @ newQueue p, newQueue := []\<rparr>))"

definition RunnableSize :: "proc \<Rightarrow> size_t" where
  "RunnableSize p = of_nat (length (runnableQueue p)) + of_nat (length (newQueue p))"

definition GetCurrentTask :: "proc option \<Rightarrow> addr option" where
  "GetCurrentTask pr = (case pr of None \<Rightarrow> None | Some p \<Rightarrow> runningTask p)"

definition IsCoroutine :: "proc option \<Rightarrow> bool" where
  "IsCoroutine pr \<longleftrightarrow> GetCurrentTask pr \<noteq> None"

definition SuspendBySelfIO :: "addr \<Rightarrow> proc \<Rightarrow> 'f world \<Rightarrow> (proc \<times> 'f world) option" where
  "SuspendBySelfIO tk p w = do {
     assert_c (runningTask p = Some tk);
     s \<leftarrow> task_state_of tk w;
     assert_c (s = Runnable);
     w \<leftarrow> upd_task tk (\<lambda>k. k\<lparr>t_state := Block, t_suspendId := t_suspendId k + 1\<rparr>) w;
     let p = p\<lparr>nextTask := elem_next tk (runnableQueue p)\<rparr>;
     let (ret, q) = erase_elem tk (runnableQueue p);
     assert_c ret;
     Some (p\<lparr>runnableQueue := q\<rparr>, w) }"

definition WakeupBySelfIO :: "addr \<Rightarrow> proc \<Rightarrow> 'f world \<Rightarrow> (proc \<times> 'f world) option" where
  "WakeupBySelfIO tk p w = do {
     w \<leftarrow> upd_task tk (\<lambda>k. k\<lparr>t_state := Runnable\<rparr>) w;
     Some (p\<lparr>runnableQueue := runnableQueue p @ [tk]\<rparr>, w) }"

definition proc_sleep :: "int \<Rightarrow> int \<Rightarrow> addr \<Rightarrow> proc \<Rightarrow> 'f world \<Rightarrow> (proc \<times> 'f world) option" where
  "proc_sleep clock ms tk p w =
     (if ms > 0 then do {
        k \<leftarrow> tasks w tk;
        assert_c (t_proc k \<noteq> None);
        (p, w) \<leftarrow> SuspendBySelfIO tk p w;
        Some (p\<lparr>p_timers := AddSleeper clock (ms * 1000000) tk (p_timers p)\<rparr>, w) }
      else Some (p, w))"

definition AddMilliTimer :: "int \<Rightarrow> nat \<Rightarrow> int \<Rightarrow> nat \<Rightarrow> ptr \<Rightarrow> proc \<Rightarrow> timer \<times> proc" where
  "AddMilliTimer clock self duration cb param p =
     (let (tm, m) = AddTimer clock (duration * 1000000) cb param (p_timers p)
      in (tm\<lparr>t_processer := Some self\<rparr>, p\<lparr>p_timers := m\<rparr>))"

definition proc_StopTimer :: "timer \<Rightarrow> proc \<Rightarrow> (bool \<times> timer \<times> proc) option" where
  "proc_StopTimer tm p = do {
     (b, tm, m) \<leftarrow> tm_StopTimer tm (p_timers p);
     Some (b, tm, p\<lparr>p_timers := m\<rparr>) }"

subsection \<open>Watching for a blocked processer\<close>

definition IsBlocking :: "int \<Rightarrow> int \<Rightarrow> proc \<Rightarrow> bool" where
  "IsBlocking cycle_timeout_us now p =
     (if markSwitch p = 0 \<or> markSwitch p \<noteq> switchCount p \<or> runningTask p = None then False
      else now > markTick p + cycle_timeout_us)"

definition Mark :: "int \<Rightarrow> proc \<Rightarrow> proc" where
  "Mark now p =
     (if runningTask p \<noteq> None \<and> markSwitch p \<noteq> switchCount p
      then p\<lparr>markSwitch := switchCount p, markTick := now\<rparr> else p)"

subsection \<open>Stealing\<close>

text \<open>
  The running and the next task are taken out of the queue while tasks are stolen from its back,
  and put back at its end afterwards.
\<close>

definition protect :: "proc \<Rightarrow> addr list \<Rightarrow> bool \<times> bool \<times> addr list" where
  "protect p q =
     (let (pushRunningTask, q) = (case runningTask p of None \<Rightarrow> (False, q) | Some t \<Rightarrow> erase_elem t q);
          (pushNextTask, q) = (case nextTask p of None \<Rightarrow> (False, q) | Some t \<Rightarrow> erase_elem t q)
      in (pushRunningTask, pushNextTask, q))"

definition unprotect :: "proc \<Rightarrow> bool \<Rightarrow> bool \<Rightarrow> addr list \<Rightarrow> addr list" where
  "unprotect p pushRunningTask pushNextTask q =
     (let q = (case runningTask p of Some t \<Rightarrow> if pushRunningTask then q @ [t] else q | None \<Rightarrow> q);
          q = (case nextTask p of Some t \<Rightarrow> if pushNextTask then q @ [t] else q | None \<Rightarrow> q)
      in q)"

definition Steal :: "size_t \<Rightarrow> proc \<Rightarrow> addr list \<times> proc" where
  "Steal n p =
     (if n > 0 then
        (let (slist, nq) = take_back (ucast n) (newQueue p);
             p = p\<lparr>newQueue := nq\<rparr>
         in if of_nat (length slist) \<ge> n then (slist, p)
            else (let (pr, pn, q) = protect p (runnableQueue p);
                      (slist2, q) = take_back (ucast (n - of_nat (length slist))) q;
                      q = unprotect p pr pn q
                  in (slist2 @ slist, p\<lparr>runnableQueue := q\<rparr>)))
      else
        (let slist = newQueue p;
             p = p\<lparr>newQueue := []\<rparr>;
             (pr, pn, q) = protect p (runnableQueue p);
             slist2 = q;
             q = unprotect p pr pn []
         in (slist2 @ slist, p\<lparr>runnableQueue := q\<rparr>)))"

section \<open>Running tasks\<close>

text \<open>
  What a task may do in a slice: create tasks that \<open>Scheduler::AddTask\<close> gives to this processer,
  wake tasks that left the runnable queue, and at the end yield, suspend itself, sleep (clock
  reading and milliseconds), or return from its function.
\<close>

datatype 'f task_call = Call_New "'f task_arg" cint | Call_Wake addr

datatype slice_end = Yields | Suspends | Sleeps int int | Returns

type_synonym 'f slice = "'f task_call list \<times> slice_end"

primrec do_task_call :: "env \<Rightarrow> 'f task_call \<Rightarrow> proc \<Rightarrow> 'f world \<Rightarrow> (proc \<times> 'f world) option" where
  "do_task_call e (Call_New arg n) p w = do {
     (tk, w) \<leftarrow> create_task e arg n w;
     Some (proc_AddTask tk p, w) }"
| "do_task_call e (Call_Wake t) p w = WakeupBySelfIO t p w"

primrec do_task_calls :: "env \<Rightarrow> 'f task_call list \<Rightarrow> proc \<Rightarrow> 'f world \<Rightarrow> (proc \<times> 'f world) option" where
  "do_task_calls e [] p w = Some (p, w)"
| "do_task_calls e (c # cs) p w = Option.bind (do_task_call e c p w) (\<lambda>(p, w). do_task_calls e cs p w)"

text \<open>From \<open>SwapIn\<close> to the task's next \<open>SwapOut\<close>.\<close>

definition run_slice :: "env \<Rightarrow> 'f slice \<Rightarrow> addr \<Rightarrow> proc \<Rightarrow> 'f world \<Rightarrow> (proc \<times> 'f world) option" where
  "run_slice e sl tk p w = do {
     (p, w) \<leftarrow> do_task_calls e (fst sl) p w;
     (p, w) \<leftarrow> (case snd sl of
          Yields \<Rightarrow> Some (p, w)
        | Suspends \<Rightarrow> SuspendBySelfIO tk p w
        | Sleeps clock ms \<Rightarrow> proc_sleep clock ms tk p w
        | Returns \<Rightarrow> map_option (Pair p) (upd_task tk (\<lambda>k. k\<lparr>t_fn := TaskF None, t_state := TDone\<rparr>) w));
     w \<leftarrow> upd_task tk (\<lambda>k. k\<lparr>t_yieldCount := t_yieldCount k + 1\<rparr>) w;
     Some (p, w) }"

text \<open>
  One turn of the inner loop of \<open>Process\<close>: \<open>self\<close> is the processer's index, which the task keeps.
\<close>

definition process_step :: "env \<Rightarrow> nat \<Rightarrow> 'f slice \<Rightarrow> addr \<Rightarrow> proc \<Rightarrow> 'f world \<Rightarrow> (proc \<times> 'f world) option" where
  "process_step e self sl tk p w = do {
     w \<leftarrow> upd_task tk (\<lambda>k. k\<lparr>t_state := Runnable, t_proc := Some self\<rparr>) w;
     let p = p\<lparr>switchCount := switchCount p + 1\<rparr>;
     (p, w) \<leftarrow> run_slice e sl tk p w;
     s \<leftarrow> task_state_of tk w;
     (case s of
        Block \<Rightarrow> Some (p\<lparr>runningTask := nextTask p, nextTask := None\<rparr>, w)
      | Runnable \<Rightarrow> Some (p\<lparr>runningTask := elem_next tk (runnableQueue p)\<rparr>, w)
      | TDone \<Rightarrow> do {
          let p = p\<lparr>nextTask := elem_next tk (runnableQueue p)\<rparr>;
          let p = p\<lparr>runnableQueue := snd (erase_elem tk (runnableQueue p))\<rparr>;
          let w = w\<lparr>taskCount := taskCount w - 1\<rparr>;
          w \<leftarrow> Add2FreeTaskList tk w;
          Some (p\<lparr>runningTask := nextTask p, nextTask := None\<rparr>, w) }) }"

text \<open>
  The inner loop. \<open>prog\<close> yields the slice a task runs next and the tasks' remaining programs
  (\<open>'s\<close>); the result lists the tasks in the order they were run.
\<close>

partial_function (option) process_round ::
  "env \<Rightarrow> nat \<Rightarrow> (addr \<Rightarrow> 's \<Rightarrow> 'f slice \<times> 's) \<Rightarrow> 's \<Rightarrow> proc \<Rightarrow> 'f world \<Rightarrow> (addr list \<times> 's \<times> proc \<times> 'f world) option" where
  "process_round e self prog s p w =
     (case runningTask p of
        None \<Rightarrow> Some ([], s, p, w)
      | Some tk \<Rightarrow>
          if stopped w then Some ([], s, p, w)
          else Option.bind (process_step e self (fst (prog tk s)) tk p w) (\<lambda>r.
            Option.bind (process_round e self prog (snd (prog tk s)) (fst r) (snd r)) (\<lambda>u.
              Some (tk # fst u, snd u))))"

text \<open>
  One turn of the outer loop. With nothing runnable and nothing new the processer waits for IO
  (\<open>io\<close>: the tasks that \<open>WaitLoop\<close> wakes) and for timers.
\<close>

primrec wake_all :: "addr list \<Rightarrow> proc \<Rightarrow> 'f world \<Rightarrow> (proc \<times> 'f world) option" where
  "wake_all [] p w = Some (p, w)"
| "wake_all (t # ts) p w = Option.bind (WakeupBySelfIO t p w) (\<lambda>(p, w). wake_all ts p w)"

definition proc_WakeupTimers ::
  "(nat \<Rightarrow> ptr \<Rightarrow> proc \<times> 'f world \<Rightarrow> (proc \<times> 'f world) \<times> timer_call list) \<Rightarrow> int \<Rightarrow> proc \<Rightarrow> 'f world
     \<Rightarrow> (proc \<times> 'f world) option" where
  "proc_WakeupTimers cb now p w = do {
     (m, p, w) \<leftarrow> WakeupTimers cb (\<lambda>tk (p, w). WakeupBySelfIO tk p w) now (p_timers p) (p, w);
     Some (p\<lparr>p_timers := m\<rparr>, w) }"

definition process_turn ::
  "env \<Rightarrow> nat \<Rightarrow> (addr \<Rightarrow> 's \<Rightarrow> 'f slice \<times> 's) \<Rightarrow> addr list
     \<Rightarrow> (nat \<Rightarrow> ptr \<Rightarrow> proc \<times> 'f world \<Rightarrow> (proc \<times> 'f world) \<times> timer_call list) \<Rightarrow> int
     \<Rightarrow> 's \<Rightarrow> proc \<Rightarrow> 'f world \<Rightarrow> (addr list \<times> 's \<times> proc \<times> 'f world) option" where
  "process_turn e self prog io cb now s p w = do {
     let p = p\<lparr>runningTask := elem_front (runnableQueue p)\<rparr>;
     let p = (if runningTask p = None
              then (let (b, p) = AddNewTasks p
                    in if b then p\<lparr>runningTask := elem_front (runnableQueue p)\<rparr> else p)
              else p);
     if runningTask p = None then do {
       (p, w) \<leftarrow> wake_all io p w;
       (p, w) \<leftarrow> proc_WakeupTimers cb now p w;
       Some ([], s, p, w) }
     else do {
       (ts, s, p, w) \<leftarrow> process_round e self prog s p w;
       let p = (if \<not> stopped w then snd (AddNewTasks p) else p);
       Some (ts, s, p, w) } }"

text \<open>At the end of the thread the queued tasks are deleted.\<close>

primrec delete_all :: "addr list \<Rightarrow> 'f world \<Rightarrow> 'f world option" where
  "delete_all [] w = Some w"
| "delete_all (t # ts) w =
     (if tasks w t = None then None else delete_all ts (w\<lparr>tasks := (tasks w)(t := None)\<rparr>))"

definition ReleaseTask :: "proc \<Rightarrow> 'f world \<Rightarrow> (proc \<times> 'f world) option" where
  "ReleaseTask p w = do {
     w \<leftarrow> delete_all (runnableQueue p) w;
     w \<leftarrow> delete_all (newQueue p) w;
     Some (p\<lparr>runnableQueue := [], newQueue := []\<rparr>, w) }"

section \<open>What stealing does\<close>

lemma take_back_mset: "take_back n xs = (a, b) \<Longrightarrow> mset xs = mset a + mset b"
  unfolding take_back_def Let_def
  by (metis Pair_inject append_take_drop_id mset_append union_commute)

lemma take_back_set: "take_back n xs = (a, b) \<Longrightarrow> set a \<subseteq> set xs \<and> set b \<subseteq> set xs"
  by (auto simp: take_back_def Let_def dest: in_set_dropD in_set_takeD)

lemma take_back_length: "take_back n xs = (a, b) \<Longrightarrow> length a = min (max 1 (unat n)) (length xs)"
  by (auto simp: take_back_def Let_def)

lemma erase_elem_mset:
  "erase_elem x xs = (b, ys) \<Longrightarrow> mset xs = mset ys + (if b then {#x#} else {#})"
  by (auto simp: erase_elem_def)

definition erase_opt :: "'a option \<Rightarrow> 'a list \<Rightarrow> bool \<times> 'a list" where
  "erase_opt t q = (case t of None \<Rightarrow> (False, q) | Some t \<Rightarrow> erase_elem t q)"

lemma protect_erase_opt:
  "protect p q = (let (a, q) = erase_opt (runningTask p) q; (b, q) = erase_opt (nextTask p) q in (a, b, q))"
  by (auto simp: protect_def erase_opt_def Let_def split: prod.splits option.splits)

lemma protect_mset:
  assumes "protect p q = (a, b, q')"
  shows "mset q = mset q' + (case runningTask p of Some t \<Rightarrow> if a then {#t#} else {#} | None \<Rightarrow> {#})
    + (case nextTask p of Some t \<Rightarrow> if b then {#t#} else {#} | None \<Rightarrow> {#})"
proof -
  have opt: "erase_opt t q = (b, q') \<Longrightarrow> mset q = mset q' + (case t of Some t \<Rightarrow> if b then {#t#} else {#} | None \<Rightarrow> {#})"
    for t b and q q' :: "addr list"
    by (cases t) (auto dest: erase_elem_mset simp: erase_opt_def)
  obtain q1 where "erase_opt (runningTask p) q = (a, q1)" "erase_opt (nextTask p) q1 = (b, q')"
    using assms by (auto simp: protect_erase_opt split: prod.splits)
  from opt [OF this(1)] opt [OF this(2)] show ?thesis by simp
qed

lemma protect_not_in:
  assumes "protect p q = (a, b, q')" "distinct q"
  shows "runningTask p = Some t \<Longrightarrow> t \<notin> set q'" "nextTask p = Some t \<Longrightarrow> t \<notin> set q'" "distinct q'"
  using assms by (auto simp: protect_def erase_elem_def split: option.splits)

lemma unprotect_mset:
  "mset (unprotect p a b q) = mset q + (case runningTask p of Some t \<Rightarrow> if a then {#t#} else {#} | None \<Rightarrow> {#})
    + (case nextTask p of Some t \<Rightarrow> if b then {#t#} else {#} | None \<Rightarrow> {#})"
  by (auto simp: unprotect_def Let_def split: option.splits)

lemma Steal_conserves:
  assumes "Steal n p = (st, p')"
  shows "mset st + mset (runnableQueue p') + mset (newQueue p') = mset (runnableQueue p) + mset (newQueue p)"
proof -
  obtain sl nq where tb: "take_back (ucast n) (newQueue p) = (sl, nq)" by (cases "take_back (ucast n :: uint32) (newQueue p)")
  define p1 where "p1 = p\<lparr>newQueue := (if n > 0 then nq else [])\<rparr>"
  obtain a b q where pr: "protect p1 (runnableQueue p) = (a, b, q)" by (cases "protect p1 (runnableQueue p)")
  obtain s2 q2 where tb2: "take_back (ucast (n - of_nat (length sl))) q = (s2, q2)"
    by (cases "take_back (ucast (n - of_nat (length sl)) :: uint32) q")
  have nn: "n > 0 \<Longrightarrow> mset (newQueue p) = mset sl + mset nq" using take_back_mset [OF tb] by simp
  note P = protect_mset [OF pr]
  show ?thesis
  proof (cases "n > 0")
    case True
    show ?thesis
    proof (cases "of_nat (length sl) \<ge> n")
      case True
      then show ?thesis using assms tb nn \<open>n > 0\<close> by (auto simp: Steal_def)
    next
      case False
      then have "st = s2 @ sl" "runnableQueue p' = unprotect p1 a b q2" "newQueue p' = nq"
        using assms tb tb2 pr \<open>n > 0\<close> by (auto simp: Steal_def p1_def Let_def)
      then show ?thesis using nn [OF True] P take_back_mset [OF tb2] by (simp add: unprotect_mset)
    qed
  next
    case False
    then have "st = q @ newQueue p" "runnableQueue p' = unprotect p1 a b []" "newQueue p' = []"
      using assms pr by (auto simp: Steal_def p1_def Let_def)
    then show ?thesis using P by (simp add: unprotect_mset)
  qed
qed

text \<open>The running and the next task are never stolen from the runnable queue.\<close>

lemma Steal_keeps_running:
  assumes "Steal n p = (st, p')" "distinct (runnableQueue p @ newQueue p)"
    "runningTask p = Some t \<or> nextTask p = Some t" "t \<in> set (runnableQueue p)"
  shows "t \<notin> set st \<and> t \<in> set (runnableQueue p')"
proof -
  have out: "t \<notin> set (newQueue p)" using assms(2,4) by auto
  have m: "mset st + mset (runnableQueue p') + mset (newQueue p') = mset (runnableQueue p) + mset (newQueue p)"
    by (rule Steal_conserves [OF assms(1)])
  obtain sl nq where tb: "take_back (ucast n) (newQueue p) = (sl, nq)" by (cases "take_back (ucast n :: uint32) (newQueue p)")
  define p1 where "p1 = p\<lparr>newQueue := (if n > 0 then nq else [])\<rparr>"
  obtain a b q where pr: "protect p1 (runnableQueue p) = (a, b, q)" by (cases "protect p1 (runnableQueue p)")
  obtain s2 q2 where tb2: "take_back (ucast (n - of_nat (length sl))) q = (s2, q2)"
    by (cases "take_back (ucast (n - of_nat (length sl)) :: uint32) q")
  have d: "distinct (runnableQueue p)" using assms(2) by simp
  have "runningTask p1 = runningTask p" "nextTask p1 = nextTask p" by (simp_all add: p1_def)
  then have tq: "t \<notin> set q" using protect_not_in(1,2) [OF pr d] assms(3) by metis
  have "t \<notin> set st"
    using assms(1) tb tb2 pr tq out take_back_set [OF tb] take_back_set [OF tb2]
    by (auto simp: Steal_def p1_def Let_def split: if_splits)
  moreover have "newQueue p' = nq \<or> newQueue p' = []"
    using assms(1) tb tb2 pr by (auto simp: Steal_def p1_def Let_def split: if_splits)
  then have "t \<notin> set (newQueue p')" using out take_back_set [OF tb] by auto
  moreover have "t \<in> set st \<union> set (runnableQueue p') \<union> set (newQueue p')"
    using m assms(4) by (metis UnCI set_mset_mset set_mset_union)
  ultimately show ?thesis by blast
qed

text \<open>How many tasks are stolen: as many as asked for, if the unprotected ones suffice.\<close>

lemma Steal_count:
  assumes "Steal n p = (st, p')" "0 < n" "unat n < 2 ^ 32"
  shows "length st = min (unat n) (length (newQueue p) + length (snd (snd (protect p (runnableQueue p)))))"
proof -
  obtain sl nq where tb: "take_back (ucast n) (newQueue p) = (sl, nq)" by (cases "take_back (ucast n :: uint32) (newQueue p)")
  define p1 where "p1 = p\<lparr>newQueue := nq\<rparr>"
  obtain a b q where pr: "protect p1 (runnableQueue p) = (a, b, q)" by (cases "protect p1 (runnableQueue p)")
  have pr': "snd (snd (protect p (runnableQueue p))) = q" using pr by (simp add: protect_def p1_def)
  obtain s2 q2 where tb2: "take_back (ucast (n - of_nat (length sl))) q = (s2, q2)"
    by (cases "take_back (ucast (n - of_nat (length sl)) :: uint32) q")
  have un: "unat (ucast n :: uint32) = unat n" using assms(3) by (simp add: unsigned_ucast_eq take_bit_nat_eq_self)
  have pos: "1 \<le> unat n" using assms(2) by (simp add: word_less_nat_alt)
  have sl: "length sl = min (unat n) (length (newQueue p))" using take_back_length [OF tb] un pos by simp
  have slw: "unat (of_nat (length sl) :: size_t) = length sl"
    by (rule unat_of_nat_64) (use sl unat_lt_64 [of n] in linarith)
  show ?thesis
  proof (cases "of_nat (length sl) \<ge> n")
    case True
    then have "st = sl" using assms(1,2) tb by (auto simp: Steal_def)
    moreover have "unat n \<le> length sl" using True slw by (simp add: word_le_nat_alt)
    ultimately show ?thesis using sl pr' by simp
  next
    case False
    then have lt: "length sl < unat n" using slw by (simp add: word_le_nat_alt)
    have st: "st = s2 @ sl" using assms(1,2) tb tb2 pr False by (auto simp: Steal_def p1_def Let_def)
    have d: "unat (n - of_nat (length sl)) = unat n - length sl"
      using lt slw by (simp add: unat_sub word_le_nat_alt)
    have "unat (ucast (n - of_nat (length sl)) :: uint32) = unat n - length sl"
      using assms(3) d by (simp add: unsigned_ucast_eq take_bit_nat_eq_self)
    then have "length s2 = min (unat n - length sl) (length q)"
      using take_back_length [OF tb2] lt by simp
    then show ?thesis using st sl lt pr' by simp
  qed
qed

section \<open>A round of the run loop\<close>

definition keeps :: "slice_end \<Rightarrow> bool" where
  "keeps k = (case k of Yields \<Rightarrow> True | Sleeps c ms \<Rightarrow> ms \<le> 0 | _ \<Rightarrow> False)"

definition only_new :: "'f task_call list \<Rightarrow> bool" where
  "only_new cs \<longleftrightarrow> (\<forall>c\<in>set cs. \<exists>arg n. c = Call_New arg n)"

text \<open>A task in use is alive and not on the free list.\<close>

definition in_use :: "addr \<Rightarrow> 'f world \<Rightarrow> bool" where
  "in_use t w \<longleftrightarrow> tasks w t \<noteq> None \<and> t \<notin> free_tasks w"

text \<open>The tasks of both queues are in use and queued once.\<close>

definition sched_ok :: "proc \<Rightarrow> 'f world \<Rightarrow> bool" where
  "sched_ok p w \<longleftrightarrow> pool_ok w \<and> distinct (runnableQueue p @ newQueue p)
     \<and> (\<forall>t\<in>set (runnableQueue p @ newQueue p). in_use t w)"

definition keeps_others :: "addr set \<Rightarrow> 'f world \<Rightarrow> 'f world \<Rightarrow> bool" where
  "keeps_others A w w' \<longleftrightarrow> stopped w' = stopped w \<and>
     (\<forall>t. in_use t w \<longrightarrow> t \<notin> A \<longrightarrow> tasks w' t = tasks w t \<and> t \<notin> free_tasks w')"

lemma keeps_others_refl [simp]: "keeps_others A w w"
  by (simp add: keeps_others_def in_use_def)

lemma keeps_others_trans: "keeps_others A w w1 \<Longrightarrow> keeps_others B w1 w2 \<Longrightarrow> A \<union> B \<subseteq> C \<Longrightarrow> keeps_others C w w2"
  unfolding keeps_others_def in_use_def by (metis UnI1 UnI2 subsetD)

lemma keeps_othersD: "keeps_others A w w' \<Longrightarrow> in_use t w \<Longrightarrow> t \<notin> A \<Longrightarrow> in_use t w' \<and> tasks w' t = tasks w t"
  by (simp add: keeps_others_def in_use_def)

lemma elem_next_mid [simp]: "x \<notin> set pre \<Longrightarrow> elem_next x (pre @ x # rest) = elem_front rest"
  by (induction pre) (auto simp: elem_front_def split: list.splits)

lemma erase_elem_mid [simp]: "x \<notin> set pre \<Longrightarrow> erase_elem x (pre @ x # rest) = (True, pre @ rest)"
  by (simp add: erase_elem_def remove1_append)

lemma do_new_call_ok:
  assumes "sched_ok p w" "env_ok e"
  shows "\<exists>tk w'. do_task_call e (Call_New arg n) p w = Some (p\<lparr>newQueue := newQueue p @ [tk]\<rparr>, w')
    \<and> sched_ok (p\<lparr>newQueue := newQueue p @ [tk]\<rparr>) w' \<and> keeps_others {} w w' \<and> \<not> in_use tk w
    \<and> taskCount w' = taskCount w + 1 \<and> free_tasks w \<subseteq> free_tasks w' \<union> {tk}"
proof -
  obtain tk k w' where C: "create_task e arg n w = Some (tk, w')" "pool_ok w'" "tk \<notin> free_tasks w'"
    "taskCount w' = taskCount w + 1" "stopped w' = stopped w" "tasks w' tk = Some k"
    "if tk \<in> free_tasks w then free_tasks w' = free_tasks w - {tk}
     else tasks w tk = None \<and> free_tasks w' = free_tasks w"
    "\<forall>t. t \<noteq> tk \<longrightarrow> tasks w' t = tasks w t"
    using create_task_ok [of w e arg n] assms unfolding sched_ok_def by (smt (verit, best))
  have nu: "\<not> in_use tk w" using C(7) by (auto simp: in_use_def split: if_splits)
  have out: "tk \<notin> set (runnableQueue p @ newQueue p)"
    using nu assms(1) unfolding sched_ok_def by blast
  have fr: "free_tasks w' \<subseteq> free_tasks w" using C(7) by (auto split: if_splits)
  have "sched_ok (p\<lparr>newQueue := newQueue p @ [tk]\<rparr>) w'"
    using assms(1) out C fr unfolding sched_ok_def in_use_def by auto
  moreover have "keeps_others {} w w'"
    using C(5,8) fr nu unfolding keeps_others_def in_use_def by (metis subsetD)
  moreover have "free_tasks w \<subseteq> free_tasks w' \<union> {tk}" using C(7) by (auto split: if_splits)
  ultimately show ?thesis using C(1,4) nu by (intro exI [of _ tk] exI [of _ w']) (simp add: proc_AddTask_def)
qed

lemma do_new_calls_ok:
  assumes "sched_ok p w" "env_ok e" "only_new cs"
  shows "\<exists>new w'. do_task_calls e cs p w = Some (p\<lparr>newQueue := newQueue p @ new\<rparr>, w')
    \<and> sched_ok (p\<lparr>newQueue := newQueue p @ new\<rparr>) w' \<and> keeps_others {} w w'
    \<and> length new = length cs \<and> taskCount w' = taskCount w + of_nat (length cs)
    \<and> free_tasks w \<subseteq> free_tasks w' \<union> set new"
  using assms(1,3)
proof (induction cs arbitrary: p w)
  case Nil
  show ?case by (rule exI [of _ "[]"]) (use Nil in simp)
next
  case (Cons c cs)
  obtain arg n where c: "c = Call_New arg n" using Cons.prems(2) by (auto simp: only_new_def)
  obtain tk w1 where 1: "do_task_call e c p w = Some (p\<lparr>newQueue := newQueue p @ [tk]\<rparr>, w1)"
    "sched_ok (p\<lparr>newQueue := newQueue p @ [tk]\<rparr>) w1" "keeps_others {} w w1"
    "taskCount w1 = taskCount w + 1" "free_tasks w \<subseteq> free_tasks w1 \<union> {tk}"
    using do_new_call_ok [OF Cons.prems(1) assms(2), of arg n] c by blast
  have "only_new cs" using Cons.prems(2) by (simp add: only_new_def)
  from Cons.IH [OF 1(2) this] obtain new w2 where
    2: "do_task_calls e cs (p\<lparr>newQueue := newQueue p @ [tk]\<rparr>) w1 = Some (p\<lparr>newQueue := newQueue p @ tk # new\<rparr>, w2)"
    "sched_ok (p\<lparr>newQueue := newQueue p @ tk # new\<rparr>) w2" "keeps_others {} w1 w2"
    "length new = length cs" "taskCount w2 = taskCount w1 + of_nat (length cs)"
    "free_tasks w1 \<subseteq> free_tasks w2 \<union> set new"
    by auto
  have "keeps_others {} w w2" by (rule keeps_others_trans [OF 1(3) 2(3)]) simp
  moreover have "free_tasks w \<subseteq> free_tasks w2 \<union> set (tk # new)" using 1(5) 2(6) by auto
  ultimately show ?case using 1 2 by (intro exI [of _ "tk # new"] exI [of _ w2]) simp
qed

lemma sched_ok_upd_task:
  assumes "sched_ok p w" "in_use tk w"
  shows "\<exists>k. tasks w tk = Some k \<and> upd_task tk f w = Some (w\<lparr>tasks := (tasks w)(tk \<mapsto> f k)\<rparr>)
    \<and> sched_ok p (w\<lparr>tasks := (tasks w)(tk \<mapsto> f k)\<rparr>) \<and> in_use tk (w\<lparr>tasks := (tasks w)(tk \<mapsto> f k)\<rparr>)
    \<and> keeps_others {tk} w (w\<lparr>tasks := (tasks w)(tk \<mapsto> f k)\<rparr>)"
proof -
  obtain k where k: "tasks w tk = Some k" "tk \<notin> free_tasks w" using assms(2) by (auto simp: in_use_def)
  have u: "upd_task tk f w = Some (w\<lparr>tasks := (tasks w)(tk \<mapsto> f k)\<rparr>)" by (rule upd_task_Some [OF k(1)])
  have "pool_ok (w\<lparr>tasks := (tasks w)(tk \<mapsto> f k)\<rparr>)"
    by (rule pool_ok_upd_task [OF _ k(2) u]) (use assms(1) in \<open>simp add: sched_ok_def\<close>)
  then show ?thesis using k u assms(1)
    by (auto simp: sched_ok_def in_use_def keeps_others_def free_tasks_def)
qed


definition step_delta :: "'f slice \<Rightarrow> uint32" where
  "step_delta sl = of_nat (length (fst sl)) - (if snd sl = Returns then 1 else 0)"

definition after_slice :: "'f slice \<Rightarrow> addr \<Rightarrow> 'f world \<Rightarrow> bool" where
  "after_slice sl tk w \<longleftrightarrow>
     (if snd sl = Returns then tk \<in> free_tasks w
      else in_use tk w \<and> task_state_of tk w = Some (if keeps (snd sl) then Runnable else Block))"

lemma suspend_ok:
  assumes "sched_ok p w" "runnableQueue p = pre @ tk # rest" "runningTask p = Some tk"
    "task_state_of tk w = Some Runnable"
  shows "\<exists>w' k. tasks w tk = Some k
    \<and> SuspendBySelfIO tk p w = Some (p\<lparr>nextTask := elem_front rest, runnableQueue := pre @ rest\<rparr>, w')
    \<and> sched_ok (p\<lparr>nextTask := elem_front rest, runnableQueue := pre @ rest\<rparr>) w' \<and> keeps_others {tk} w w'
    \<and> in_use tk w' \<and> tasks w' tk = Some (k\<lparr>t_state := Block, t_suspendId := t_suspendId k + 1\<rparr>)
    \<and> taskCount w' = taskCount w \<and> free_tasks w' = free_tasks w"
proof -
  let ?f = "\<lambda>k. k\<lparr>t_state := Block, t_suspendId := t_suspendId k + 1\<rparr>"
  have "in_use tk w" "tk \<notin> set pre" using assms(1,2) by (auto simp: sched_ok_def)
  then show ?thesis
    using sched_ok_upd_task [OF assms(1), of tk ?f] assms
    by (auto simp: SuspendBySelfIO_def sched_ok_def free_tasks_def)
qed


text \<open>What the tasks do between two switches, then the processer's reaction.\<close>

lemma run_slice_ok:
  assumes ok: "sched_ok p w" "env_ok e" "only_new (fst sl)"
    and q: "runnableQueue p = pre @ tk # rest" "runningTask p = Some tk" "nextTask p = None"
    and k: "tasks w tk = Some k" "t_state k = Runnable" "t_proc k \<noteq> None"
  shows "\<exists>new p' w'. run_slice e sl tk p w = Some (p', w') \<and> sched_ok p' w'
    \<and> keeps_others {tk} w w' \<and> in_use tk w' \<and> length new = length (fst sl)
    \<and> newQueue p' = newQueue p @ new \<and> taskCount w' = taskCount w + of_nat (length new)
    \<and> switchCount p' = switchCount p \<and> runningTask p' = Some tk \<and> free_tasks w \<subseteq> free_tasks w' \<union> set new
    \<and> (if snd sl = Returns \<or> keeps (snd sl)
       then runnableQueue p' = runnableQueue p \<and> nextTask p' = None
         \<and> task_state_of tk w' = Some (if snd sl = Returns then TDone else Runnable)
       else runnableQueue p' = pre @ rest \<and> nextTask p' = elem_front rest \<and> task_state_of tk w' = Some Block)"
proof -
  obtain new w1 where c: "do_task_calls e (fst sl) p w = Some (p\<lparr>newQueue := newQueue p @ new\<rparr>, w1)"
    "sched_ok (p\<lparr>newQueue := newQueue p @ new\<rparr>) w1" "keeps_others {} w w1"
    "length new = length (fst sl)" "taskCount w1 = taskCount w + of_nat (length (fst sl))"
    "free_tasks w \<subseteq> free_tasks w1 \<union> set new"
    using do_new_calls_ok [OF ok] by blast
  define p1 where "p1 = p\<lparr>newQueue := newQueue p @ new\<rparr>"
  have p1: "runnableQueue p1 = pre @ tk # rest" "runningTask p1 = Some tk" "nextTask p1 = None"
    "newQueue p1 = newQueue p @ new" "switchCount p1 = switchCount p" "runnableQueue p = pre @ tk # rest"
    using q by (simp_all add: p1_def)
  have u: "in_use tk w" using ok(1) q(1) by (auto simp: sched_ok_def)
  have t: "in_use tk w1" "tasks w1 tk = Some k" using keeps_othersD [OF c(3) u] k by auto
  note C = c(1) [folded p1_def] and S = c(2) [folded p1_def]
  note U = sched_ok_upd_task [OF S t(1)]
  have fin: ?thesis
    if "(case snd sl of Yields \<Rightarrow> Some (p1, w1) | Suspends \<Rightarrow> SuspendBySelfIO tk p1 w1
        | Sleeps clock ms \<Rightarrow> proc_sleep clock ms tk p1 w1
        | Returns \<Rightarrow> map_option (Pair p1) (upd_task tk (\<lambda>k. k\<lparr>t_fn := TaskF None, t_state := TDone\<rparr>) w1)) = Some (p2, w2)"
      "sched_ok p2 w2" "keeps_others {tk} w1 w2" "in_use tk w2" "newQueue p2 = newQueue p1" "taskCount w2 = taskCount w1" "free_tasks w2 = free_tasks w1"
      "switchCount p2 = switchCount p1" "runningTask p2 = Some tk"
      "if snd sl = Returns \<or> keeps (snd sl)
       then runnableQueue p2 = runnableQueue p1 \<and> nextTask p2 = None
         \<and> task_state_of tk w2 = Some (if snd sl = Returns then TDone else Runnable)
       else runnableQueue p2 = pre @ rest \<and> nextTask p2 = elem_front rest \<and> task_state_of tk w2 = Some Block" for p2 w2
  proof -
    note T = that
    obtain k2 w3 where w3: "upd_task tk (\<lambda>k. k\<lparr>t_yieldCount := t_yieldCount k + 1\<rparr>) w2 = Some w3" "tasks w2 tk = Some k2"
      "w3 = w2\<lparr>tasks := (tasks w2)(tk \<mapsto> k2\<lparr>t_yieldCount := t_yieldCount k2 + 1\<rparr>)\<rparr>"
      "sched_ok p2 w3" "in_use tk w3" "keeps_others {tk} w2 w3"
      using sched_ok_upd_task [OF T(2,4)] by fastforce
    have "keeps_others {tk} w w2" by (rule keeps_others_trans [OF c(3) T(3)]) simp
    then have "keeps_others {tk} w w3" by (rule keeps_others_trans [OF _ w3(6)]) simp
    moreover have "task_state_of tk w3 = task_state_of tk w2" "taskCount w3 = taskCount w2" "free_tasks w3 = free_tasks w2"
      using w3(2,3) by (simp_all add: task_state_of_def free_tasks_def)
    moreover have "run_slice e sl tk p w = Some (p2, w3)"
      using C T(1) w3(1) by (simp add: run_slice_def)
    ultimately show ?thesis using T w3 p1 c(4,5,6) by auto
  qed
  show ?thesis
  proof (cases "snd sl")
    case Yields
    show ?thesis by (rule fin [of p1 w1]) (use Yields S t p1 k in \<open>auto simp: keeps_def task_state_of_def\<close>)
  next
    case Suspends
    obtain w2 where w2: "SuspendBySelfIO tk p1 w1 = Some (p1\<lparr>nextTask := elem_front rest, runnableQueue := pre @ rest\<rparr>, w2)"
      "sched_ok (p1\<lparr>nextTask := elem_front rest, runnableQueue := pre @ rest\<rparr>) w2" "keeps_others {tk} w1 w2"
      "in_use tk w2" "task_state_of tk w2 = Some Block" "taskCount w2 = taskCount w1" "free_tasks w2 = free_tasks w1"
      using suspend_ok [OF S p1(1,2)] t k by (auto simp: task_state_of_def)
    show ?thesis by (rule fin [of "p1\<lparr>nextTask := elem_front rest, runnableQueue := pre @ rest\<rparr>" w2]) (use Suspends w2 p1 in \<open>simp_all add: keeps_def\<close>)
  next
    case (Sleeps clock ms)
    show ?thesis
    proof (cases "ms > 0")
      case True
      obtain w2 where w2: "SuspendBySelfIO tk p1 w1 = Some (p1\<lparr>nextTask := elem_front rest, runnableQueue := pre @ rest\<rparr>, w2)"
        "sched_ok (p1\<lparr>nextTask := elem_front rest, runnableQueue := pre @ rest\<rparr>) w2" "keeps_others {tk} w1 w2"
        "in_use tk w2" "task_state_of tk w2 = Some Block" "taskCount w2 = taskCount w1" "free_tasks w2 = free_tasks w1"
        using suspend_ok [OF S p1(1,2)] t k by (auto simp: task_state_of_def)
      show ?thesis
        by (rule fin [of "p1\<lparr>nextTask := elem_front rest, runnableQueue := pre @ rest, p_timers := AddSleeper clock (ms * 1000000) tk (p_timers p1)\<rparr>" w2]) (use Sleeps True w2 p1 t k in \<open>simp_all add: keeps_def proc_sleep_def sched_ok_def\<close>)
    next
      case False
      show ?thesis
        by (rule fin [of p1 w1]) (use Sleeps False S t p1 k in \<open>auto simp: keeps_def task_state_of_def proc_sleep_def\<close>)
    qed
  next
    case Returns
    show ?thesis
      by (rule fin [of p1 "w1\<lparr>tasks := (tasks w1)(tk \<mapsto> k\<lparr>t_fn := TaskF None, t_state := TDone\<rparr>)\<rparr>"])
        (use Returns U [of "\<lambda>k. k\<lparr>t_fn := TaskF None, t_state := TDone\<rparr>"] t p1 k in
          \<open>auto simp: task_state_of_def free_tasks_def\<close>)
  qed
qed


lemma process_step_ok:
  assumes ok: "sched_ok p w" "env_ok e" "only_new (fst sl)"
    and q: "runnableQueue p = pre @ tk # rest" "runningTask p = Some tk" "nextTask p = None"
  shows "\<exists>new p' w'. process_step e self sl tk p w = Some (p', w') \<and> sched_ok p' w'
    \<and> keeps_others {tk} w w' \<and> after_slice sl tk w' \<and> length new = length (fst sl)
    \<and> newQueue p' = newQueue p @ new \<and> taskCount w' = taskCount w + step_delta sl
    \<and> switchCount p' = switchCount p + 1 \<and> runningTask p' = elem_front rest \<and> nextTask p' = None
    \<and> free_tasks w \<subseteq> free_tasks w' \<union> set new
    \<and> runnableQueue p' = pre @ (if keeps (snd sl) then [tk] else []) @ rest"
proof -
  have out: "tk \<notin> set pre" "tk \<notin> set rest" "in_use tk w" using ok(1) q(1) by (auto simp: sched_ok_def)
  define p1 where "p1 = p\<lparr>switchCount := switchCount p + 1\<rparr>"
  obtain k w1 where 1: "upd_task tk (\<lambda>k. k\<lparr>t_state := Runnable, t_proc := Some self\<rparr>) w = Some w1"
    "w1 = w\<lparr>tasks := (tasks w)(tk \<mapsto> k\<lparr>t_state := Runnable, t_proc := Some self\<rparr>)\<rparr>"
    "sched_ok p w1" "keeps_others {tk} w w1"
    using sched_ok_upd_task [OF ok(1) out(3)] by fastforce
  have S: "sched_ok p1 w1" using 1(3) by (simp add: sched_ok_def p1_def)
  have "tasks w1 tk = Some (k\<lparr>t_state := Runnable, t_proc := Some self\<rparr>)" using 1(2) by simp
  then obtain new p2 w2 where 2: "run_slice e sl tk p1 w1 = Some (p2, w2)" "sched_ok p2 w2"
    "keeps_others {tk} w1 w2" "in_use tk w2" "length new = length (fst sl)"
    "newQueue p2 = newQueue p @ new" "taskCount w2 = taskCount w + of_nat (length new)"
    "switchCount p2 = switchCount p + 1" "runningTask p2 = Some tk" "free_tasks w \<subseteq> free_tasks w2 \<union> set new"
    "if snd sl = Returns \<or> keeps (snd sl)
     then runnableQueue p2 = pre @ tk # rest \<and> nextTask p2 = None
       \<and> task_state_of tk w2 = Some (if snd sl = Returns then TDone else Runnable)
     else runnableQueue p2 = pre @ rest \<and> nextTask p2 = elem_front rest \<and> task_state_of tk w2 = Some Block"
    using run_slice_ok [OF S ok(2,3), of pre tk rest] q 1(2) by (auto simp: p1_def free_tasks_def)
  have ko: "keeps_others {tk} w w2" by (rule keeps_others_trans [OF 1(4) 2(3)]) simp
  have nk: "\<not> keeps Returns" by (simp add: keeps_def)
  show ?thesis
  proof (cases "snd sl = Returns")
    case False
    then show ?thesis using 1(1) 2 ko out
      by (auto simp: process_step_def p1_def [symmetric] after_slice_def step_delta_def sched_ok_def
          Let_def split: if_splits)
  next
    case True
    define p3 where "p3 = p2\<lparr>nextTask := elem_front rest, runnableQueue := pre @ rest\<rparr>"
    define w3 where "w3 = w2\<lparr>taskCount := taskCount w2 - 1\<rparr>"
    have pool: "pool_ok w3" "free_tasks w3 = free_tasks w2"
      using 2(2) by (simp_all add: sched_ok_def w3_def pool_ok_def free_tasks_def)
    obtain k2 where k2: "tasks w3 tk = Some k2" "tk \<notin> free_tasks w3" using 2(4) pool by (auto simp: in_use_def w3_def)
    obtain w4 where A: "Add2FreeTaskList tk w3 = Some w4" "pool_ok w4" "free_tasks w4 = insert tk (free_tasks w3)"
      "\<forall>a. a \<noteq> tk \<longrightarrow> tasks w4 a = tasks w3 a"
      using Add2FreeTaskList_ok [OF pool(1) k2] by blast
    have cnt: "taskCount w4 = taskCount w3" "stopped w4 = stopped w3"
      using A(1) k2 by (auto simp: Add2FreeTaskList_def upd_task_def task_Reset_def)
    define p4 where "p4 = p3\<lparr>runningTask := elem_front rest, nextTask := None\<rparr>"
    have "process_step e self sl tk p w = Some (p4, w4)"
      using 1(1) 2(1,11) True A(1) out
      by (simp add: process_step_def p1_def [symmetric] p4_def p3_def w3_def Let_def)
    moreover have "sched_ok p4 w4"
      using 2(2,6,11) A True out pool
      by (auto simp: sched_ok_def p4_def p3_def in_use_def w3_def)
    moreover have "keeps_others {tk} w2 w4" using A(3,4) pool cnt by (auto simp: keeps_others_def in_use_def w3_def)
    then have "keeps_others {tk} w w4" by (rule keeps_others_trans [OF ko]) simp
    moreover have "after_slice sl tk w4" using True A(3) by (simp add: after_slice_def)
    ultimately show ?thesis using 2 True cnt nk
      by (intro exI [of _ new] exI [of _ p4] exI [of _ w4])
        (use A(3) pool in \<open>auto simp: p4_def p3_def w3_def step_delta_def\<close>)
  qed
qed

text \<open>The slices of a round, in the order the tasks run.\<close>

primrec slices :: "(addr \<Rightarrow> 's \<Rightarrow> 'f slice \<times> 's) \<Rightarrow> 's \<Rightarrow> addr list \<Rightarrow> 'f slice list" where
  "slices prog s [] = []"
| "slices prog s (t # ts) = fst (prog t s) # slices prog (snd (prog t s)) ts"

text \<open>
  Where a task is after the round that ran it: on the free list or reused if it returned, else in
  use, blocked if it suspended itself and runnable if not.
\<close>

definition parked :: "'f slice \<Rightarrow> addr \<Rightarrow> addr list \<Rightarrow> 'f world \<Rightarrow> bool" where
  "parked sl tk new w \<longleftrightarrow>
     (if snd sl = Returns then tk \<in> free_tasks w \<union> set new
      else in_use tk w \<and> task_state_of tk w = Some (if keeps (snd sl) then Runnable else Block))"

lemma process_round_ok:
  assumes "sched_ok p w" "env_ok e" "\<not> stopped w" "\<forall>sl\<in>set (slices prog s todo). only_new (fst sl)"
    and "runnableQueue p = pre @ todo" "runningTask p = elem_front todo" "nextTask p = None"
  shows "\<exists>new s' p' w'. process_round e self prog s p w = Some (todo, s', p', w') \<and> sched_ok p' w'
    \<and> keeps_others (set todo) w w' \<and> list_all2 (\<lambda>sl t. parked sl t new w') (slices prog s todo) todo
    \<and> free_tasks w \<subseteq> free_tasks w' \<union> set new
    \<and> length new = sum_list (map (\<lambda>sl. length (fst sl)) (slices prog s todo))
    \<and> newQueue p' = newQueue p @ new \<and> taskCount w' = taskCount w + sum_list (map step_delta (slices prog s todo))
    \<and> switchCount p' = switchCount p + of_nat (length todo) \<and> runningTask p' = None \<and> nextTask p' = None
    \<and> runnableQueue p' = pre @ map snd (filter (\<lambda>(sl, t). keeps (snd sl)) (zip (slices prog s todo) todo))"
  using assms
proof (induction todo arbitrary: p w s pre)
  case Nil
  then show ?case
    by (subst process_round.simps) (auto simp: elem_front_def intro!: exI [of _ "[]"])
next
  case (Cons tk rest)
  define sl where "sl = fst (prog tk s)"
  define s1 where "s1 = snd (prog tk s)"
  define pre1 where "pre1 = pre @ (if keeps (snd sl) then [tk] else [])"
  have run: "runningTask p = Some tk" and on: "only_new (fst sl)"
    using Cons.prems by (simp_all add: elem_front_def sl_def)
  obtain new p1 w1 where 1: "process_step e self sl tk p w = Some (p1, w1)" "sched_ok p1 w1"
    "keeps_others {tk} w w1" "after_slice sl tk w1" "length new = length (fst sl)"
    "newQueue p1 = newQueue p @ new" "taskCount w1 = taskCount w + step_delta sl"
    "switchCount p1 = switchCount p + 1" "runningTask p1 = elem_front rest" "nextTask p1 = None"
    "free_tasks w \<subseteq> free_tasks w1 \<union> set new" "runnableQueue p1 = pre1 @ rest"
    using process_step_ok [where self = self, OF Cons.prems(1,2) on Cons.prems(5) run Cons.prems(7)]
    unfolding pre1_def append_assoc by blast
  have st: "\<not> stopped w1" using 1(3) Cons.prems(3) by (simp add: keeps_others_def)
  have "\<forall>sl\<in>set (slices prog s1 rest). only_new (fst sl)" using Cons.prems(4) by (simp add: s1_def)
  from Cons.IH [OF 1(2) Cons.prems(2) st this 1(12,9,10)]
  obtain new2 s' p' w' where 2: "process_round e self prog s1 p1 w1 = Some (rest, s', p', w')" "sched_ok p' w'"
    "keeps_others (set rest) w1 w'" "list_all2 (\<lambda>sl t. parked sl t new2 w') (slices prog s1 rest) rest"
    "free_tasks w1 \<subseteq> free_tasks w' \<union> set new2"
    "length new2 = sum_list (map (\<lambda>sl. length (fst sl)) (slices prog s1 rest))"
    "newQueue p' = newQueue p1 @ new2" "taskCount w' = taskCount w1 + sum_list (map step_delta (slices prog s1 rest))"
    "switchCount p' = switchCount p1 + of_nat (length rest)" "runningTask p' = None" "nextTask p' = None"
    "runnableQueue p' = pre1 @ map snd (filter (\<lambda>(sl, t). keeps (snd sl)) (zip (slices prog s1 rest) rest))"
    by blast
  have nin: "tk \<notin> set rest" using Cons.prems(1,5) by (auto simp: sched_ok_def)
  have head: "parked sl tk (new @ new2) w'"
    using 1(4) keeps_othersD [OF 2(3), of tk] nin 2(5)
    by (auto simp: after_slice_def parked_def task_state_of_def split: if_splits)
  have tail: "list_all2 (\<lambda>sl t. parked sl t (new @ new2) w') (slices prog s1 rest) rest"
    by (rule list_all2_mono [OF 2(4)]) (auto simp: parked_def split: if_splits)
  have "keeps_others (set (tk # rest)) w w'" by (rule keeps_others_trans [OF 1(3) 2(3)]) simp
  moreover have "process_round e self prog s p w = Some (tk # rest, s', p', w')"
    using run Cons.prems(3) 1(1) 2(1) by (subst process_round.simps) (simp add: sl_def s1_def)
  moreover have "free_tasks w \<subseteq> free_tasks w' \<union> set (new @ new2)" using 1(11) 2(5) by auto
  moreover have "slices prog s (tk # rest) = sl # slices prog s1 rest" by (simp add: sl_def s1_def)
  ultimately show ?case
    using head tail 1(5,6,7,8) 2(2,6,7,8,9,10,11,12)
    by (intro exI [of _ "new @ new2"] exI [of _ s'] exI [of _ p'] exI [of _ w']) (simp add: pre1_def)
qed

section \<open>Sleeping\<close>

definition sleeper :: "telem \<Rightarrow> 'f world \<Rightarrow> bool" where
  "sleeper e w \<longleftrightarrow> e_type e = TaskTimeout \<and> (\<exists>t. e_task e = Some t \<and> tasks w t \<noteq> None)"

definition sleeping :: "(int, telem) mmap \<Rightarrow> addr list" where
  "sleeping xs = map (the \<circ> e_task \<circ> snd) xs"

definition awake :: "addr set \<Rightarrow> 'f world \<Rightarrow> 'f world" where
  "awake A w = w\<lparr>tasks := (\<lambda>a. if a \<in> A then map_option (\<lambda>k. k\<lparr>t_state := Runnable\<rparr>) (tasks w a) else tasks w a)\<rparr>"

lemma awake_empty [simp]: "awake {} w = w"
  by (simp add: awake_def)

lemma awake_awake [simp]: "awake A (awake B w) = awake (A \<union> B) w"
  by (cases w) (auto simp: awake_def option.map_comp o_def fun_eq_iff)

lemma sleeper_awake [simp]: "sleeper e (awake A w) = sleeper e w"
  by (auto simp: sleeper_def awake_def)

lemma wakeup_awake:
  "tasks w t \<noteq> None \<Longrightarrow> WakeupBySelfIO t p w = Some (p\<lparr>runnableQueue := runnableQueue p @ [t]\<rparr>, awake {t} w)"
  by (cases w) (auto simp: WakeupBySelfIO_def upd_task_def awake_def fun_eq_iff)

lemma fire_all_sleepers:
  "\<forall>x\<in>set xs. sleeper (snd x) w \<Longrightarrow>
     fire_all cb (\<lambda>tk (p, w). WakeupBySelfIO tk p w) xs (p, w)
     = Some ((p\<lparr>runnableQueue := runnableQueue p @ sleeping xs\<rparr>, awake (set (sleeping xs)) w), [])"
proof (induction xs arbitrary: p w)
  case (Cons x xs)
  then obtain t where t: "e_type (snd x) = TaskTimeout" "e_task (snd x) = Some t" "tasks w t \<noteq> None"
    by (auto simp: sleeper_def)
  then show ?case using Cons by (simp add: fire_def wakeup_awake sleeping_def)
qed (simp add: sleeping_def)

lemma proc_WakeupTimers_sleepers:
  assumes "tm_ok (p_timers p)" "\<forall>x\<in>set (timer_map (p_timers p)). sleeper (snd x) w"
  shows "proc_WakeupTimers cb now p w =
    (let due = takeWhile (\<lambda>x. fst x \<le> now) (timer_map (p_timers p)) in
     Some (p\<lparr>runnableQueue := runnableQueue p @ sleeping due,
             p_timers := (p_timers p)\<lparr>timer_map := dropWhile (\<lambda>x. fst x \<le> now) (timer_map (p_timers p))\<rparr>\<rparr>,
           awake (set (sleeping due)) w))"
proof -
  let ?due = "takeWhile (\<lambda>x. fst x \<le> now) (timer_map (p_timers p))"
  have "\<forall>x\<in>set ?due. sleeper (snd x) w" using assms(2) by (auto dest: set_takeWhileD)
  note F = fire_all_sleepers [OF this, where cb = cb and p = p]
  show ?thesis using WakeupTimers_ok [OF assms(1) F] by (simp add: proc_WakeupTimers_def Let_def)
qed

lemma takeWhile_sorted:
  "mm_sorted xs \<Longrightarrow> set (takeWhile (\<lambda>x. fst x \<le> now) xs) = {x \<in> set xs. fst x \<le> (now :: int)}"
  by (induction xs) (auto simp: mm_sorted_def)

lemma sleep_ok:
  assumes "sched_ok p w" "runnableQueue p = pre @ tk # rest" "runningTask p = Some tk"
    "tasks w tk = Some k" "t_state k = Runnable" "t_proc k \<noteq> None" "0 < ms"
  shows "\<exists>p1 w1. proc_sleep clock ms tk p w = Some (p1, w1) \<and> sched_ok p1 w1 \<and> runnableQueue p1 = pre @ rest
    \<and> nextTask p1 = elem_front rest \<and> p_timers p1 = AddSleeper clock (ms * 1000000) tk (p_timers p)
    \<and> keeps_others {tk} w w1 \<and> task_state_of tk w1 = Some Block \<and> in_use tk w1"
proof -
  have "task_state_of tk w = Some Runnable" using assms(4,5) by (simp add: task_state_of_def)
  from suspend_ok [OF assms(1,2,3) this] assms(4) obtain w1 where
    "SuspendBySelfIO tk p w = Some (p\<lparr>nextTask := elem_front rest, runnableQueue := pre @ rest\<rparr>, w1)"
    "sched_ok (p\<lparr>nextTask := elem_front rest, runnableQueue := pre @ rest\<rparr>) w1" "keeps_others {tk} w w1"
    "in_use tk w1" "tasks w1 tk = Some (k\<lparr>t_state := Block, t_suspendId := t_suspendId k + 1\<rparr>)" by auto
  then show ?thesis using assms(4,6,7) by (auto simp: proc_sleep_def task_state_of_def sched_ok_def)
qed

lemma timer_map_AddSleeper:
  "timer_map (AddSleeper clock d tk m) = mm_insert (clock + d)
     \<lparr>e_type = TaskTimeout, e_cb = 0, e_task = Some tk, e_param = None, e_node = next_node m\<rparr> (timer_map m)"
  by (simp add: AddSleeper_def tm_insert_def)

section \<open>Properties\<close>

text \<open>
  C1: One turn of the run loop with runnable tasks runs every one of them exactly once, in queue
  order, whatever the tasks do (create tasks, yield, suspend themselves, sleep, return), and no
  assertion fails. A task that yields keeps its place, one that suspends or sleeps leaves the queue
  blocked, one that returns leaves it and is recycled; created tasks wait until the end of the
  turn, when they are queued behind the others; the task count changes by the tasks created less
  the tasks that returned.
\<close>

theorem process_turn_runs_each_once:
  fixes prog :: "addr \<Rightarrow> 's \<Rightarrow> 'f slice \<times> 's" and s :: 's
  assumes "sched_ok p w" "env_ok e" "\<not> stopped w" "nextTask p = None" "runnableQueue p \<noteq> []"
    and "\<forall>sl\<in>set (slices prog s (runnableQueue p)). only_new (fst sl)"
  shows "\<exists>new s' p' w'. process_turn e self prog io cb now s p w = Some (runnableQueue p, s', p', w')
    \<and> sched_ok p' w' \<and> runningTask p' = None \<and> nextTask p' = None \<and> newQueue p' = []
    \<and> runnableQueue p' = map snd (filter (\<lambda>(sl, t). keeps (snd sl)) (zip (slices prog s (runnableQueue p)) (runnableQueue p))) @ newQueue p @ new
    \<and> length new = sum_list (map (\<lambda>sl. length (fst sl)) (slices prog s (runnableQueue p)))
    \<and> list_all2 (\<lambda>sl t. parked sl t new w') (slices prog s (runnableQueue p)) (runnableQueue p)
    \<and> taskCount w' = taskCount w + sum_list (map step_delta (slices prog s (runnableQueue p)))
    \<and> switchCount p' = switchCount p + of_nat (length (runnableQueue p))"
proof -
  define p0 where "p0 = p\<lparr>runningTask := elem_front (runnableQueue p)\<rparr>"
  have p0: "sched_ok p0 w" "runnableQueue p0 = [] @ runnableQueue p" "runningTask p0 = elem_front (runnableQueue p)"
    "nextTask p0 = None" "newQueue p0 = newQueue p" "switchCount p0 = switchCount p"
    using assms(1,4) by (simp_all add: sched_ok_def p0_def)
  obtain t where run: "elem_front (runnableQueue p) = Some t"
    using assms(5) by (cases "runnableQueue p") (simp_all add: elem_front_def)
  obtain new s' p' w' where R: "process_round e self prog s p0 w = Some (runnableQueue p, s', p', w')" "sched_ok p' w'"
    "keeps_others (set (runnableQueue p)) w w'" "list_all2 (\<lambda>sl t. parked sl t new w') (slices prog s (runnableQueue p)) (runnableQueue p)"
    "length new = sum_list (map (\<lambda>sl. length (fst sl)) (slices prog s (runnableQueue p)))"
    "newQueue p' = newQueue p @ new" "taskCount w' = taskCount w + sum_list (map step_delta (slices prog s (runnableQueue p)))"
    "switchCount p' = switchCount p + of_nat (length (runnableQueue p))" "runningTask p' = None" "nextTask p' = None"
    "runnableQueue p' = map snd (filter (\<lambda>(sl, t). keeps (snd sl)) (zip (slices prog s (runnableQueue p)) (runnableQueue p)))"
    using process_round_ok [OF p0(1) assms(2,3) assms(6) p0(2,3,4), where self = self]
    unfolding p0(5,6) append_Nil by blast
  have "\<not> stopped w'" using R(3) assms(3) by (simp add: keeps_others_def)
  moreover have "sched_ok (snd (AddNewTasks p')) w'" using R(2) by (auto simp: sched_ok_def AddNewTasks_def)
  moreover have "process_turn e self prog io cb now s p w = Some (runnableQueue p, s', snd (AddNewTasks p'), w')"
    using R(1) run \<open>\<not> stopped w'\<close> by (simp add: process_turn_def p0_def Let_def)
  ultimately show ?thesis using R
    by (intro exI [of _ new] exI [of _ s'] exI [of _ "snd (AddNewTasks p')"] exI [of _ w'])
      (simp add: AddNewTasks_def)
qed



text \<open>A processer whose tasks create, sleep, return and yield.\<close>

definition busy_proc :: proc where
  "busy_proc = (proc_new 1)\<lparr>runnableQueue := [2, 3, 4, 5], newQueue := [6]\<rparr>"

definition busy_world :: "nat world" where
  "busy_world = demo_world\<lparr>tasks := (\<lambda>a. if a \<in> {1..7} then Some demo_task else None), taskCount := 6\<rparr>"

definition busy_prog :: "addr \<Rightarrow> unit \<Rightarrow> nat slice \<times> unit" where
  "busy_prog t s = ((if t = 2 then ([Call_New (Plain 9) 0x1000, Call_New (Plain 8) 0], Yields)
     else if t = 3 then ([], Sleeps 0 5) else if t = 4 then ([], Returns) else ([], Yields)), s)"

lemma busy_ok: "sched_ok busy_proc busy_world"
proof -
  have "finite (dom (tasks busy_world))" by (rule finite_subset [of _ "{1..7}"]) (auto simp: busy_world_def split: if_splits)
  then show ?thesis
    by (simp add: sched_ok_def pool_ok_def busy_world_def busy_proc_def demo_world_def demo_task_def task_new_def
        mm_sorted_def in_use_def free_tasks_def)
qed

lemma process_turn_runs_each_once_witness:
  "\<exists>a b p' w'. process_turn demo_env 0 busy_prog [] (\<lambda>k q s. (s, [])) 0 () busy_proc busy_world = Some ([2, 3, 4, 5], (), p', w')
    \<and> runnableQueue p' = [2, 5, 6, a, b] \<and> newQueue p' = [] \<and> switchCount p' = 4 \<and> taskCount w' = 7"
proof -
  have sl: "slices busy_prog () [2, 3, 4, 5] = [([Call_New (Plain 9) 0x1000, Call_New (Plain 8) 0], Yields),
      ([], Sleeps 0 5), ([], Returns), ([], Yields)]"
    by (simp add: busy_prog_def)
  have pr: "nextTask busy_proc = None" "runnableQueue busy_proc = [2, 3, 4, 5]" "newQueue busy_proc = [6]"
    "switchCount busy_proc = 0" "taskCount busy_world = 6" "\<not> stopped busy_world"
    by (simp_all add: busy_proc_def proc_new_def busy_world_def demo_world_def)
  have on: "\<forall>sl\<in>set (slices busy_prog () (runnableQueue busy_proc)). only_new (fst sl)"
    unfolding pr sl by (simp add: only_new_def)
  have "runnableQueue busy_proc \<noteq> []" using pr by simp
  note F = process_turn_runs_each_once [OF busy_ok demo_env_ok pr(6,1) this on, where self = 0 and io = "[]"
      and cb = "\<lambda>k q s. (s, [])" and now = 0]
  let ?S = "[([Call_New (Plain 9) 0x1000, Call_New (Plain 8) 0], Yields), ([], Sleeps 0 5), ([], Returns), ([], Yields)] :: nat slice list"
  obtain new s' p' w' where R: "process_turn demo_env 0 busy_prog [] (\<lambda>k q s. (s, [])) 0 () busy_proc busy_world = Some ([2, 3, 4, 5], s', p', w')"
    "newQueue p' = []" "runnableQueue p' = map snd (filter (\<lambda>(sl, t). keeps (snd sl)) (zip ?S [2, 3, 4, 5])) @ [6] @ new"
    "length new = sum_list (map (\<lambda>sl. length (fst sl)) ?S)" "taskCount w' = 6 + sum_list (map step_delta ?S)"
    "switchCount p' = 0 + of_nat (length [2, 3, 4, 5 :: addr])"
    using F [unfolded pr sl] by blast
  have "length new = 2" using R(4) by simp
  then obtain a b where "new = [a, b]" by (cases new; cases "tl new") auto
  then show ?thesis using R by (simp add: keeps_def step_delta_def)
qed




text \<open>
  Once \<open>Mark\<close> has seen a task run since the last switch, the processer counts as blocked exactly
  when that task has run longer than the limit since then; marking it again does not extend its
  time, and the next switch ends it.
\<close>

theorem blocking_after_mark:
  assumes "runningTask p \<noteq> None" "markSwitch p \<noteq> switchCount p" "switchCount p \<noteq> 0"
  shows "(IsBlocking limit now (Mark t0 p) \<longleftrightarrow> t0 + limit < now)
    \<and> Mark t1 (Mark t0 p) = Mark t0 p
    \<and> \<not> IsBlocking limit now ((Mark t0 p)\<lparr>switchCount := switchCount p + 1\<rparr>)"
  using assms by (auto simp: IsBlocking_def Mark_def)

lemma blocking_after_mark_witness:
  "IsBlocking 100 250 (Mark 100 (busy_proc\<lparr>runningTask := Some 2, switchCount := 1\<rparr>))
   \<and> \<not> IsBlocking 100 200 (Mark 100 (busy_proc\<lparr>runningTask := Some 2, switchCount := 1\<rparr>))"
  using blocking_after_mark [of "busy_proc\<lparr>runningTask := Some 2, switchCount := 1\<rparr>" 100 250 100]
    blocking_after_mark [of "busy_proc\<lparr>runningTask := Some 2, switchCount := 1\<rparr>" 100 200 100]
  by (simp add: busy_proc_def proc_new_def)

lemma delete_all_ok:
  "distinct ts \<Longrightarrow> set ts \<subseteq> dom (tasks w) \<Longrightarrow> delete_all ts w = Some (w\<lparr>tasks := tasks w |` (- set ts)\<rparr>)"
proof (induction ts arbitrary: w)
  case (Cons t ts)
  have "(tasks w)(t := None) |` (- set ts) = tasks w |` (- set (t # ts))"
    by (auto simp: restrict_map_def fun_eq_iff)
  moreover have "set ts \<subseteq> dom (tasks (w\<lparr>tasks := (tasks w)(t := None)\<rparr>))" using Cons.prems by auto
  note Cons.IH [OF _ this]
  ultimately show ?case using Cons.prems by (auto simp del: fun_upd_apply restrict_fun_upd)
qed (simp add: restrict_map_def)

lemma ReleaseTask_ok:
  assumes "distinct (runnableQueue p @ newQueue p)" "set (runnableQueue p @ newQueue p) \<subseteq> dom (tasks w)"
  shows "ReleaseTask p w = Some (p\<lparr>runnableQueue := [], newQueue := []\<rparr>,
    w\<lparr>tasks := tasks w |` (- set (runnableQueue p @ newQueue p))\<rparr>)"
proof -
  let ?w = "w\<lparr>tasks := tasks w |` (- set (runnableQueue p))\<rparr>"
  have "delete_all (runnableQueue p) w = Some ?w" using assms by (intro delete_all_ok) auto
  moreover have "set (newQueue p) \<subseteq> dom (tasks ?w)" using assms by auto
  then have "delete_all (newQueue p) ?w = Some (?w\<lparr>tasks := tasks ?w |` (- set (newQueue p))\<rparr>)"
    using assms by (intro delete_all_ok) auto
  moreover have "tasks ?w |` (- set (newQueue p)) = tasks w |` (- set (runnableQueue p @ newQueue p))"
    by (simp add: restrict_restrict)
  ultimately show ?thesis by (simp add: ReleaseTask_def)
qed

text \<open>
  When its thread ends, a processer deletes the tasks of both queues, each once, and no other
  task: a task that is blocked then is never freed.
\<close>

theorem release_frees_queued_tasks:
  assumes "sched_ok p w"
  shows "ReleaseTask p w = Some (p\<lparr>runnableQueue := [], newQueue := []\<rparr>,
    w\<lparr>tasks := tasks w |` (- set (runnableQueue p @ newQueue p))\<rparr>)"
  using assms by (intro ReleaseTask_ok) (auto simp: sched_ok_def in_use_def)

lemma release_frees_queued_tasks_witness:
  "\<exists>p' w'. ReleaseTask busy_proc busy_world = Some (p', w') \<and> tasks w' 3 = None \<and> tasks w' 7 = Some demo_task"
  using release_frees_queued_tasks [OF busy_ok] by (simp add: busy_proc_def busy_world_def)

end
