(* ===== verification/Idle_Loop.thy ===== *)
theory Idle_Loop
  imports Processer
begin

text \<open>
  A \<open>Processer\<close> with nothing to run and the threads that wake its tasks: the idle part of \<open>Process\<close>
  (\<open>scheduler/processer.cpp\<close>), the \<open>Interrupter\<close> of \<open>netio/inner_net/inner_io_wait.cpp\<close> that ends a wait in
  \<open>WaitLoop\<close>, and the call \<open>WakeupBySelfIO\<close> followed by \<open>InterrupteWaitLoop\<close> with which the mutex, the condition
  variable and the channel resume a task of another thread. Each access to shared state is a step. The scheduler is not
  stopped here; its end is in \<open>Shutdown\<close>.
\<close>

section \<open>The interrupter\<close>

text \<open>
  A connected pair of sockets. The descriptor \<open>accepter_\<close> that the constructor opens and closes is a local
  variable of the same name as the member, so the member has no value (\<open>None\<close>). What the system answers are
  arguments: the descriptors (-1 for an error), the results of \<open>bind\<close>, \<open>getsockname\<close> and \<open>connect\<close>, and
  whether both sockets could be made non-blocking. The result also holds the descriptors closed.
\<close>

record interrupter =
  writer :: "int option"
  reader :: "int option"
  accepter :: "int option"

definition Interrupter_new ::
  "int \<Rightarrow> int \<Rightarrow> int \<Rightarrow> int \<Rightarrow> int \<Rightarrow> int \<Rightarrow> bool \<Rightarrow> bool \<Rightarrow> (interrupter \<times> int list) option" where
  "Interrupter_new acc bound named rd connected wr nb_wr nb_rd = do {
     assert_c (acc \<noteq> - 1);
     assert_c (bound = 0);
     assert_c (named = 0);
     assert_c (rd \<noteq> - 1);
     assert_c (connected = 0);
     assert_c (wr \<noteq> - 1);
     assert_c nb_wr;
     assert_c nb_rd;
     Some (\<lparr>writer = Some wr, reader = Some rd, accepter = None\<rparr>, [acc]) }"

text \<open>The descriptors the destructor closes; using the value of an uninitialised member has no result.\<close>

definition Interrupter_destroy :: "interrupter \<Rightarrow> int list option" where
  "Interrupter_destroy i = do { a \<leftarrow> accepter i; w \<leftarrow> writer i; r \<leftarrow> reader i; Some [a, w, r] }"

text \<open>
  What \<open>recv\<close> of at most 1024 bytes returns when \<open>n\<close> are there, and the condition of the loop in \<open>reset\<close>,
  which compares it as an unsigned number.
\<close>

definition recv_answer :: "nat \<Rightarrow> int" where
  "recv_answer n = (if n = 0 then - 1 else int (min n 1024))"

definition reset_again :: "int \<Rightarrow> bool" where
  "reset_again r \<longleftrightarrow> (word_of_int r :: size_t) < 1024"

text \<open>\<open>reset\<close> over the answers of \<open>recv\<close>: the answers left over, or nothing while it still loops.\<close>

fun reset_loop :: "int list \<Rightarrow> int list option" where
  "reset_loop [] = None"
| "reset_loop (r # rs) = (if reset_again r then reset_loop rs else Some rs)"

text \<open>
  \<open>set_no_blocking\<close>: the result and whether the socket is non-blocking afterwards. \<open>ok1\<close>, \<open>ok2\<close>, \<open>ok3\<close> say which
  of the system calls succeed, \<open>b\<close> is the mode before.
\<close>

definition set_no_blocking :: "bool \<Rightarrow> bool \<Rightarrow> bool \<Rightarrow> bool \<Rightarrow> bool \<Rightarrow> bool \<Rightarrow> bool \<times> bool" where
  "set_no_blocking win nb ok1 ok2 ok3 b =
     (if \<not> ok1 then (False, b)
      else if win then (True, nb)
      else if \<not> ok2 \<or> \<not> ok3 then (False, nb)
      else (True, True))"

section \<open>State\<close>

text \<open>Where the processer's thread is, and where a thread is that wakes a task of this processer.\<close>

datatype thread_pc = At_Front | At_New | At_Wait | At_Reset | At_Timers | At_Round

datatype waker_pc = W_Idle | W_Wake addr | W_Interrupt addr

text \<open>\<open>id_bytes\<close> are the unread bytes of the interrupter, \<open>id_edge\<close> whether they were not yet reported.\<close>

record 'f idle_state =
  id_proc :: proc
  id_world :: "'f world"
  id_pc :: thread_pc
  id_bytes :: nat
  id_edge :: bool
  id_waker :: "nat \<Rightarrow> waker_pc"

text \<open>
  The interrupter's socket is registered edge-triggered with epoll (\<open>et\<close>); select reports it as long as bytes
  are there. A wait that begins or lasts while the socket is ready returns.
\<close>

definition ready :: "bool \<Rightarrow> 'f idle_state \<Rightarrow> bool" where
  "ready et s \<longleftrightarrow> (if et then id_edge s else 0 < id_bytes s)"

section \<open>The steps of the processer's thread\<close>

definition front_step :: "'f idle_state \<Rightarrow> 'f idle_state" where
  "front_step s = (let p = (id_proc s)\<lparr>runningTask := elem_front (runnableQueue (id_proc s))\<rparr> in
     s\<lparr>id_proc := p, id_pc := (if runningTask p = None then At_New else At_Round)\<rparr>)"

definition new_step :: "'f idle_state \<Rightarrow> 'f idle_state" where
  "new_step s = (let (b, p) = AddNewTasks (id_proc s);
       p = (if b then p\<lparr>runningTask := elem_front (runnableQueue p)\<rparr> else p) in
     s\<lparr>id_proc := p, id_pc := (if runningTask p = None then At_Wait else At_Round)\<rparr>)"

text \<open>
  \<open>WaitLoop\<close> returns, after a time-out or with events: the tasks \<open>io\<close> are woken, and \<open>reset\<close> is called if the
  interrupter was reported.
\<close>

definition wait_step :: "bool \<Rightarrow> addr list \<Rightarrow> 'f idle_state \<Rightarrow> 'f idle_state option" where
  "wait_step reported io s = do {
     (p, w) \<leftarrow> wake_all io (id_proc s) (id_world s);
     Some (s\<lparr>id_proc := p, id_world := w, id_edge := (id_edge s \<and> \<not> reported),
       id_pc := (if reported then At_Reset else At_Timers)\<rparr>) }"

definition reset_step :: "'f idle_state \<Rightarrow> 'f idle_state" where
  "reset_step s = (let r = recv_answer (id_bytes s) in
     s\<lparr>id_bytes := id_bytes s - nat r, id_pc := (if reset_again r then At_Reset else At_Timers)\<rparr>)"

definition timers_step ::
  "(nat \<Rightarrow> ptr \<Rightarrow> proc \<times> 'f world \<Rightarrow> (proc \<times> 'f world) \<times> timer_call list) \<Rightarrow> int \<Rightarrow> 'f idle_state \<Rightarrow> 'f idle_state option" where
  "timers_step cb now s = do {
     (p, w) \<leftarrow> proc_WakeupTimers cb now (id_proc s) (id_world s);
     Some (s\<lparr>id_proc := p, id_world := w, id_pc := At_Front\<rparr>) }"

text \<open>One task of the inner loop, or its end.\<close>

definition round_step :: "env \<Rightarrow> nat \<Rightarrow> 'f slice \<Rightarrow> 'f idle_state \<Rightarrow> 'f idle_state option" where
  "round_step e self sl s =
     (case runningTask (id_proc s) of
        None \<Rightarrow> Some (s\<lparr>id_proc := snd (AddNewTasks (id_proc s)), id_pc := At_Front\<rparr>)
      | Some tk \<Rightarrow> map_option (\<lambda>(p, w). s\<lparr>id_proc := p, id_world := w\<rparr>)
          (process_step e self sl tk (id_proc s) (id_world s)))"

section \<open>The steps of other threads\<close>

text \<open>
  \<open>interrupter\<close> sends one byte and asserts that it was taken; \<open>room\<close> is the number of bytes the connection holds.
\<close>

definition interrupter_send :: "nat \<Rightarrow> 'f idle_state \<Rightarrow> 'f idle_state option" where
  "interrupter_send room s = do {
     assert_c (id_bytes s < room);
     Some (s\<lparr>id_bytes := id_bytes s + 1, id_edge := True\<rparr>) }"

definition waker_wake :: "nat \<Rightarrow> 'f idle_state \<Rightarrow> 'f idle_state option" where
  "waker_wake i s =
     (case id_waker s i of
        W_Wake t \<Rightarrow> do {
          (p, w) \<leftarrow> WakeupBySelfIO t (id_proc s) (id_world s);
          Some (s\<lparr>id_proc := p, id_world := w, id_waker := (id_waker s)(i := W_Interrupt t)\<rparr>) }
      | _ \<Rightarrow> None)"

text \<open>
  \<open>task->proc_->InterrupteWaitLoop ()\<close>: the task is read again. Its processer may be gone (\<open>None\<close>) or, when the
  task object was used again meanwhile, another one than \<open>self\<close>.
\<close>

definition waker_interrupt :: "nat \<Rightarrow> nat \<Rightarrow> nat \<Rightarrow> 'f idle_state \<Rightarrow> 'f idle_state option" where
  "waker_interrupt room self i s =
     (case id_waker s i of
        W_Interrupt t \<Rightarrow> do {
          k \<leftarrow> tasks (id_world s) t;
          pr \<leftarrow> t_proc k;
          s \<leftarrow> (if pr = self then interrupter_send room s else Some s);
          Some (s\<lparr>id_waker := (id_waker s)(i := W_Idle)\<rparr>) }
      | _ \<Rightarrow> None)"

section \<open>The step relation\<close>

text \<open>
  Wakers call \<open>WakeupBySelfIO\<close> only for a blocked task of this processer that is theirs to wake. Other threads
  give tasks to the new queue (\<open>AddTask\<close>) and steal.
\<close>

inductive idle_step :: "bool \<Rightarrow> nat \<Rightarrow> nat \<Rightarrow> 'f idle_state \<Rightarrow> 'f idle_state \<Rightarrow> bool"
  for et :: bool and room :: nat and self :: nat where
  front: "id_pc s = At_Front \<Longrightarrow> idle_step et room self s (front_step s)"
| new: "id_pc s = At_New \<Longrightarrow> idle_step et room self s (new_step s)"
| wait: "id_pc s = At_Wait \<Longrightarrow> reported \<longrightarrow> ready et s \<Longrightarrow> wait_step reported io s = Some t
    \<Longrightarrow> idle_step et room self s t"
| reset: "id_pc s = At_Reset \<Longrightarrow> idle_step et room self s (reset_step s)"
| timers: "id_pc s = At_Timers \<Longrightarrow> timers_step cb now s = Some t \<Longrightarrow> idle_step et room self s t"
| round: "id_pc s = At_Round \<Longrightarrow> round_step e self sl s = Some t \<Longrightarrow> idle_step et room self s t"
| call: "id_waker s i = W_Idle \<Longrightarrow> idle_step et room self s (s\<lparr>id_waker := (id_waker s)(i := W_Wake tk)\<rparr>)"
| wake: "id_waker s i = W_Wake tk \<Longrightarrow> tasks (id_world s) tk = Some k \<Longrightarrow> t_state k = Block \<Longrightarrow> t_proc k = Some self
    \<Longrightarrow> waker_wake i s = Some t \<Longrightarrow> idle_step et room self s t"
| interrupt: "waker_interrupt room self i s = Some t \<Longrightarrow> idle_step et room self s t"
| add: "idle_step et room self s (s\<lparr>id_proc := proc_AddTasks ts (id_proc s)\<rparr>)"
| steal: "Steal n (id_proc s) = (ts, p) \<Longrightarrow> idle_step et room self s (s\<lparr>id_proc := p\<rparr>)"

text \<open>
  The processer has passed the look at its runnable queue: every task that entered the queue since then was put
  there by a waker that has already interrupted the wait or is about to.
\<close>

definition idle_inv :: "bool \<Rightarrow> nat \<Rightarrow> 'f idle_state \<Rightarrow> bool" where
  "idle_inv et self s \<longleftrightarrow> (id_pc s = At_New \<or> id_pc s = At_Wait \<longrightarrow>
     (\<forall>t\<in>set (runnableQueue (id_proc s)). (\<exists>k. tasks (id_world s) t = Some k \<and> t_proc k = Some self)
        \<and> (ready et s \<or> (\<exists>i. id_waker s i = W_Interrupt t))))"

definition idle_init :: "'f idle_state \<Rightarrow> bool" where
  "idle_init s \<longleftrightarrow> id_pc s = At_Front \<and> id_bytes s = 0 \<and> \<not> id_edge s \<and> (\<forall>i. id_waker s i = W_Idle)"

section \<open>The invariant\<close>

lemma Steal_runnable_subset:
  assumes "Steal n p = (st, p')"
  shows "set (runnableQueue p') \<subseteq> set (runnableQueue p)"
proof -
  have un: "set (unprotect p1 a b q') \<subseteq> set (runnableQueue p)"
    if "protect p1 (runnableQueue p) = (a, b, q)" "set q' \<subseteq> set q" for p1 a b q q'
  proof -
    have "mset (runnableQueue p) = mset (unprotect p1 a b q)"
      using protect_mset [OF that(1)] by (simp add: unprotect_mset)
    then have *: "set (unprotect p1 a b q) = set (runnableQueue p)" by (metis set_mset_mset)
    have "set (unprotect p1 a b q') \<subseteq> set (unprotect p1 a b q)"
      using that(2) by (auto simp: unprotect_def Let_def split: option.splits if_splits)
    then show ?thesis using * by simp
  qed
  have un0: "x \<in> set (runnableQueue p)"
    if "protect p1 (runnableQueue p) = (a, b, q)" "x \<in> set (unprotect p1 a b [])" for p1 a b q x
    using un [OF that(1), of "[]"] that(2) by auto
  show ?thesis
    using assms un take_back_set
    by (auto simp: Steal_def Let_def split: if_splits prod.splits dest: un0) blast+
qed

lemma WakeupBySelfIO_frame:
  assumes "WakeupBySelfIO t p w = Some (p', w')"
  shows "runnableQueue p' = runnableQueue p @ [t]"
    and "tasks w u = Some k \<Longrightarrow> \<exists>k'. tasks w' u = Some k' \<and> t_proc k' = t_proc k"
  using assms by (auto simp: WakeupBySelfIO_def upd_task_def split: Option.bind_splits)

lemma interrupter_send_effect:
  "interrupter_send room s = Some t \<Longrightarrow> ready et t \<and> id_proc t = id_proc s \<and> id_world t = id_world s
    \<and> id_pc t = id_pc s \<and> id_waker t = id_waker s"
  by (auto simp: interrupter_send_def ready_def assert_c_def split: if_splits)

lemma idle_init_inv: "idle_init s \<Longrightarrow> idle_inv et self s"
  by (simp add: idle_init_def idle_inv_def)

lemma elem_front_None [simp]: "elem_front xs = None \<longleftrightarrow> xs = []"
  by (simp add: elem_front_def split: list.splits)

lemma idle_step_inv:
  assumes "idle_step et room self s t" "idle_inv et self s"
  shows "idle_inv et self t"
  using assms
proof (cases rule: idle_step.cases)
  case front
  then show ?thesis by (auto simp: idle_inv_def front_step_def Let_def)
next
  case new
  then show ?thesis using assms(2)
    by (auto simp: idle_inv_def new_step_def Let_def AddNewTasks_def ready_def)
next
  case (wait reported io)
  then show ?thesis by (auto simp: idle_inv_def wait_step_def split: Option.bind_splits if_splits)
next
  case reset
  then show ?thesis by (simp add: idle_inv_def reset_step_def Let_def)
next
  case (timers cb now)
  then show ?thesis by (auto simp: idle_inv_def timers_step_def split: Option.bind_splits)
next
  case (round e sl)
  then show ?thesis by (auto simp: idle_inv_def round_step_def split: option.splits)
next
  case (call i tk)
  then show ?thesis using assms(2) by (auto simp: idle_inv_def ready_def) (metis waker_pc.distinct(4))+
next
  case (wake i tk k)
  then obtain p w where W: "WakeupBySelfIO tk (id_proc s) (id_world s) = Some (p, w)"
    and t: "t = s\<lparr>id_proc := p, id_world := w, id_waker := (id_waker s)(i := W_Interrupt tk)\<rparr>"
    by (auto simp: waker_wake_def split: Option.bind_splits)
  note f = WakeupBySelfIO_frame [OF W]
  show ?thesis unfolding idle_inv_def
  proof (intro impI ballI)
    fix u assume pc: "id_pc t = At_New \<or> id_pc t = At_Wait" and u: "u \<in> set (runnableQueue (id_proc t))"
    show "(\<exists>k. tasks (id_world t) u = Some k \<and> t_proc k = Some self)
        \<and> (ready et t \<or> (\<exists>i. id_waker t i = W_Interrupt u))"
    proof (cases "u = tk")
      case True
      then show ?thesis using f(2) [OF wake(2)] wake(4) by (auto simp: t)
    next
      case False
      then have "u \<in> set (runnableQueue (id_proc s))" using u f(1) by (simp add: t)
      then obtain k' where k': "tasks (id_world s) u = Some k'" "t_proc k' = Some self"
        "ready et s \<or> (\<exists>i. id_waker s i = W_Interrupt u)"
        using assms(2) pc unfolding idle_inv_def t by fastforce
      have "id_waker t j = W_Interrupt u" if "id_waker s j = W_Interrupt u" for j
        using that wake(1) by (auto simp: t)
      moreover have "ready et t = ready et s" by (simp add: t ready_def)
      ultimately have "ready et t \<or> (\<exists>j. id_waker t j = W_Interrupt u)" using k'(3) by blast
      then show ?thesis using f(2) [OF k'(1)] k'(2) by (auto simp: t)
    qed
  qed
next
  case (interrupt i)
  then obtain tk k pr s1 where I: "id_waker s i = W_Interrupt tk" "tasks (id_world s) tk = Some k" "t_proc k = Some pr"
    "(if pr = self then interrupter_send room s else Some s) = Some s1" "t = s1\<lparr>id_waker := (id_waker s1)(i := W_Idle)\<rparr>"
    by (auto simp: waker_interrupt_def split: waker_pc.splits Option.bind_splits)
  show ?thesis
  proof (cases "pr = self")
    case True
    then have S: "interrupter_send room s = Some s1" using I(4) by simp
    show ?thesis using interrupter_send_effect [OF S, of et] assms(2) by (auto simp: idle_inv_def I(5) ready_def)
  next
    case False
    then have t: "t = s\<lparr>id_waker := (id_waker s)(i := W_Idle)\<rparr>" using I by simp
    have "tk \<notin> set (runnableQueue (id_proc s))" if "id_pc s = At_New \<or> id_pc s = At_Wait"
      using assms(2) that I(2,3) False by (auto simp: idle_inv_def)
    then show ?thesis using assms(2) I(1) unfolding idle_inv_def t ready_def
      by (auto split: if_splits) (metis waker_pc.inject(2))+
  qed
next
  case (add ts)
  then show ?thesis using assms(2) by (auto simp: idle_inv_def proc_AddTasks_def ready_def)
next
  case (steal n ts p)
  then show ?thesis using assms(2) Steal_runnable_subset [OF steal(2)]
    by (auto simp: idle_inv_def ready_def)
qed

interpretation idle_loop: invariant_system idle_init "idle_step et room self" "idle_inv et self" for et room self
  by unfold_locales (auto intro: idle_init_inv idle_step_inv)

section \<open>Properties\<close>

text \<open>
  C9: A wake-up from another thread is not slept through. Whenever a processer is about to wait in \<open>WaitLoop\<close>, or
  waits there, while a resumed task is in its runnable queue, the wait ends at once because the interrupter is
  ready, or the thread that resumed the task has yet to interrupt, which then works (unless \<open>room\<close> interrupts
  are unread) and makes it ready; with epoll's edge-triggered events and with select, whatever the order in
  which the threads push, interrupt, read the interrupter, add tasks and steal.
\<close>

theorem idle_no_lost_wakeup:
  assumes "idle_init s" and "(idle_step et room self)\<^sup>*\<^sup>* s t"
    and "id_pc t = At_New \<or> id_pc t = At_Wait" and "u \<in> set (runnableQueue (id_proc t))"
  shows "ready et t \<or> (\<exists>i. id_waker t i = W_Interrupt u
    \<and> (id_bytes t < room \<longrightarrow> (\<exists>t'. waker_interrupt room self i t = Some t' \<and> ready et t')))"
proof -
  have "idle_inv et self t" using idle_loop.inv_reachable assms(1,2) .
  then obtain k where k: "tasks (id_world t) u = Some k" "t_proc k = Some self"
    "ready et t \<or> (\<exists>i. id_waker t i = W_Interrupt u)"
    using assms(3,4) unfolding idle_inv_def by fastforce
  have "\<exists>t'. waker_interrupt room self i t = Some t' \<and> ready et t'"
    if "id_waker t i = W_Interrupt u" "id_bytes t < room" for i
    using k(1,2) that by (auto simp: waker_interrupt_def interrupter_send_def ready_def)
  then show ?thesis using k(3) by blast
qed

definition blocked_world :: "'f \<Rightarrow> cint \<Rightarrow> addr ctx \<Rightarrow> 'f world" where
  "blocked_world f n c = \<lparr>tasks = [1 \<mapsto> (task_new f n c)\<lparr>t_state := Block, t_proc := Some 0\<rparr>],
     free_task_map = [], taskCount = 1, TaskIdFactory = 1, stopped = False\<rparr>"

definition idle_start :: "proc \<Rightarrow> 'f world \<Rightarrow> 'f idle_state" where
  "idle_start p w = \<lparr>id_proc = p, id_world = w, id_pc = At_Front, id_bytes = 0, id_edge = False,
     id_waker = (\<lambda>_. W_Idle)\<rparr>"

lemma idle_start_init: "idle_init (idle_start p w)"
  by (simp add: idle_init_def idle_start_def)

definition idle_waiting :: "proc \<Rightarrow> 'f world \<Rightarrow> 'f idle_state" where
  "idle_waiting p w = (idle_start (p\<lparr>runningTask := None\<rparr>) w)\<lparr>id_pc := At_Wait\<rparr>"

lemma idle_reaches_wait:
  assumes "runnableQueue p = []" "newQueue p = []"
  shows "(idle_step et room self)\<^sup>*\<^sup>* (idle_start p w) (idle_waiting p w)"
proof -
  have "idle_step et room self (idle_start p w) (front_step (idle_start p w))"
    by (rule idle_step.front) (simp add: idle_start_def)
  moreover have "idle_step et room self (front_step (idle_start p w)) (new_step (front_step (idle_start p w)))"
    by (rule idle_step.new) (simp add: idle_start_def front_step_def assms)
  moreover have "new_step (front_step (idle_start p w)) = idle_waiting p w"
    by (simp add: idle_waiting_def idle_start_def front_step_def new_step_def AddNewTasks_def assms)
  ultimately show ?thesis by simp
qed

definition woken_at_wait :: "'f \<Rightarrow> cint \<Rightarrow> addr ctx \<Rightarrow> 'f idle_state" where
  "woken_at_wait f n c = (let p = (proc_new 0)\<lparr>runnableQueue := [1]\<rparr> in
     (idle_waiting p (blocked_world f n c\<lparr>tasks := [1 \<mapsto> (task_new f n c)\<lparr>t_proc := Some 0\<rparr>]\<rparr>))
       \<lparr>id_waker := (\<lambda>_. W_Idle)(0 := W_Interrupt 1)\<rparr>)"

lemma reaches_woken_at_wait:
  "(idle_step et room 0)\<^sup>*\<^sup>* (idle_start (proc_new 0) (blocked_world f n c)) (woken_at_wait f n c)"
proof -
  let ?s = "idle_waiting (proc_new 0) (blocked_world f n c)"
  let ?s1 = "?s\<lparr>id_waker := (id_waker ?s)(0 := W_Wake 1)\<rparr>"
  have "(idle_step et room 0)\<^sup>*\<^sup>* (idle_start (proc_new 0) (blocked_world f n c)) ?s"
    by (rule idle_reaches_wait) (simp_all add: proc_new_def)
  moreover have "idle_step et room 0 ?s ?s1"
    by (rule idle_step.call) (simp add: idle_waiting_def idle_start_def)
  moreover have "waker_wake 0 ?s1 = Some (woken_at_wait f n c)"
    by (simp add: waker_wake_def idle_waiting_def idle_start_def WakeupBySelfIO_def upd_task_def blocked_world_def
        woken_at_wait_def proc_new_def task_new_def Let_def)
  then have "idle_step et room 0 ?s1 (woken_at_wait f n c)"
    by (intro idle_step.wake [of _ 0 1]) (auto simp: idle_waiting_def idle_start_def blocked_world_def)
  ultimately show ?thesis by (meson rtranclp.rtrancl_into_rtrancl)
qed

lemma idle_no_lost_wakeup_witness:
  "\<exists>s t :: nat idle_state. idle_init s \<and> (idle_step True 3 0)\<^sup>*\<^sup>* s t \<and> id_pc t = At_Wait \<and> 1 \<in> set (runnableQueue (id_proc t))
    \<and> (ready True t \<or> (\<exists>i. id_waker t i = W_Interrupt 1
        \<and> (id_bytes t < 3 \<longrightarrow> (\<exists>t'. waker_interrupt 3 0 i t = Some t' \<and> ready True t'))))"
proof -
  let ?s = "idle_start (proc_new 0) (blocked_world (0::nat) 0 undefined)"
  let ?t = "woken_at_wait (0::nat) 0 undefined"
  have 1: "idle_init ?s" "(idle_step True 3 0)\<^sup>*\<^sup>* ?s ?t" by (rule idle_start_init) (rule reaches_woken_at_wait)
  have 2: "id_pc ?t = At_Wait" "1 \<in> set (runnableQueue (id_proc ?t))"
    by (simp_all add: woken_at_wait_def idle_waiting_def idle_start_def Let_def)
  show ?thesis using idle_no_lost_wakeup [OF 1 disjI2 [OF 2(1)] 2(2)] 1 2 by blast
qed

text \<open>
  The thread that resumes a task reads the task again after it has put it into the runnable queue. If the task
  ends before, the read finds no processer (\<open>Task::Reset\<close> has cleared it) and the call through it has no result:
  a waiting processer that wakes by time-out runs the task to its end between the two calls.
\<close>

theorem idle_waker_reads_finished_task:
  "\<exists>t k. (idle_step et room 0)\<^sup>*\<^sup>* (idle_start (proc_new 0) (blocked_world f n c)) t
    \<and> id_waker t 0 = W_Interrupt 1 \<and> tasks (id_world t) 1 = Some k \<and> t_proc k = None
    \<and> free_task_map (id_world t) \<noteq> [] \<and> id_bytes t = 0 \<and> waker_interrupt room 0 0 t = None"
proof -
  let ?s = "woken_at_wait f n c"
  let ?cb = "\<lambda>_ _ x. (x, [])"
  note S = woken_at_wait_def idle_waiting_def idle_start_def proc_new_def blocked_world_def Let_def
  define s1 where "s1 = ?s\<lparr>id_pc := At_Timers\<rparr>"
  define s2 where "s2 = ?s\<lparr>id_pc := At_Front\<rparr>"
  define s3 where "s3 = ?s\<lparr>id_pc := At_Round, id_proc := (id_proc ?s)\<lparr>runningTask := Some 1\<rparr>\<rparr>"
  have "wait_step False [] ?s = Some s1"
    by (simp add: wait_step_def s1_def)
  then have 1: "idle_step et room 0 ?s s1"
    by (intro idle_step.wait [of _ False]) (simp_all add: S)
  have "timers_step ?cb 0 s1 = Some s2"
    by (simp add: timers_step_def s1_def s2_def proc_WakeupTimers_def WakeupTimers_def tm_new_def S)
  then have 2: "idle_step et room 0 s1 s2" by (intro idle_step.timers) (simp_all add: s1_def)
  have "front_step s2 = s3"
    by (simp add: front_step_def s2_def s3_def elem_front_def S)
  then have 3: "idle_step et room 0 s2 s3" using idle_step.front [of s2] by (simp add: s2_def)
  obtain t where t: "round_step e 0 ([], Returns) s3 = Some t" "id_waker t 0 = W_Interrupt 1" "id_bytes t = 0"
    "free_task_map (id_world t) \<noteq> []" "\<exists>k. tasks (id_world t) 1 = Some k \<and> t_proc k = None"
    by (simp add: round_step_def s3_def process_step_def run_slice_def upd_task_def task_state_of_def
        Add2FreeTaskList_def task_new_def task_Reset_def erase_elem_def S)
  have 4: "idle_step et room 0 s3 t" by (rule idle_step.round [OF _ t(1)]) (simp add: s3_def)
  have "(idle_step et room 0)\<^sup>*\<^sup>* (idle_start (proc_new 0) (blocked_world f n c)) t"
    using reaches_woken_at_wait 1 2 3 4 by (meson rtranclp.rtrancl_into_rtrancl)
  moreover have "waker_interrupt room 0 0 t = None" using t(2,5) by (auto simp: waker_interrupt_def)
  ultimately show ?thesis using t by blast
qed

text \<open>
  \<open>AddTask\<close> does not interrupt: a task that another thread gives to a waiting processer stays in the new queue until
  the wait ends by itself, at the next timer of the processer.
\<close>

theorem idle_new_task_not_announced:
  "\<exists>t. (idle_step et room self)\<^sup>*\<^sup>* (idle_start (p\<lparr>runnableQueue := [], newQueue := []\<rparr>) w) t
    \<and> id_pc t = At_Wait \<and> newQueue (id_proc t) = [tk] \<and> \<not> ready et t \<and> (\<forall>i. id_waker t i = W_Idle)
    \<and> GetLastDuration now (p_timers (id_proc t)) = GetLastDuration now (p_timers p)"
proof -
  let ?p = "p\<lparr>runnableQueue := [], newQueue := []\<rparr>"
  let ?s = "idle_waiting ?p w"
  let ?t = "?s\<lparr>id_proc := proc_AddTasks [tk] (id_proc ?s)\<rparr>"
  have "(idle_step et room self)\<^sup>*\<^sup>* (idle_start ?p w) ?s" by (rule idle_reaches_wait) simp_all
  then have "(idle_step et room self)\<^sup>*\<^sup>* (idle_start ?p w) ?t"
    by (rule rtranclp.rtrancl_into_rtrancl) (rule idle_step.add)
  then show ?thesis
    by (intro exI [of _ ?t]) (simp add: idle_waiting_def idle_start_def proc_AddTasks_def ready_def)
qed

text \<open>Undisturbed, the steps of the thread are the idle turn of the run loop.\<close>

theorem idle_steps_are_process_turn:
  assumes "id_pc s = At_Front" "runnableQueue (id_proc s) = []" "newQueue (id_proc s) = []"
  shows "Option.bind (wait_step False io (new_step (front_step s))) (timers_step cb now)
    = map_option (\<lambda>(ts, x, p, w). s\<lparr>id_proc := p, id_world := w\<rparr>)
        (process_turn e self prog io cb now x (id_proc s) (id_world s))"
proof -
  have "front_step s = s\<lparr>id_proc := (id_proc s)\<lparr>runningTask := None\<rparr>, id_pc := At_New\<rparr>"
    by (simp add: front_step_def elem_front_def assms)
  then show ?thesis using assms
    by (simp add: new_step_def AddNewTasks_def wait_step_def timers_step_def process_turn_def elem_front_def Let_def
        split: Option.bind_split)
qed

section \<open>The interrupter's sockets\<close>

text \<open>
  \<open>reset\<close> ends after one or two calls of \<open>recv\<close> when no byte arrives meanwhile, and leaves bytes only if at
  least 1024 were there. It never ends once the other end is closed, when \<open>recv\<close> returns 0.
\<close>

lemma reset_again_cases: "reset_again (recv_answer n) \<longleftrightarrow> 0 < n \<and> n < 1024" "reset_again 0"
proof -
  have "\<not> reset_again (- 1)" by (simp add: reset_again_def)
  moreover have "reset_again (int k) \<longleftrightarrow> k < 1024" if "k \<le> 1024" for k
    using that by (simp add: reset_again_def word_less_nat_alt unat_of_nat take_bit_nat_eq_self)
  ultimately show "reset_again (recv_answer n) \<longleftrightarrow> 0 < n \<and> n < 1024" by (auto simp: recv_answer_def min_def)
  show "reset_again 0" by (simp add: reset_again_def)
qed

theorem interrupter_reset_drains:
  "reset_loop (recv_answer n # recv_answer (n - nat (recv_answer n)) # rs)
     = Some (if 0 < n \<and> n < 1024 then rs else recv_answer (n - nat (recv_answer n)) # rs)
   \<and> reset_loop (replicate k 0) = None
   \<and> (n < 1024 \<longrightarrow> n - nat (recv_answer n) = 0)"
proof -
  have "reset_loop (replicate k 0) = None" by (induction k) (auto simp: reset_again_cases)
  moreover have "n < 1024 \<longrightarrow> n - nat (recv_answer n) = 0" by (simp add: recv_answer_def)
  ultimately show ?thesis using reset_again_cases(1) [of n] reset_again_cases(1) [of 0] by simp
qed

text \<open>
  A constructed \<open>Interrupter\<close> cannot be destroyed: its member \<open>accepter_\<close> was never set. On Unix a socket is left
  non-blocking whatever mode was asked for.
\<close>

theorem interrupter_accepter_uninitialised:
  "Interrupter_new acc bound named rd connected wr nb_wr nb_rd = Some (i, closed) \<Longrightarrow> Interrupter_destroy i = None"
  by (auto simp: Interrupter_new_def Interrupter_destroy_def assert_c_def split: if_splits)

lemma interrupter_accepter_uninitialised_witness: "Interrupter_destroy \<lparr>writer = Some 9, reader = Some 8, accepter = None\<rparr> = None"
  by (rule interrupter_accepter_uninitialised [of 7 0 0 8 0 9 True True _ "[7]"]) (simp add: Interrupter_new_def)

theorem set_no_blocking_ignores_mode: "set_no_blocking False nb True True True b = (True, True)"
  by (simp add: set_no_blocking_def)

end
