(* ===== verification/Decimal.thy ===== *)
theory Decimal
  imports Prelude
begin

text \<open>
  Decimal numbers in character strings: what \<open>std::to_string\<close> and the conversions \<open>%d\<close>, \<open>%u\<close> and \<open>%c\<close> of
  \<open>sscanf\<close> do, with the round trip between them.
\<close>

section \<open>Printing\<close>

definition digit :: "nat \<Rightarrow> char" where
  "digit d = ''0123456789'' ! d"

fun show_nat :: "nat \<Rightarrow> string" where
  "show_nat n = (if n < 10 then [digit n] else show_nat (n div 10) @ [digit (n mod 10)])"

declare show_nat.simps [simp del]

definition show_int :: "int \<Rightarrow> string" where
  "show_int i = (if i < 0 then CHR ''-'' # show_nat (nat (- i)) else show_nat (nat i))"

section \<open>Scanning\<close>

definition is_space :: "char \<Rightarrow> bool" where
  "is_space c \<longleftrightarrow> of_char c = (32::nat) \<or> (9 \<le> (of_char c :: nat) \<and> of_char c \<le> (13::nat))"

definition is_digit :: "char \<Rightarrow> bool" where
  "is_digit c \<longleftrightarrow> 48 \<le> (of_char c :: nat) \<and> of_char c \<le> (57::nat)"

definition digit_val :: "char \<Rightarrow> nat" where
  "digit_val c = of_char c - 48"

definition digits_val :: "string \<Rightarrow> nat" where
  "digits_val = foldl (\<lambda>v c. 10 * v + digit_val c) 0"

text \<open>One number with an optional sign after white space, and the rest; nothing when there is no digit.\<close>

definition scan_nat :: "string \<Rightarrow> (nat \<times> string) option" where
  "scan_nat s = (let d = takeWhile is_digit s in
     if d = [] then None else Some (digits_val d, dropWhile is_digit s))"

definition scan_int :: "string \<Rightarrow> (int \<times> string) option" where
  "scan_int s = (case dropWhile is_space s of
      [] \<Rightarrow> None
    | c # r \<Rightarrow>
        if c = CHR ''-'' then map_option (\<lambda>(n, r). (- int n, r)) (scan_nat r)
        else if c = CHR ''+'' then map_option (\<lambda>(n, r). (int n, r)) (scan_nat r)
        else map_option (\<lambda>(n, r). (int n, r)) (scan_nat (c # r)))"

text \<open>A row of number conversions: the values that were converted before the input failed to match.\<close>

primrec scan_ints :: "nat \<Rightarrow> string \<Rightarrow> int list \<times> string" where
  "scan_ints 0 s = ([], s)"
| "scan_ints (Suc k) s = (case scan_int s of
      None \<Rightarrow> ([], s)
    | Some (i, r) \<Rightarrow> (let (is, r) = scan_ints k r in (i # is, r)))"

text \<open>\<open>%s\<close>: a word without white space.\<close>

definition scan_word :: "string \<Rightarrow> string \<times> string" where
  "scan_word s = (let t = dropWhile is_space s
     in (takeWhile (\<lambda>c. \<not> is_space c) t, dropWhile (\<lambda>c. \<not> is_space c) t))"

section \<open>Round trip\<close>

lemma of_char_digit: "d < 10 \<Longrightarrow> of_char (digit d) = 48 + d"
  by (auto simp: digit_def less_Suc_eq numeral_eq_Suc)

lemma is_digit_digit [simp]: "d < 10 \<Longrightarrow> is_digit (digit d)"
  by (simp add: is_digit_def of_char_digit)

lemma digit_val_digit [simp]: "d < 10 \<Longrightarrow> digit_val (digit d) = d"
  by (simp add: digit_val_def of_char_digit)

lemma show_nat_digits: "\<forall>c\<in>set (show_nat n). is_digit c"
proof (induction n rule: show_nat.induct)
  case (1 n)
  then show ?case by (subst show_nat.simps) auto
qed

lemma show_nat_ne [simp]: "show_nat n \<noteq> []"
  by (subst show_nat.simps) simp

lemma digits_val_show_nat: "digits_val (show_nat n) = n"
proof (induction n rule: show_nat.induct)
  case (1 n)
  show ?case
  proof (cases "n < 10")
    case True
    then show ?thesis by (subst show_nat.simps) (simp add: digits_val_def)
  next
    case False
    then have "digits_val (show_nat n) = 10 * digits_val (show_nat (n div 10)) + n mod 10"
      by (subst show_nat.simps) (simp add: digits_val_def)
    then show ?thesis using 1 [OF False] by simp
  qed
qed

definition no_digit_first :: "string \<Rightarrow> bool" where
  "no_digit_first s \<longleftrightarrow> (case s of [] \<Rightarrow> True | c # r \<Rightarrow> \<not> is_digit c)"

lemma scan_nat_show: "no_digit_first r \<Longrightarrow> scan_nat (show_nat n @ r) = Some (n, r)"
proof -
  assume "no_digit_first r"
  then have "takeWhile is_digit r = []" "dropWhile is_digit r = r"
    by (auto simp: no_digit_first_def split: list.splits)
  then show ?thesis using show_nat_digits [of n]
    by (simp add: scan_nat_def digits_val_show_nat takeWhile_append dropWhile_append Let_def)
qed

lemma digit_not_space: "is_digit c \<Longrightarrow> \<not> is_space c \<and> c \<noteq> CHR ''-'' \<and> c \<noteq> CHR ''+''"
  by (auto simp: is_digit_def is_space_def)

lemma scan_int_show:
  assumes "\<forall>c\<in>set sp. is_space c" "no_digit_first r"
  shows "scan_int (sp @ show_int i @ r) = Some (i, r)"
proof -
  obtain c cs where s: "show_nat (nat i) = c # cs" using show_nat_ne by (meson neq_Nil_conv)
  then have c: "is_digit c" using show_nat_digits [of "nat i"] by simp
  have m: "\<not> is_space CHR ''-''" by (simp add: is_space_def)
  show ?thesis
  proof (cases "i < 0")
    case True
    then show ?thesis using assms m scan_nat_show [OF assms(2), of "nat (- i)"]
      by (simp add: scan_int_def show_int_def dropWhile_append)
  next
    case False
    then show ?thesis using assms s digit_not_space [OF c] scan_nat_show [OF assms(2), of "nat i"]
      by (simp add: scan_int_def show_int_def dropWhile_append)
  qed
qed

text \<open>Numbers with a space before each.\<close>

definition spaced :: "int list \<Rightarrow> string" where
  "spaced is = concat (map (\<lambda>i. CHR '' '' # show_int i) is)"

lemma scan_ints_spaced:
  "no_digit_first r \<Longrightarrow> scan_ints (length is) (spaced is @ r) = (is, r)"
proof (induction "is")
  case (Cons i "is")
  have "no_digit_first (spaced is @ r)"
    using Cons.prems by (cases "is") (auto simp: spaced_def no_digit_first_def is_digit_def)
  then have "scan_int (CHR '' '' # show_int i @ spaced is @ r) = Some (i, spaced is @ r)"
    using scan_int_show [of "'' ''" "spaced is @ r" i] by (simp add: is_space_def)
  then show ?case using Cons by (simp add: spaced_def)
qed (simp add: spaced_def)

end
