(* ===== verification/Cpu_Load.thy ===== *)
theory Cpu_Load
  imports Complex_Main Decimal
begin

text \<open>
  \<open>ThreadsPhyInfo\<close> of \<open>scheduler/ThreadPhyInfo.h\<close> and \<open>scheduler/ThreadPhyInfo.cpp\<close> in its Linux form: the
  processor time of the threads, read from the text files under \<open>/proc\<close>, and the decision whether the tasks
  are to be balanced. The files are parameters. Floating point numbers are rational numbers rounded after
  every operation to the 24 or 53 binary digits of \<open>float\<close> and \<open>double\<close>, with infinities and NaN; the
  values here stay far from the smallest and largest exponents, and there is no negative zero.
\<close>

section \<open>Floating point\<close>

datatype fl = Fin rat | Inf bool | NaN

fun bit_len :: "nat \<Rightarrow> nat" where
  "bit_len n = (if n = 0 then 0 else Suc (bit_len (n div 2)))"

declare bit_len.simps [simp del]

definition pow2 :: "int \<Rightarrow> rat" where
  "pow2 k = (if k \<ge> 0 then 2 ^ nat k else 1 / 2 ^ nat (- k))"

text \<open>The exponent of the leading binary digit of a positive number.\<close>

definition floor_log2 :: "rat \<Rightarrow> int" where
  "floor_log2 x = (let (n, d) = quotient_of x; k = int (bit_len (nat n)) - int (bit_len (nat d))
     in if pow2 k \<le> x then k else k - 1)"

definition half_even :: "rat \<Rightarrow> int" where
  "half_even y = (let f = \<lfloor>y\<rfloor>; r = y - of_int f
     in if r < 1 / 2 then f else if r > 1 / 2 then f + 1 else if even f then f else f + 1)"

definition rnd :: "int \<Rightarrow> rat \<Rightarrow> rat" where
  "rnd p x = (if x = 0 then 0 else let u = pow2 (floor_log2 \<bar>x\<bar> - p + 1) in of_int (half_even (x / u)) * u)"

definition fl_int :: "int \<Rightarrow> int \<Rightarrow> fl" where
  "fl_int p i = Fin (rnd p (of_int i))"

text \<open>Conversion to the other format.\<close>

fun fl_conv :: "int \<Rightarrow> fl \<Rightarrow> fl" where
  "fl_conv p (Fin x) = Fin (rnd p x)"
| "fl_conv p y = y"

fun fl_add :: "int \<Rightarrow> fl \<Rightarrow> fl \<Rightarrow> fl" where
  "fl_add p (Fin x) (Fin y) = Fin (rnd p (x + y))"
| "fl_add p (Inf s) (Inf t) = (if s = t then Inf s else NaN)"
| "fl_add p NaN y = NaN"
| "fl_add p x NaN = NaN"
| "fl_add p (Inf s) (Fin y) = Inf s"
| "fl_add p (Fin x) (Inf s) = Inf s"

fun fl_neg :: "fl \<Rightarrow> fl" where
  "fl_neg (Fin x) = Fin (- x)"
| "fl_neg (Inf s) = Inf (\<not> s)"
| "fl_neg NaN = NaN"

fun fl_mul :: "int \<Rightarrow> fl \<Rightarrow> fl \<Rightarrow> fl" where
  "fl_mul p (Fin x) (Fin y) = Fin (rnd p (x * y))"
| "fl_mul p (Inf s) (Inf t) = Inf (s \<noteq> t)"
| "fl_mul p NaN y = NaN"
| "fl_mul p x NaN = NaN"
| "fl_mul p (Inf s) (Fin y) = (if y = 0 then NaN else Inf (s \<noteq> (y < 0)))"
| "fl_mul p (Fin x) (Inf s) = (if x = 0 then NaN else Inf (s \<noteq> (x < 0)))"

fun fl_div :: "int \<Rightarrow> fl \<Rightarrow> fl \<Rightarrow> fl" where
  "fl_div p (Fin x) (Fin y) = (if y = 0 then (if x = 0 then NaN else Inf (x < 0)) else Fin (rnd p (x / y)))"
| "fl_div p (Inf s) (Inf t) = NaN"
| "fl_div p NaN y = NaN"
| "fl_div p x NaN = NaN"
| "fl_div p (Inf s) (Fin y) = Inf (s \<noteq> (y < 0))"
| "fl_div p (Fin x) (Inf s) = Fin 0"

text \<open>Conversion to \<open>long long\<close> drops the fraction; other values have no defined result.\<close>

definition truncate_rat :: "rat \<Rightarrow> int" where
  "truncate_rat x = (if x < 0 then - \<lfloor>- x\<rfloor> else \<lfloor>x\<rfloor>)"

fun fl_to_ll :: "fl \<Rightarrow> int option" where
  "fl_to_ll (Fin x) = (let i = truncate_rat x in if - (2 ^ 63) < i \<and> i < 2 ^ 63 then Some i else None)"
| "fl_to_ll y = None"

section \<open>State\<close>

text \<open>\<open>cpuUseAge_\<close> and the counters of \<open>firstData_\<close> have no value before they are first set.\<close>

record tid_info =
  p_tid :: int
  cpuUseAge :: "fl option"

record phy_info =
  tids :: "tid_info list"
  firstTidTimes :: "int list"
  firstData :: "uint32 option list"
  phy_pid :: int

definition phy_new :: "int \<Rightarrow> phy_info" where
  "phy_new pid = \<lparr>tids = [], firstTidTimes = [], firstData = replicate 8 None, phy_pid = pid\<rparr>"

definition AddThreadTid :: "int \<Rightarrow> phy_info \<Rightarrow> phy_info" where
  "AddThreadTid t s = s\<lparr>tids := tids s @ [\<lparr>p_tid = t, cpuUseAge = None\<rparr>]\<rparr>"

text \<open>\<open>operator []\<close>: the index is compared as an unsigned number.\<close>

definition phy_index :: "int \<Rightarrow> phy_info \<Rightarrow> fl option" where
  "phy_index i s = (if 0 \<le> i \<and> i < int (length (tids s)) then cpuUseAge (tids s ! nat i) else None)"

section \<open>Reading the files\<close>

abbreviation nl :: char where "nl \<equiv> CHR 0x0A"

text \<open>One line of at most \<open>n - 1\<close> characters; the buffer stays unset at the end of the file.\<close>

definition fgets :: "nat \<Rightarrow> string \<Rightarrow> string option" where
  "fgets n s = (if s = [] then None
     else Some (take (n - 1) (let l = takeWhile (\<lambda>c. c \<noteq> nl) s in if l = s then l else l @ [nl])))"

definition strchr :: "char \<Rightarrow> string \<Rightarrow> nat option" where
  "strchr c s = (if c \<in> set s then Some (length (takeWhile (\<lambda>x. x \<noteq> c) s)) else None)"

definition stat_path :: "int \<Rightarrow> int \<Rightarrow> string option" where
  "stat_path pid tid =
     (if tid = 0 then Some (''/proc/'' @ show_int pid @ ''/stat'')
      else if tid \<noteq> - 1 then Some (''/proc/'' @ show_int pid @ ''/task/'' @ show_int tid @ ''/stat'')
      else None)"

definition in_int32 :: "int \<Rightarrow> bool" where
  "in_int32 i \<longleftrightarrow> - (2 ^ 31) \<le> i \<and> i < 2 ^ 31"

text \<open>
  The second \<open>sscanf\<close> of \<open>GetThreadTime\<close>, from the state character on: five \<open>%d\<close> and five \<open>%u\<close> into variables that
  are not used, then the four times. A conversion that fails leaves the variables after it unset. A number that
  is too large for its variable is cut as the C library does; so are the 18 conversions that follow and
  are not used.
\<close>

definition scan_times :: "string \<Rightarrow> int option" where
  "scan_times s = (case s of [] \<Rightarrow> None
    | state # r \<Rightarrow> (let v = fst (scan_ints 14 r) in
        if length v = 14
        then (let t1 = to_int32 (v ! 10) + to_int32 (v ! 11); t2 = t1 + to_int32 (v ! 12); t3 = t2 + to_int32 (v ! 13)
              in if in_int32 t1 \<and> in_int32 t2 \<and> in_int32 t3 then Some t3 else None)
        else None))"

text \<open>\<open>fs\<close> are the contents of the files. The name between the parentheses is copied to a buffer of 64 bytes.\<close>

definition GetThreadTime :: "(string \<Rightarrow> string option) \<Rightarrow> int \<Rightarrow> int \<Rightarrow> int option" where
  "GetThreadTime fs pid tid = do {
     path \<leftarrow> stat_path pid tid;
     (case fs path of
        None \<Rightarrow> Some (- 1)
      | Some content \<Rightarrow> do {
          s \<leftarrow> fgets 1024 content;
          sp \<leftarrow> strchr (CHR ''('') s;
          t \<leftarrow> strchr (CHR '')'') s;
          assert_c (sp + 1 \<le> t \<and> t - (sp + 1) \<le> 64);
          assert_c (t + 2 \<le> length s);
          scan_times (drop (t + 2) s) }) }"

text \<open>
  The line of \<open>/proc/stat\<close>: a word (into a buffer of 7 bytes) and eight numbers; what is not converted keeps its
  old value.
\<close>

definition read_cpu_line :: "string \<Rightarrow> uint32 option list \<Rightarrow> uint32 option list option" where
  "read_cpu_line content old = do {
     buf \<leftarrow> fgets 128 content;
     let (w, r) = scan_word buf;
     assert_c (length w \<le> 6);
     let v = fst (scan_ints 8 r);
     Some (map (\<lambda>i. Some (word_of_int i)) v @ drop (length v) old) }"

section \<open>Measuring\<close>

text \<open>The loop of \<open>StartTrack\<close> over the threads; it ends at the first one whose time cannot be read.\<close>

fun start_times :: "(int \<Rightarrow> int option) \<Rightarrow> tid_info list \<Rightarrow> nat \<Rightarrow> int list \<Rightarrow> (bool \<times> int list) option" where
  "start_times get [] i fs = Some (True, fs)"
| "start_times get (x # xs) i fs = do {
     t \<leftarrow> get (p_tid x);
     if t < 0 then Some (False, fs[i := t]) else start_times get xs (Suc i) (fs[i := t]) }"

definition StartTrack :: "(string \<Rightarrow> string option) \<Rightarrow> phy_info \<Rightarrow> (bool \<times> phy_info) option" where
  "StartTrack fs s = do {
     let s = (if length (firstTidTimes s) < length (tids s)
              then s\<lparr>firstTidTimes := replicate (length (tids s)) 0\<rparr> else s);
     content \<leftarrow> fs ''/proc/stat'';
     d \<leftarrow> read_cpu_line content (firstData s);
     let s = s\<lparr>firstData := d\<rparr>;
     (b, ts) \<leftarrow> start_times (GetThreadTime fs (phy_pid s)) (tids s) 0 (firstTidTimes s);
     Some (b, s\<lparr>firstTidTimes := ts\<rparr>) }"

definition sum_data :: "uint32 option list \<Rightarrow> uint32 option" where
  "sum_data d = (if None \<in> set d then None else Some (foldl (\<lambda>a x. a + the x) 0 d))"

text \<open>The usage of one thread in percent: a double computation stored into a float.\<close>

definition usage :: "int \<Rightarrow> fl \<Rightarrow> int \<Rightarrow> fl" where
  "usage nprocs all d = fl_conv 24 (fl_mul 53 (fl_div 53 (fl_int 53 d) all) (fl_int 53 nprocs))"

text \<open>
  The first loop of \<open>StopTrack\<close>: the usages and their sum; false when a time cannot be read, with the threads up
  to there set.
\<close>

fun usage_loop ::
  "(int \<Rightarrow> int option) \<Rightarrow> int \<Rightarrow> fl \<Rightarrow> int list \<Rightarrow> tid_info list \<Rightarrow> fl \<Rightarrow> (bool \<times> tid_info list \<times> fl) option" where
  "usage_loop get nprocs all fs [] tot = Some (True, [], tot)"
| "usage_loop get nprocs all fs (x # xs) tot = do {
     t \<leftarrow> get (p_tid x);
     if t < 0 then Some (False, x # xs, tot) else
       (case fs of [] \<Rightarrow> None
        | f # fs \<Rightarrow> do {
            assert_c (in_int32 (t - f));
            let u = usage nprocs all (t - f);
            (b, ys, tot) \<leftarrow> usage_loop get nprocs all fs xs (fl_add 24 tot u);
            Some (b, x\<lparr>cpuUseAge := Some u\<rparr> # ys, tot) }) }"

text \<open>
  \<open>llabs (usage - avg) > taskLoadage_\<close>: \<open>llabs\<close> takes an integer, so the difference loses its fraction first.
\<close>

definition taskLoadage :: rat where "taskLoadage = 30"

definition deviates :: "fl \<Rightarrow> fl \<Rightarrow> bool option" where
  "deviates avg u = map_option (\<lambda>i. rnd 24 (of_int \<bar>i\<bar>) > taskLoadage) (fl_to_ll (fl_add 24 u (fl_neg avg)))"

fun deviation_loop :: "fl \<Rightarrow> tid_info list \<Rightarrow> bool option" where
  "deviation_loop avg [] = Some False"
| "deviation_loop avg (x # xs) = do {
     u \<leftarrow> cpuUseAge x;
     b \<leftarrow> deviates avg u;
     if b then Some True else deviation_loop avg xs }"

definition StopTrack :: "(string \<Rightarrow> string option) \<Rightarrow> int \<Rightarrow> phy_info \<Rightarrow> (bool \<times> phy_info) option" where
  "StopTrack fs nprocs s = do {
     content \<leftarrow> fs ''/proc/stat'';
     d \<leftarrow> read_cpu_line content (replicate 8 (Some 0));
     all1 \<leftarrow> sum_data (firstData s);
     all2 \<leftarrow> sum_data d;
     let all = fl_div 53 (fl_int 53 (uint (all2 - all1))) (fl_int 53 100);
     (ok, ts, tot) \<leftarrow> usage_loop (GetThreadTime fs (phy_pid s)) nprocs all (firstTidTimes s) (tids s) (Fin 0);
     let s = s\<lparr>tids := ts\<rparr>;
     if \<not> ok then Some (False, s) else do {
       let avg = fl_div 24 tot (fl_int 24 (int (length ts)));
       b \<leftarrow> deviation_loop avg ts;
       Some (b, s) } }"

section \<open>Facts\<close>

lemma strchr_first: "c \<notin> set a \<Longrightarrow> strchr c (a @ c # b) = Some (length a)"
  by (simp add: strchr_def takeWhile_append)

lemma nl_not_digit: "is_digit c \<Longrightarrow> c \<noteq> nl \<and> c \<noteq> CHR ''('' \<and> c \<noteq> CHR '')''"
  by (auto simp: is_digit_def)

lemma show_int_chars:
  "nl \<notin> set (show_int i)" "CHR ''('' \<notin> set (show_int i)" "CHR '')'' \<notin> set (show_int i)"
proof -
  have *: "\<forall>c\<in>set (show_int i). is_digit c \<or> c = CHR ''-''"
    using show_nat_digits by (auto simp: show_int_def)
  have m: "CHR ''-'' \<noteq> nl" by simp
  show "nl \<notin> set (show_int i)" using * nl_not_digit m by metis
  show "CHR ''('' \<notin> set (show_int i)" "CHR '')'' \<notin> set (show_int i)" using * nl_not_digit by fastforce+
qed

lemma spaced_no_nl: "nl \<notin> set (spaced is)"
proof -
  have "nl \<noteq> CHR '' ''" by simp
  then show ?thesis by (auto simp: spaced_def show_int_chars)
qed

lemma fgets_line:
  assumes "nl \<notin> set l" "length l + 1 < n"
  shows "fgets n (l @ nl # r) = Some (l @ [nl])"
proof -
  have "takeWhile (\<lambda>c. c \<noteq> nl) (l @ nl # r) = l" using assms(1) by (subst takeWhile_append2) auto
  then show ?thesis using assms(2) by (simp add: fgets_def Let_def)
qed

text \<open>The line of \<open>/proc/<pid>/stat\<close> as the kernel writes it.\<close>

definition stat_line :: "int \<Rightarrow> string \<Rightarrow> char \<Rightarrow> int list \<Rightarrow> string" where
  "stat_line pid comm state vals = show_int pid @ '' ('' @ comm @ '') '' @ state # spaced vals @ [nl]"

lemma scan_times_spaced:
  assumes "14 \<le> length vals" "\<forall>i\<in>set (take 14 vals). in_int32 i"
    and "in_int32 (vals ! 10 + vals ! 11)" "in_int32 (vals ! 10 + vals ! 11 + vals ! 12)"
    and "in_int32 (vals ! 10 + vals ! 11 + vals ! 12 + vals ! 13)"
  shows "scan_times (state # spaced vals @ [nl]) = Some (vals ! 10 + vals ! 11 + vals ! 12 + vals ! 13)"
proof -
  let ?v = "take 14 vals" and ?r = "spaced (drop 14 vals) @ [nl]"
  have "no_digit_first ?r"
    by (cases "drop 14 vals") (auto simp: spaced_def no_digit_first_def is_digit_def)
  then have "scan_ints (length ?v) (spaced ?v @ ?r) = (?v, ?r)" by (rule scan_ints_spaced)
  moreover have "spaced vals = spaced ?v @ spaced (drop 14 vals)"
    by (metis append_take_drop_id concat_append map_append spaced_def)
  ultimately have "scan_ints 14 (spaced vals @ [nl]) = (?v, ?r)" using assms(1) by simp
  moreover have "to_int32 (vals ! k) = vals ! k" if "k < 14" for k
  proof -
    have "vals ! k \<in> set ?v" using that assms(1) by (metis length_take min.absorb2 nth_mem nth_take)
    then show ?thesis using assms(2) by (intro to_int32_small) (auto simp: in_int32_def)
  qed
  ultimately show ?thesis using assms by (simp add: scan_times_def Let_def)
qed

lemma GetThreadTime_line:
  assumes "stat_path pid tid = Some path" "fs path = Some (stat_line k comm state vals)"
    and "CHR '')'' \<notin> set comm" "nl \<notin> set comm" "length comm \<le> 64" "state \<noteq> nl"
    and "length (stat_line k comm state vals) < 1024" "14 \<le> length vals" "\<forall>i\<in>set (take 14 vals). in_int32 i"
    and "0 \<le> vals ! 10" "0 \<le> vals ! 11" "0 \<le> vals ! 12" "0 \<le> vals ! 13"
    and "vals ! 10 + vals ! 11 + vals ! 12 + vals ! 13 < 2 ^ 31"
  shows "GetThreadTime fs pid tid = Some (vals ! 10 + vals ! 11 + vals ! 12 + vals ! 13)"
proof -
  let ?a = "show_int k @ '' ''" and ?c = "CHR '' '' # state # spaced vals"
  let ?l = "?a @ CHR ''('' # comm @ CHR '')'' # ?c"
  have line: "stat_line k comm state vals = ?l @ [nl]" by (simp add: stat_line_def)
  have "nl \<notin> set ?l" using assms(4,6) by (auto simp: show_int_chars spaced_no_nl)
  then have "fgets 1024 (stat_line k comm state vals) = Some (?l @ [nl])"
    using fgets_line [of ?l 1024 "[]"] assms(7) by (simp add: line)
  moreover have "strchr CHR ''('' (?l @ [nl]) = Some (length ?a)"
    using strchr_first [of "CHR ''(''" ?a] by (simp add: show_int_chars)
  moreover have "strchr CHR '')'' (?l @ [nl]) = Some (length (?a @ CHR ''('' # comm))"
    using strchr_first [of "CHR '')''" "?a @ CHR ''('' # comm" "?c @ [nl]"] assms(3) by (simp add: show_int_chars)
  moreover have "drop (length (?a @ CHR ''('' # comm) + 2) (?l @ [nl]) = state # spaced vals @ [nl]"
  proof -
    let ?p = "?a @ CHR ''('' # comm @ '') ''"
    have "?l @ [nl] = ?p @ (state # spaced vals @ [nl])" "length (?a @ CHR ''('' # comm) + 2 = length ?p" by simp_all
    then show ?thesis by (metis append_eq_conv_conj)
  qed
  moreover have "scan_times (state # spaced vals @ [nl]) = Some (vals ! 10 + vals ! 11 + vals ! 12 + vals ! 13)"
    by (rule scan_times_spaced [OF assms(8,9)]) (use assms(10-14) in \<open>simp_all add: in_int32_def\<close>)
  ultimately show ?thesis
    using assms(1,2,5) by (simp add: GetThreadTime_def)
qed

section \<open>Rounding\<close>

lemma bit_len_bounds: "n < 2 ^ bit_len n" "0 < n \<Longrightarrow> 2 ^ bit_len n \<le> 2 * n"
proof (induction n rule: bit_len.induct)
  case (1 n)
  {
    case 1
    show ?case
    proof (cases "n = 0")
      case False
      then have "n div 2 < 2 ^ bit_len (n div 2)" using "1.IH"(1) by simp
      then have "n < 2 * 2 ^ bit_len (n div 2)" by simp
      then show ?thesis using False by (subst bit_len.simps) simp
    qed (simp add: bit_len.simps)
  next
    case 2
    show ?case
    proof (cases "n div 2 = 0")
      case True
      then have "n = 1" using 2 by simp
      then show ?thesis by (simp add: bit_len.simps)
    next
      case False
      then have "2 ^ bit_len (n div 2) \<le> 2 * (n div 2)" using "1.IH"(2) 2 by simp
      then have "2 * 2 ^ bit_len (n div 2) \<le> 2 * n" by simp
      then show ?thesis using 2 by (subst bit_len.simps) simp
    qed
  }
qed

lemma pow2_pos [simp]: "0 < pow2 k"
  by (simp add: pow2_def)

lemma pow2_nz [simp]: "pow2 k \<noteq> 0"
  using pow2_pos [of k] by linarith

lemma pow2_powi: "pow2 k = power_int 2 k"
  by (auto simp: pow2_def power_int_def field_simps)

lemma pow2_add: "pow2 (a + b) = pow2 a * pow2 b"
  by (simp add: pow2_powi power_int_add)

lemma pow2_diff: "pow2 (a - b) = pow2 a / pow2 b"
  by (simp add: pow2_powi power_int_diff)

lemma pow2_nat [simp]: "pow2 (int n) = 2 ^ n"
  by (simp add: pow2_def)

lemma pow2_less_iff [simp]: "pow2 a < pow2 b \<longleftrightarrow> a < b"
  by (metis pow2_powi power_int_strict_increasing one_less_numeral_iff semiring_norm(76) not_less_iff_gr_or_eq)

lemma floor_log2_bounds:
  assumes "0 < x"
  shows "pow2 (floor_log2 x) \<le> x" and "x < pow2 (floor_log2 x + 1)"
proof -
  obtain n d where q: "quotient_of x = (n, d)" by fastforce
  have d: "0 < d" using quotient_of_denom_pos [OF q] .
  have x: "x = of_int n / of_int d" using quotient_of_div [OF q] .
  then have n: "0 < n" using assms d by (simp add: zero_less_divide_iff)
  let ?k = "int (bit_len (nat n)) - int (bit_len (nat d))"
  have real: "(of_nat (nat i) :: rat) = of_int i" if "0 < i" for i using that by simp
  have ub: "of_int i < (2 :: rat) ^ bit_len (nat i)" if "0 < i" for i
    using bit_len_bounds(1) [of "nat i"] real [OF that] by (metis of_nat_less_iff of_nat_numeral of_nat_power)
  have lb: "(2 :: rat) ^ bit_len (nat i) \<le> 2 * of_int i" if "0 < i" for i
  proof -
    have "(2::nat) ^ bit_len (nat i) \<le> 2 * nat i" using bit_len_bounds(2) [of "nat i"] that by simp
    then have "of_nat (2 ^ bit_len (nat i)) \<le> (of_nat (2 * nat i) :: rat)" by (rule of_nat_mono)
    then show ?thesis using that by simp
  qed
  have k: "pow2 ?k = 2 ^ bit_len (nat n) / 2 ^ bit_len (nat d)" by (simp add: pow2_diff)
  have k1: "pow2 (?k - 1) = pow2 ?k / 2" "pow2 (?k + 1) = pow2 ?k * 2"
    by (simp_all add: pow2_diff pow2_add) (simp_all add: pow2_def)
  have up: "x < pow2 ?k * 2"
  proof -
    have "of_int n * 2 ^ bit_len (nat d) < 2 ^ bit_len (nat n) * (2 ^ bit_len (nat d) :: rat)" using ub [OF n] by simp
    also have "\<dots> \<le> 2 ^ bit_len (nat n) * (2 * of_int d)" using lb [OF d] by simp
    finally show ?thesis using d by (simp add: x k field_simps)
  qed
  have down: "pow2 ?k / 2 \<le> x"
  proof -
    have "2 ^ bit_len (nat n) * (of_int d :: rat) \<le> 2 * of_int n * of_int d" using lb [OF n] d by simp
    also have "\<dots> \<le> 2 * of_int n * 2 ^ bit_len (nat d)" using ub [OF d] n by (simp add: less_imp_le)
    finally show ?thesis using d by (simp add: x k field_simps)
  qed
  have f: "floor_log2 x = (if pow2 ?k \<le> x then ?k else ?k - 1)" by (simp add: floor_log2_def q Let_def)
  show "pow2 (floor_log2 x) \<le> x" using down by (auto simp: f k1)
  show "x < pow2 (floor_log2 x + 1)" using up by (auto simp: f k1)
qed

lemma half_even_int [simp]: "half_even (of_int m) = m"
  by (simp add: half_even_def)

lemma half_even_ge: "\<lfloor>y\<rfloor> \<le> half_even y"
  by (simp add: half_even_def Let_def)

text \<open>Integers of at most \<open>p\<close> binary digits are represented exactly; larger ones stay large.\<close>

lemma rnd_int_exact:
  assumes "\<bar>m\<bar> < 2 ^ p"
  shows "rnd (int p) (of_int m) = of_int m"
proof (cases "m = 0")
  case False
  let ?x = "of_int m :: rat" and ?e = "floor_log2 \<bar>of_int m\<bar> - int p + 1"
  have "pow2 (floor_log2 \<bar>?x\<bar>) \<le> \<bar>?x\<bar>" using floor_log2_bounds(1) False by simp
  also have "\<bar>?x\<bar> < 2 ^ p" using assms by (metis of_int_abs of_int_less_iff of_int_numeral of_int_power)
  finally have "pow2 (floor_log2 \<bar>?x\<bar>) < pow2 (int p)" by simp
  then have "?e \<le> 0" by (simp only: pow2_less_iff)
  then have "?x / pow2 ?e = of_int (m * 2 ^ nat (- ?e))" by (auto simp: pow2_def)
  then have "half_even (?x / pow2 ?e) = m * 2 ^ nat (- ?e)" by (simp only: half_even_int)
  then have "of_int (half_even (?x / pow2 ?e)) * pow2 ?e = ?x"
    using \<open>?x / pow2 ?e = _\<close> by (metis nonzero_eq_divide_eq pow2_nz)
  then show ?thesis using False by (simp add: rnd_def Let_def)
qed (simp add: rnd_def)

lemma rnd_0 [simp]: "rnd p 0 = 0"
  by (simp add: rnd_def)

lemma rnd_numeral [simp]: "0 \<le> p \<Longrightarrow> (numeral k :: int) < 2 ^ nat p \<Longrightarrow> rnd p (numeral k) = numeral k"
  using rnd_int_exact [of "numeral k" "nat p"] by simp

lemma rnd_neg_numeral [simp]: "0 \<le> p \<Longrightarrow> (numeral k :: int) < 2 ^ nat p \<Longrightarrow> rnd p (- numeral k) = - numeral k"
  using rnd_int_exact [of "- numeral k" "nat p"] by simp

lemma rnd_1 [simp]: "0 < p \<Longrightarrow> rnd p 1 = 1"
  using rnd_int_exact [of 1 "nat p"] by simp

lemma rnd_int_large:
  assumes "2 ^ p \<le> m" "0 < p"
  shows "2 ^ p \<le> rnd (int p) (of_int m) * 2"
proof -
  let ?x = "of_int m :: rat"
  let ?f = "floor_log2 ?x"
  have m: "0 < m" using assms(1) by (rule order_less_le_trans [rotated]) simp
  have b: "pow2 ?f \<le> ?x" "?x < pow2 (?f + 1)" using floor_log2_bounds [of ?x] m by simp_all
  have "pow2 (int p) \<le> ?x" using assms(1) by (metis of_int_le_iff of_int_numeral of_int_power pow2_nat)
  then have "pow2 (int p) < pow2 (?f + 1)" using b(2) by linarith
  then have "int p < ?f + 1" by (simp only: pow2_less_iff)
  then have f: "int p \<le> ?f" by simp
  let ?u = "pow2 (?f - int p + 1)"
  have "?u * 2 ^ (p - 1) = pow2 ?f"
  proof -
    have "pow2 (?f - int p + 1) * pow2 (int (p - 1)) = pow2 ((?f - int p + 1) + int (p - 1))" by (simp only: pow2_add)
    moreover have "(?f - int p + 1) + int (p - 1) = ?f" using assms(2) by simp
    ultimately show ?thesis by (simp only: pow2_nat)
  qed
  then have "2 ^ (p - 1) * ?u \<le> ?x" using b(1) by (simp add: mult.commute)
  then have "of_int (2 ^ (p - 1)) \<le> ?x / ?u" by (simp add: pos_le_divide_eq)
  then have "2 ^ (p - 1) \<le> \<lfloor>?x / ?u\<rfloor>" by (simp only: le_floor_iff)
  then have "2 ^ (p - 1) \<le> half_even (?x / ?u)" using half_even_ge order_trans by blast
  then have "(2 ^ (p - 1) :: rat) \<le> of_int (half_even (?x / ?u))"
    by (metis of_int_le_iff of_int_numeral of_int_power)
  then have "2 ^ (p - 1) * ?u \<le> of_int (half_even (?x / ?u)) * ?u" by (simp add: mult_right_mono)
  moreover have "rnd (int p) ?x = of_int (half_even (?x / ?u)) * ?u" using m by (simp add: rnd_def Let_def)
  ultimately have "pow2 ?f \<le> rnd (int p) ?x" using \<open>?u * 2 ^ (p - 1) = pow2 ?f\<close> by (metis mult.commute)
  moreover have "(2 :: rat) ^ p \<le> pow2 ?f" using f pow2_less_iff [of ?f "int p"] pow2_nat [of p] by (simp del: pow2_less_iff)
  moreover have "0 < (2 :: rat) ^ p" by simp
  ultimately show ?thesis by linarith
qed

text \<open>A rounded number is not changed by another rounding to the same number of digits.\<close>

lemma floor_log2_unique: "0 < x \<Longrightarrow> pow2 k \<le> x \<Longrightarrow> x < pow2 (k + 1) \<Longrightarrow> floor_log2 x = k"
proof -
  assume x: "0 < x" "pow2 k \<le> x" "x < pow2 (k + 1)"
  have "pow2 k < pow2 (floor_log2 x + 1)" "pow2 (floor_log2 x) < pow2 (k + 1)"
    using floor_log2_bounds [OF x(1)] x(2,3) by linarith+
  then show ?thesis by simp
qed

lemma rnd_scale: "rnd p (x * pow2 k) = rnd p x * pow2 k"
proof (cases "x = 0")
  case False
  let ?f = "floor_log2 \<bar>x\<bar>"
  have "pow2 (?f + k) \<le> \<bar>x\<bar> * pow2 k" "\<bar>x\<bar> * pow2 k < pow2 (?f + k + 1)"
    using floor_log2_bounds [of "\<bar>x\<bar>"] False by (simp_all add: pow2_add)
  then have "floor_log2 \<bar>x * pow2 k\<bar> = ?f + k"
    using False pow2_pos [of k] by (intro floor_log2_unique) (simp_all add: abs_mult abs_of_pos)
  moreover have "pow2 (?f + k - p + 1) = pow2 (?f - p + 1) * pow2 k" by (metis ab_semigroup_add_class.add.commute add.left_commute diff_add_eq pow2_add)
  ultimately show ?thesis using False by (simp add: rnd_def Let_def)
qed simp

lemma rnd_int_exact_le:
  assumes "\<bar>m\<bar> \<le> 2 ^ p" "0 < p"
  shows "rnd (int p) (of_int m) = of_int m"
proof (cases "\<bar>m\<bar> = 2 ^ p")
  case True
  have "rnd (int p) (of_int s * pow2 (int p)) = of_int s * pow2 (int p)" if "\<bar>s\<bar> = 1" for s
    using rnd_int_exact [of s p] assms(2) that rnd_scale [of "int p" "of_int s" "int p"]
    by (simp del: pow2_nat)
  moreover have "of_int m = of_int (sgn m) * pow2 (int p)"
    using True by (metis of_int_mult of_int_numeral of_int_power pow2_nat sgn_mult_abs)
  moreover have "\<bar>sgn m\<bar> = 1" using True by (auto simp: sgn_if)
  ultimately show ?thesis by simp
next
  case False
  then show ?thesis using assms by (intro rnd_int_exact) simp
qed

lemma half_even_mono: "x \<le> y \<Longrightarrow> half_even x \<le> half_even y"
proof -
  assume xy: "x \<le> y"
  have f: "\<lfloor>x\<rfloor> \<le> \<lfloor>y\<rfloor>" using xy by (rule floor_mono)
  have b: "half_even z \<le> \<lfloor>z\<rfloor> + 1" "\<lfloor>z\<rfloor> \<le> half_even z" for z by (auto simp: half_even_def Let_def)
  show ?thesis
  proof (cases "\<lfloor>x\<rfloor> = \<lfloor>y\<rfloor>")
    case True
    then show ?thesis using xy by (auto simp: half_even_def Let_def)
  next
    case False
    then show ?thesis using f b [of x] b [of y] by linarith
  qed
qed

lemma rnd_nonneg: "0 \<le> x \<Longrightarrow> 0 \<le> rnd p x"
proof (cases "x = 0")
  case False
  assume "0 \<le> x"
  then have "0 \<le> \<lfloor>x / pow2 (floor_log2 \<bar>x\<bar> - p + 1)\<rfloor>" by (simp add: less_imp_le)
  then have "0 \<le> half_even (x / pow2 (floor_log2 \<bar>x\<bar> - p + 1))" using half_even_ge order_trans by blast
  then show ?thesis using False by (simp add: rnd_def Let_def mult_nonneg_nonneg less_imp_le)
qed simp

lemma half_even_bound: "\<bar>y\<bar> < 2 ^ p \<Longrightarrow> \<bar>half_even y\<bar> \<le> 2 ^ p"
proof -
  assume y: "\<bar>y\<bar> < 2 ^ p"
  have "- (2 ^ p) \<le> \<lfloor>y\<rfloor>" using y by (simp add: le_floor_iff)
  moreover have "\<lfloor>y\<rfloor> < 2 ^ p" using y by (simp add: floor_less_iff)
  moreover have "\<lfloor>y\<rfloor> \<le> half_even y" "half_even y \<le> \<lfloor>y\<rfloor> + 1" by (auto simp: half_even_def Let_def)
  ultimately show ?thesis by linarith
qed

lemma rnd_rnd:
  assumes "0 < p"
  shows "rnd (int p) (rnd (int p) x) = rnd (int p) x"
proof (cases "x = 0")
  case False
  define u where "u = pow2 (floor_log2 \<bar>x\<bar> - int p + 1)"
  have "\<bar>x\<bar> < pow2 (floor_log2 \<bar>x\<bar> + 1)" using floor_log2_bounds(2) False by simp
  also have "\<dots> = 2 ^ p * u" unfolding u_def pow2_nat [symmetric] pow2_add [symmetric] by simp
  finally have "\<bar>x / u\<bar> < 2 ^ p" by (simp add: u_def pos_divide_less_eq abs_of_pos)
  from half_even_bound [OF this] have "rnd (int p) (of_int (half_even (x / u))) = of_int (half_even (x / u))"
    using assms by (intro rnd_int_exact_le)
  then show ?thesis using False rnd_scale [of "int p" "of_int (half_even (x / u))" "floor_log2 \<bar>x\<bar> - int p + 1"]
    by (simp add: rnd_def [of _ x] Let_def flip: u_def)
qed simp

section \<open>Properties\<close>

text \<open>
  C30: \<open>GetThreadTime\<close> finds the four times in the line the kernel writes for a thread, whatever its name is as long
  as it contains no closing parenthesis: the sum is that of the values 11 to 14 after the state.
\<close>

theorem get_thread_time_roundtrip:
  assumes "stat_path pid tid = Some path" "fs path = Some (stat_line k comm state vals)"
    and "CHR '')'' \<notin> set comm" "nl \<notin> set comm" "length comm \<le> 64" "state \<noteq> nl"
    and "length (stat_line k comm state vals) < 1024" "14 \<le> length vals" "\<forall>i\<in>set (take 14 vals). in_int32 i"
    and "0 \<le> vals ! 10" "0 \<le> vals ! 11" "0 \<le> vals ! 12" "0 \<le> vals ! 13"
    and "vals ! 10 + vals ! 11 + vals ! 12 + vals ! 13 < 2 ^ 31"
  shows "GetThreadTime fs pid tid = Some (vals ! 10 + vals ! 11 + vals ! 12 + vals ! 13)"
  using GetThreadTime_line [of pid tid path fs k comm state vals] assms by simp

text \<open>Without the file the time is -1.\<close>

theorem get_thread_time_no_file:
  assumes "stat_path pid tid = Some path" "fs path = None"
  shows "GetThreadTime fs pid tid = Some (- 1)"
  using assms by (simp add: GetThreadTime_def)

text \<open>
  A thread whose name contains \<open>)\<close> is not understood: the scan starts after the first parenthesis, and the times
  stay unset.
\<close>

theorem get_thread_time_parenthesis_in_name:
  assumes "stat_path pid tid = Some path" "comm = a @ '') '' @ c # CHR '')'' # b"
    and "fs path = Some (stat_line k comm state vals)" "CHR '')'' \<notin> set a" "nl \<notin> set comm" "length a \<le> 64"
    and "state \<noteq> nl" "length (stat_line k comm state vals) < 1024"
  shows "GetThreadTime fs pid tid = None"
proof -
  let ?a = "show_int k @ '' ''" and ?c = "'') '' @ state # spaced vals"
  let ?l = "?a @ CHR ''('' # comm @ ?c"
  have line: "stat_line k comm state vals = ?l @ [nl]" by (simp add: stat_line_def)
  have "nl \<notin> set ?l" using assms(5,7) by (auto simp: show_int_chars spaced_no_nl)
  then have "fgets 1024 (stat_line k comm state vals) = Some (?l @ [nl])"
    using fgets_line [of ?l 1024 "[]"] assms(8) by (simp add: line)
  moreover have "strchr CHR ''('' (?l @ [nl]) = Some (length ?a)"
    using strchr_first [of "CHR ''(''" ?a] by (simp add: show_int_chars)
  moreover have "strchr CHR '')'' (?l @ [nl]) = Some (length (?a @ CHR ''('' # a))"
    using strchr_first [of "CHR '')''" "?a @ CHR ''('' # a"] assms(2,4) by (simp add: show_int_chars)
  moreover have "drop (length (?a @ CHR ''('' # a) + 2) (?l @ [nl]) = c # CHR '')'' # b @ ?c @ [nl]"
  proof -
    let ?p = "?a @ CHR ''('' # a @ '') ''"
    have "?l @ [nl] = ?p @ (c # CHR '')'' # b @ ?c @ [nl])" "length (?a @ CHR ''('' # a) + 2 = length ?p"
      by (simp_all add: assms(2))
    then show ?thesis by (metis append_eq_conv_conj)
  qed
  moreover have "scan_times (c # CHR '')'' # r) = None" for r
    by (simp add: scan_times_def numeral_eq_Suc scan_int_def scan_nat_def is_space_def is_digit_def Let_def)
  ultimately show ?thesis using assms(1,3,6) by (simp add: GetThreadTime_def)
qed

text \<open>The mean of the usages as \<open>StopTrack\<close> computes it.\<close>

definition mean_usage :: "tid_info list \<Rightarrow> fl" where
  "mean_usage ts = fl_div 24 (foldl (\<lambda>t x. fl_add 24 t (the (cpuUseAge x))) (Fin 0) ts) (fl_int 24 (int (length ts)))"

definition readable :: "(int \<Rightarrow> int option) \<Rightarrow> tid_info \<Rightarrow> bool" where
  "readable get x \<longleftrightarrow> (case get (p_tid x) of Some t \<Rightarrow> 0 \<le> t | None \<Rightarrow> False)"

lemma usage_loop_result:
  "usage_loop get n all fs xs tot = Some (b, ys, tot') \<Longrightarrow>
    length ys = length xs \<and> (b \<longleftrightarrow> (\<forall>x\<in>set xs. readable get x))
    \<and> (b \<longrightarrow> tot' = foldl (\<lambda>t x. fl_add 24 t (the (cpuUseAge x))) tot ys \<and> (\<forall>y\<in>set ys. cpuUseAge y \<noteq> None))"
proof (induction xs arbitrary: fs tot b ys tot')
  case (Cons x xs)
  obtain t where t: "get (p_tid x) = Some t" using Cons.prems by (auto split: Option.bind_splits)
  show ?case
  proof (cases "t < 0")
    case True
    then show ?thesis using Cons.prems t by (auto simp: readable_def)
  next
    case False
    then obtain f fs' ys' where 1: "fs = f # fs'" "ys = x\<lparr>cpuUseAge := Some (usage n all (t - f))\<rparr> # ys'"
      "usage_loop get n all fs' xs (fl_add 24 tot (usage n all (t - f))) = Some (b, ys', tot')"
      using Cons.prems t by (auto simp: Let_def split: Option.bind_splits list.splits)
    then show ?thesis using Cons.IH [OF 1(3)] False t by (auto simp: readable_def)
  qed
qed auto

lemma deviates_threshold:
  "deviates avg u = Some b \<Longrightarrow> \<exists>d. fl_add 24 u (fl_neg avg) = Fin d \<and> (b \<longleftrightarrow> 31 \<le> \<bar>d\<bar>)"
proof -
  assume a: "deviates avg u = Some b"
  then obtain d i where d: "fl_add 24 u (fl_neg avg) = Fin d" "i = truncate_rat d"
    "b \<longleftrightarrow> rnd 24 (of_int \<bar>i\<bar>) > taskLoadage"
    by (cases "fl_add 24 u (fl_neg avg)") (auto simp: deviates_def Let_def split: if_splits)
  have "rnd 24 (of_int \<bar>i\<bar>) > taskLoadage \<longleftrightarrow> 31 \<le> \<bar>i\<bar>"
  proof (cases "\<bar>i\<bar> < 2 ^ 24")
    case True
    then show ?thesis using rnd_int_exact [of "\<bar>i\<bar>" 24] by (auto simp: taskLoadage_def)
  next
    case False
    then have "2 ^ 24 \<le> rnd (int 24) (of_int \<bar>i\<bar>) * 2" by (intro rnd_int_large) simp_all
    then show ?thesis using False by (simp add: taskLoadage_def)
  qed
  moreover have "\<bar>i\<bar> = \<lfloor>\<bar>d\<bar>\<rfloor>" by (simp add: d(2) truncate_rat_def abs_if) linarith
  ultimately have "b \<longleftrightarrow> 31 \<le> \<bar>d\<bar>" using d(3) by (simp add: le_floor_iff)
  then show ?thesis using d(1) by blast
qed

lemma deviation_loop_result:
  "deviation_loop avg xs = Some b \<Longrightarrow>
    b \<longleftrightarrow> (\<exists>x\<in>set xs. \<exists>d. fl_add 24 (the (cpuUseAge x)) (fl_neg avg) = Fin d \<and> 31 \<le> \<bar>d\<bar>)"
proof (induction xs)
  case (Cons x xs)
  obtain u c where u: "cpuUseAge x = Some u" "deviates avg u = Some c"
    "(if c then Some True else deviation_loop avg xs) = Some b"
    using Cons.prems by (auto split: Option.bind_splits)
  obtain d where d: "fl_add 24 u (fl_neg avg) = Fin d" "c \<longleftrightarrow> 31 \<le> \<bar>d\<bar>" using deviates_threshold [OF u(2)] by blast
  show ?case using Cons.IH u d by (cases c) auto
qed simp

lemma StopTrack_busy:
  assumes "StopTrack fs nprocs s = Some (b, s')"
  shows "b \<longleftrightarrow> (\<forall>x\<in>set (tids s). readable (GetThreadTime fs (phy_pid s)) x)
    \<and> (\<exists>x\<in>set (tids s'). \<exists>d. fl_add 24 (the (cpuUseAge x)) (fl_neg (mean_usage (tids s'))) = Fin d \<and> 31 \<le> \<bar>d\<bar>)"
proof -
  obtain all ok ts tot where u: "usage_loop (GetThreadTime fs (phy_pid s)) nprocs all (firstTidTimes s) (tids s) (Fin 0)
      = Some (ok, ts, tot)" "s' = s\<lparr>tids := ts\<rparr>"
    "if ok then deviation_loop (fl_div 24 tot (fl_int 24 (int (length ts)))) ts = Some b else \<not> b"
    using assms by (auto simp: StopTrack_def Let_def split: Option.bind_splits if_splits)
  note r = usage_loop_result [OF u(1)]
  show ?thesis
  proof (cases ok)
    case True
    then show ?thesis using r u(2,3) deviation_loop_result by (auto simp: mean_usage_def)
  next
    case False
    then show ?thesis using r u(3) by simp
  qed
qed

text \<open>
  \<open>StopTrack\<close> asks for balancing exactly when the time of every thread could be read and the usage of some
  thread differs from the mean by 31 percent points or more; the threshold is 30, but the difference is
  cut to an integer before it is compared.
\<close>

theorem stop_track_threshold:
  assumes "StopTrack fs nprocs s = Some (b, s')"
  shows "b \<longleftrightarrow> (\<forall>x\<in>set (tids s). readable (GetThreadTime fs (phy_pid s)) x)
    \<and> (\<exists>x\<in>set (tids s'). \<exists>d. fl_add 24 (the (cpuUseAge x)) (fl_neg (mean_usage (tids s'))) = Fin d \<and> 31 \<le> \<bar>d\<bar>)"
  by (rule StopTrack_busy [OF assms])

definition demo_files :: "string \<Rightarrow> string option" where
  "demo_files p =
     (if p = ''/proc/stat'' then Some (''cpu  150 0 50 300 0 0 0 0 0 0'' @ [nl])
      else if p = ''/proc/7/stat'' then Some (stat_line 7 ''main'' (CHR ''R'') [1, 7, 7, 0, -1, 4194304, 90, 0, 0, 0, 80, 30, 0, 0, 20, 0])
      else if p = ''/proc/7/task/9/stat'' then Some (stat_line 9 ''worker'' (CHR ''S'') [1, 7, 7, 0, -1, 4194304, 90, 0, 0, 0, 6, 4, 0, 0, 20, 0])
      else None)"

definition demo_phy :: phy_info where
  "demo_phy = \<lparr>tids = [\<lparr>p_tid = 0, cpuUseAge = None\<rparr>, \<lparr>p_tid = 9, cpuUseAge = None\<rparr>], firstTidTimes = [10, 10],
     firstData = map Some [100, 0, 50, 250, 0, 0, 0, 0], phy_pid = 7\<rparr>"

lemma demo_line_lengths:
  "length (stat_line 7 ''main'' (CHR ''R'') [1, 7, 7, 0, -1, 4194304, 90, 0, 0, 0, 80, 30, 0, 0, 20, 0]) < 1024"
  "length (stat_line 9 ''worker'' (CHR ''S'') [1, 7, 7, 0, -1, 4194304, 90, 0, 0, 0, 6, 4, 0, 0, 20, 0]) < 1024"
  by (simp_all add: stat_line_def spaced_def show_int_def show_nat.simps)

lemma demo_paths: "stat_path 7 0 = Some ''/proc/7/stat''" "stat_path 7 9 = Some ''/proc/7/task/9/stat''"
  by (simp_all add: stat_path_def show_int_def show_nat.simps digit_def)

lemma demo_times: "GetThreadTime demo_files 7 0 = Some 110" "GetThreadTime demo_files 7 9 = Some 10"
proof -
  show "GetThreadTime demo_files 7 0 = Some 110"
    using GetThreadTime_line [OF demo_paths(1) _ _ _ _ _ demo_line_lengths(1), of demo_files]
    by (simp add: demo_files_def in_int32_def)
  show "GetThreadTime demo_files 7 9 = Some 10"
    using GetThreadTime_line [OF demo_paths(2) _ _ _ _ _ demo_line_lengths(2), of demo_files]
    by (simp add: demo_files_def in_int32_def)
qed

lemma demo_cpu_line:
  "read_cpu_line (''cpu  150 0 50 300 0 0 0 0 0 0'' @ [nl]) old = Some (map Some [150, 0, 50, 300, 0, 0, 0, 0] @ drop 8 old)"
  by (simp add: read_cpu_line_def fgets_def scan_word_def is_space_def scan_int_def scan_nat_def is_digit_def
      digits_val_def digit_val_def Let_def numeral_eq_Suc)

lemma get_thread_time_roundtrip_witness: "GetThreadTime demo_files 7 9 = Some 10"
  using get_thread_time_roundtrip [OF demo_paths(2) _ _ _ _ _ demo_line_lengths(2), of demo_files]
  by (simp add: demo_files_def in_int32_def)

definition demo_after :: phy_info where
  "demo_after = demo_phy\<lparr>tids := [\<lparr>p_tid = 0, cpuUseAge = Some (Fin 200)\<rparr>, \<lparr>p_tid = 9, cpuUseAge = Some (Fin 0)\<rparr>]\<rparr>"

lemma stop_track_demo: "StopTrack demo_files 2 demo_phy = Some (True, demo_after)"
proof -
  have f: "demo_files ''/proc/stat'' = Some (''cpu  150 0 50 300 0 0 0 0 0 0'' @ [nl])" by (simp add: demo_files_def)
  show ?thesis
    by (simp only: StopTrack_def f option.simps bind.simps demo_cpu_line)
      (simp add: demo_after_def demo_phy_def sum_data_def fl_int_def demo_times usage_def in_int32_def Let_def
        deviates_def truncate_rat_def taskLoadage_def)
qed

lemma stop_track_threshold_witness:
  "StopTrack demo_files 2 demo_phy = Some (True, demo_after)
   \<and> (\<exists>x\<in>set (tids demo_after). \<exists>d. fl_add 24 (the (cpuUseAge x)) (fl_neg (mean_usage (tids demo_after))) = Fin d \<and> 31 \<le> \<bar>d\<bar>)"
  using stop_track_threshold [OF stop_track_demo] stop_track_demo by simp

text \<open>When no tick was counted between the two readings the usages are not numbers and comparing them is undefined.\<close>

definition non_finite :: "fl \<Rightarrow> bool" where
  "non_finite x \<longleftrightarrow> (\<forall>r. x \<noteq> Fin r)"

lemma non_finite_add: "non_finite x \<or> non_finite y \<Longrightarrow> non_finite (fl_add p x y)"
  by (cases x; cases y) (auto simp: non_finite_def)

lemma undefined_deviation: "non_finite tot \<Longrightarrow> 0 < n \<Longrightarrow> deviates (fl_div 24 tot (fl_int 24 n)) u = None"
proof -
  assume "non_finite tot" "0 < n"
  then have "non_finite (fl_neg (fl_div 24 tot (fl_int 24 n)))"
    by (cases tot) (auto simp: non_finite_def fl_int_def)
  then have "non_finite (fl_add 24 u (fl_neg (fl_div 24 tot (fl_int 24 n))))" by (simp add: non_finite_add)
  then show ?thesis
    by (cases "fl_add 24 u (fl_neg (fl_div 24 tot (fl_int 24 n)))") (auto simp: deviates_def non_finite_def)
qed

theorem stop_track_without_ticks_undefined:
  assumes "fs ''/proc/stat'' = Some content" "read_cpu_line content (replicate 8 (Some 0)) = Some (firstData s)"
    and "tids s \<noteq> []" "\<forall>x\<in>set (tids s). readable (GetThreadTime fs (phy_pid s)) x"
  shows "StopTrack fs nprocs s = None"
proof -
  have u: "non_finite (usage nprocs (Fin 0) d)" for d
    by (auto simp: usage_def fl_int_def non_finite_def)
  have keep: "non_finite tot"
    if "usage_loop get nprocs (Fin 0) fs xs tot0 = Some (b, ys, tot)" "xs \<noteq> [] \<or> non_finite tot0"
       "\<forall>x\<in>set xs. readable get x" for get fs xs tot0 b ys tot
    using that
  proof (induction xs arbitrary: fs tot0 b ys)
    case (Cons x xs)
    then obtain f fs' t ys' where "usage_loop get nprocs (Fin 0) fs' xs (fl_add 24 tot0 (usage nprocs (Fin 0) (t - f))) = Some (b, ys', tot)"
      by (auto simp: readable_def Let_def split: Option.bind_splits list.splits option.splits if_splits)
    from Cons.IH [OF this] non_finite_add [OF disjI2 [OF u]] Cons.prems(3) show ?case by simp
  qed auto
  show ?thesis
  proof (cases "usage_loop (GetThreadTime fs (phy_pid s)) nprocs (Fin 0) (firstTidTimes s) (tids s) (Fin 0)")
    case None
    then show ?thesis using assms(1,2) by (auto simp: StopTrack_def fl_int_def Let_def split: Option.bind_splits)
  next
    case (Some r)
    obtain b ts tot where r: "r = (b, ts, tot)" by (cases r)
    have tot: "non_finite tot" by (rule keep [OF Some [unfolded r]]) (use assms(3,4) in auto)
    have b: "b" using usage_loop_result [OF Some [unfolded r]] assms(4) by blast
    have "length ts = length (tids s)" using usage_loop_result [OF Some [unfolded r]] by blast
    then obtain y ys where ts: "ts = y # ys" using assms(3) by (cases ts) auto
    have "deviation_loop (fl_div 24 tot (fl_int 24 (int (length ts)))) ts = None"
      using undefined_deviation [OF tot, of "int (length ts)"] by (simp add: ts del: of_nat_Suc split: Option.bind_split)
    then show ?thesis using assms(1,2) Some r b by (auto simp: StopTrack_def fl_int_def Let_def split: Option.bind_splits)
  qed
qed

text \<open>A thread that is the only one tracked does not differ from the mean: no balancing is asked for.\<close>

lemma single_mean: "usage n all d = Fin x \<Longrightarrow> fl_add 24 (Fin x) (fl_neg (fl_div 24 (fl_add 24 (Fin 0) (Fin x)) (fl_int 24 1))) = Fin 0"
proof -
  assume "usage n all d = Fin x"
  then obtain y where "x = rnd 24 y"
    by (cases "fl_mul 53 (fl_div 53 (fl_int 53 d) all) (fl_int 53 n)") (auto simp: usage_def)
  then have "rnd 24 x = x" using rnd_rnd [of 24 y] by simp
  then show ?thesis by (simp add: fl_int_def)
qed

theorem stop_track_single_thread:
  assumes "StopTrack fs nprocs s = Some (b, s')" "length (tids s) = 1"
  shows "\<not> b"
proof -
  obtain x where x: "tids s = [x]" using assms(2) by (auto simp: length_Suc_conv)
  obtain all ok ts tot where u: "usage_loop (GetThreadTime fs (phy_pid s)) nprocs all (firstTidTimes s) [x] (Fin 0)
      = Some (ok, ts, tot)" "if ok then deviation_loop (fl_div 24 tot (fl_int 24 (int (length ts)))) ts = Some b else \<not> b"
    using assms(1) x by (auto simp: StopTrack_def Let_def split: Option.bind_splits if_splits)
  show ?thesis
  proof (cases ok)
    case True
    then obtain d where d: "ts = [x\<lparr>cpuUseAge := Some (usage nprocs all d)\<rparr>]" "tot = fl_add 24 (Fin 0) (usage nprocs all d)"
      using u(1) by (auto simp: Let_def split: Option.bind_splits if_splits list.splits)
    have D: "deviation_loop (fl_div 24 (fl_add 24 (Fin 0) (usage nprocs all d)) (fl_int 24 1)) ts = Some b"
      using u(2) True d by simp
    from D obtain c where c: "deviates (fl_div 24 (fl_add 24 (Fin 0) (usage nprocs all d)) (fl_int 24 1)) (usage nprocs all d) = Some c"
      "b \<longleftrightarrow> c"
      unfolding d(1) by (auto split: Option.bind_splits if_splits)
    show ?thesis
    proof (cases "usage nprocs all d")
      case (Fin y)
      show ?thesis using deviates_threshold [OF c(1)] single_mean [OF Fin] c(2) unfolding Fin by auto
    next
      case (Inf s)
      then show ?thesis using c by (auto simp: deviates_def fl_int_def)
    next
      case NaN
      then show ?thesis using c by (simp add: deviates_def)
    qed
  next
    case False
    then show ?thesis using u(2) by simp
  qed
qed

end
