(* ===== verification/Scheduler.thy ===== *)
theory Scheduler
  imports Processer
begin

text \<open>
  \<open>Scheduler\<close> of \<open>scheduler/scheduler.h\<close> and \<open>scheduler/scheduler.cpp\<close>: the processers, the choice of
  the processer a task or timer goes to, the start and the balancing of the tasks over the threads.
  A processer is identified by its index in \<open>processers_\<close>. The scheduler here is the only one of the program; several
  of them, and the exit list, are in \<open>Runtime\<close>, the threads that \<open>Stop\<close> waits for in \<open>Shutdown\<close>, and the measuring
  that precedes the dispatcher's call of \<open>AvgTotalTasks\<close> in \<open>Dispatcher\<close>. The debug output is not modelled.
\<close>

section \<open>State\<close>

record 'f sched =
  processers :: "proc list"
  s_world :: "'f world"
  lastActive :: uint32
  minThreadNumber :: cint
  maxThreadNumber :: cint
  started :: bool
  dispatcher :: bool

definition world_new :: "uint32 \<Rightarrow> 'f world" where
  "world_new i = \<lparr>tasks = Map.empty, free_task_map = [], taskCount = 0, TaskIdFactory = i, stopped = False\<rparr>"

definition sched_new :: "uint32 \<Rightarrow> 'f sched" where
  "sched_new i = \<lparr>processers = [proc_new 0], s_world = world_new i, lastActive = 0, minThreadNumber = 1,
     maxThreadNumber = 1, started = False, dispatcher = False\<rparr>"

definition upd_proc :: "nat \<Rightarrow> (proc \<Rightarrow> proc) \<Rightarrow> 'f sched \<Rightarrow> 'f sched option" where
  "upd_proc i f s =
     (if i < length (processers s) then Some (s\<lparr>processers := (processers s)[i := f (processers s ! i)]\<rparr>)
      else None)"

section \<open>Queries\<close>

definition IsEmpty :: "'f sched \<Rightarrow> bool" where
  "IsEmpty s \<longleftrightarrow> taskCount (s_world s) = 0"

definition TaskCount :: "'f sched \<Rightarrow> uint32" where
  "TaskCount s = taskCount (s_world s)"

definition GetCurrentTaskID :: "proc option \<Rightarrow> 'f sched \<Rightarrow> uint32 option" where
  "GetCurrentTaskID pr s =
     (case GetCurrentTask pr of None \<Rightarrow> Some 0 | Some tk \<Rightarrow> map_option t_id (tasks (s_world s) tk))"

definition GetCurrentProcesserID :: "proc option \<Rightarrow> int" where
  "GetCurrentProcesserID pr = (case pr of Some p \<Rightarrow> p_id p | None \<Rightarrow> - 1)"

definition GetCurrentTaskYieldCount :: "proc option \<Rightarrow> 'f sched \<Rightarrow> uint64 option" where
  "GetCurrentTaskYieldCount pr s =
     (case GetCurrentTask pr of None \<Rightarrow> Some 0 | Some tk \<Rightarrow> map_option t_yieldCount (tasks (s_world s) tk))"

section \<open>Choosing a processer\<close>

text \<open>
  The loop shared by \<open>AddTask\<close> and \<open>CreateMilliTimer\<close>: at most one pass over the processers from
  \<open>idx\<close> on, up to the first active one. It yields the processer looked at last and \<open>idx\<close>.
\<close>

primrec find_active :: "proc list \<Rightarrow> nat \<Rightarrow> uint32 \<Rightarrow> nat option \<Rightarrow> nat option \<times> uint32" where
  "find_active ps 0 idx cur = (cur, idx)"
| "find_active ps (Suc k) idx cur =
     (let idx = ucast (ucast idx mod (of_nat (length ps) :: size_t));
          p = unat idx
      in if p < length ps \<and> p_active (ps ! p) then (Some p, idx) else find_active ps k (idx + 1) (Some p))"

definition AddTask_any :: "addr \<Rightarrow> nat option \<Rightarrow> 'f sched \<Rightarrow> 'f sched option" where
  "AddTask_any tk cur s = do {
     let (cur, idx) = find_active (processers s) (length (processers s)) (lastActive s) cur;
     p \<leftarrow> cur;
     upd_proc p (proc_AddTask tk) (s\<lparr>lastActive := idx + 1\<rparr>) }"

definition sched_AddTask :: "addr \<Rightarrow> 'f sched \<Rightarrow> 'f sched option" where
  "sched_AddTask tk s = do {
     k \<leftarrow> tasks (s_world s) tk;
     (case t_proc k of
        Some p \<Rightarrow>
          if p < length (processers s) then
            (if p_active (processers s ! p) then upd_proc p (proc_AddTask tk) s else AddTask_any tk (Some p) s)
          else None
      | None \<Rightarrow> AddTask_any tk None s) }"

definition sched_CreateTask :: "env \<Rightarrow> 'f task_arg \<Rightarrow> cint \<Rightarrow> 'f sched \<Rightarrow> 'f sched option" where
  "sched_CreateTask e arg stack_size s = do {
     (tk, w) \<leftarrow> create_task e arg stack_size (s_world s);
     sched_AddTask tk (s\<lparr>s_world := w\<rparr>) }"

section \<open>Timers\<close>

text \<open>
  \<open>current\<close> is the processer of the calling thread if it belongs to this scheduler.
\<close>

definition AddMilliTimer_on ::
  "nat \<Rightarrow> int \<Rightarrow> int \<Rightarrow> nat \<Rightarrow> ptr \<Rightarrow> 'f sched \<Rightarrow> (timer \<times> 'f sched) option" where
  "AddMilliTimer_on p clock duration cb param s =
     (if p < length (processers s) then
        (let (tm, q) = AddMilliTimer clock p duration cb param (processers s ! p)
         in Some (tm, s\<lparr>processers := (processers s)[p := q]\<rparr>))
      else None)"

definition CreateMilliTimer ::
  "nat option \<Rightarrow> int \<Rightarrow> int \<Rightarrow> nat \<Rightarrow> ptr \<Rightarrow> 'f sched \<Rightarrow> (timer \<times> 'f sched) option" where
  "CreateMilliTimer current clock duration cb param s =
     (let any = do {
            let (cur, idx) = find_active (processers s) (length (processers s)) (lastActive s) current;
            p \<leftarrow> cur;
            AddMilliTimer_on p clock duration cb param (s\<lparr>lastActive := idx\<rparr>) }
      in case current of
           Some p \<Rightarrow>
             if p < length (processers s) then
               (if p_active (processers s ! p) then AddMilliTimer_on p clock duration cb param s else any)
             else None
         | None \<Rightarrow> any)"

definition sched_StopTimer :: "timer option \<Rightarrow> 'f sched \<Rightarrow> (bool \<times> timer option \<times> 'f sched) option" where
  "sched_StopTimer h s =
     (case h of
        None \<Rightarrow> Some (False, None, s)
      | Some tm \<Rightarrow>
          (case t_processer tm of
             None \<Rightarrow> Some (False, Some tm, s)
           | Some p \<Rightarrow>
               if p < length (processers s) then do {
                 (b, tm, q) \<leftarrow> proc_StopTimer tm (processers s ! p);
                 Some (b, Some tm, s\<lparr>processers := (processers s)[p := q]\<rparr>) }
               else None))"

section \<open>Balancing\<close>

text \<open>\<open>cut\<close> in its list form; the first loop takes the surplus, the second one gives it away.\<close>

definition cut_list :: "size_t \<Rightarrow> 'a list \<Rightarrow> 'a list \<times> 'a list" where
  "cut_list n xs = (take (unat n) xs, drop (unat n) xs)"

primrec take_surplus :: "size_t \<Rightarrow> (size_t \<times> proc) list \<Rightarrow> addr list \<Rightarrow> addr list \<times> proc list" where
  "take_surplus avg [] tks = (tks, [])"
| "take_surplus avg (cp # cps) tks =
     (let (tmp, p) = (if avg < fst cp then Steal (fst cp - avg) (snd cp) else ([], snd cp));
          (tks, ps) = take_surplus avg cps (tks @ tmp)
      in (tks, p # ps))"

primrec fill_up :: "size_t \<Rightarrow> (size_t \<times> proc) list \<Rightarrow> addr list \<Rightarrow> addr list \<times> proc list" where
  "fill_up avg [] tks = (tks, [])"
| "fill_up avg (cp # cps) tks =
     (if avg > fst cp then
        (let (inn, tks) = cut_list (avg - fst cp) tks
         in if inn = [] then (tks, snd cp # map snd cps)
            else (let (tks, ps) = fill_up avg cps tks in (tks, proc_AddTasks inn (snd cp) # ps)))
      else (let (tks, ps) = fill_up avg cps tks in (tks, snd cp # ps)))"

definition avg_procs :: "proc list \<Rightarrow> proc list" where
  "avg_procs ps =
     (if length ps < 2 then ps
      else (let counts = map RunnableSize ps;
                total = sum_list counts;
                avg = total div of_nat (length ps)
            in if avg \<le> 0 then ps
               else (let (tks, ps) = take_surplus avg (zip counts ps) [];
                         (tks, ps) = fill_up avg (zip counts ps) tks
                     in if tks \<noteq> [] then ps[0 := proc_AddTasks tks (ps ! 0)] else ps)))"

definition AvgTotalTasks :: "'f sched \<Rightarrow> 'f sched" where
  "AvgTotalTasks s = s\<lparr>processers := avg_procs (processers s)\<rparr>"

section \<open>Start and stop\<close>

text \<open>\<open>hw\<close> is the number of hardware threads.\<close>

definition thread_counts :: "cint \<Rightarrow> cint \<Rightarrow> cint \<Rightarrow> cint \<times> cint" where
  "thread_counts hw minThreads maxThreads =
     (let minThreads = (if sint minThreads < 1 then hw else minThreads);
          maxThreads = (if maxThreads = 0 \<or> sint maxThreads < sint minThreads then minThreads else maxThreads)
      in (minThreads, maxThreads))"

definition NewProcessThread :: "'f sched \<Rightarrow> 'f sched" where
  "NewProcessThread s = s\<lparr>processers := processers s @ [proc_new (int (length (processers s)))]\<rparr>"

primrec new_threads :: "nat \<Rightarrow> 'f sched \<Rightarrow> 'f sched" where
  "new_threads 0 s = s"
| "new_threads (Suc n) s = new_threads n (NewProcessThread s)"

datatype start_error = RepeatedStart

text \<open>Everything \<open>Start\<close> does before the main thread enters \<open>Process\<close>.\<close>

definition sched_Start :: "cint \<Rightarrow> cint \<Rightarrow> cint \<Rightarrow> 'f sched \<Rightarrow> start_error + 'f sched" where
  "sched_Start hw minThreads maxThreads s =
     (if started s then Inl RepeatedStart
      else (let (mn, mx) = thread_counts hw minThreads maxThreads;
                s = s\<lparr>started := True, minThreadNumber := mn, maxThreadNumber := mx\<rparr>;
                s = new_threads (nat (sint mn - 1)) s;
                s = AvgTotalTasks s
            in Inr (s\<lparr>dispatcher := (sint mx > 1)\<rparr>)))"

text \<open>One cycle of the dispatcher; \<open>busy\<close> is the answer of \<open>ThreadsPhyInfo::StopTrack\<close>.\<close>

definition DispatcherThread :: "bool \<Rightarrow> 'f sched \<Rightarrow> 'f sched" where
  "DispatcherThread busy s =
     (if stopped (s_world s) then s else if busy then AvgTotalTasks s else s)"

definition sched_Stop :: "'f sched \<Rightarrow> 'f sched" where
  "sched_Stop s = (if stopped (s_world s) then s else s\<lparr>s_world := (s_world s)\<lparr>stopped := True\<rparr>\<rparr>)"

text \<open>The destructor frees the cached tasks.\<close>

primrec free_cached :: "(int, addr) mmap \<Rightarrow> 'f world \<Rightarrow> 'f world option" where
  "free_cached [] w = Some w"
| "free_cached (x # xs) w =
     (if tasks w (snd x) = None then None
      else free_cached xs (w\<lparr>tasks := (tasks w)(snd x := None), free_task_map := xs\<rparr>))"

definition sched_destroy :: "'f sched \<Rightarrow> 'f sched option" where
  "sched_destroy s = do {
     let s = sched_Stop s;
     w \<leftarrow> free_cached (free_task_map (s_world s)) (s_world s);
     Some (s\<lparr>processers := [], s_world := w\<rparr>) }"

section \<open>Where a task goes\<close>

lemma find_active_first:
  assumes n: "n = length ps" "0 < n" "n < 2 ^ 32"
  shows "\<exists>d<k. p_active (ps ! ((unat idx + d) mod n)) \<Longrightarrow>
    \<exists>d<k. find_active ps k idx cur = (Some ((unat idx + d) mod n), of_nat ((unat idx + d) mod n))
      \<and> p_active (ps ! ((unat idx + d) mod n)) \<and> (\<forall>c<d. \<not> p_active (ps ! ((unat idx + c) mod n)))"
proof (induction k arbitrary: idx cur)
  case (Suc k)
  define i where "i = (ucast (ucast idx mod (of_nat n :: size_t)) :: uint32)"
  have "unat (ucast idx mod (of_nat n :: size_t)) = unat idx mod n"
    using n unat_lt_32 [of idx] by (simp add: unat_mod_distrib unat_of_nat_64 unsigned_ucast_eq take_bit_nat_eq_self)
  moreover have "unat idx mod n < 2 ^ 32" using n by (meson mod_less_divisor order_less_trans)
  ultimately have i: "unat i = unat idx mod n" by (simp add: i_def unsigned_ucast_eq take_bit_nat_eq_self)
  have lt: "unat i < n" using n i by simp
  have oi: "i = of_nat (unat i)" by simp
  have eq: "find_active ps (Suc k) idx cur
    = (if unat i < length ps \<and> p_active (ps ! unat i) then (Some (unat i), i) else find_active ps k (i + 1) (Some (unat i)))"
    by (simp add: i_def n(1) Let_def)
  show ?case
  proof (cases "p_active (ps ! unat i)")
    case True
    then show ?thesis using lt n i oi unfolding eq by (intro exI [of _ 0]) simp
  next
    case False
    have s1: "unat (i + 1) = unat i + 1"
      using lt n(3) by (intro unat_add_lem [THEN iffD1, THEN trans]) (simp_all)
    have shift: "(unat (i + 1) + d) mod n = (unat idx + Suc d) mod n" for d
      unfolding s1 i by (metis (no_types, lifting) add.assoc add_Suc_right mod_add_left_eq plus_1_eq_Suc add.commute)
    obtain d where "d < Suc k" "p_active (ps ! ((unat idx + d) mod n))" using Suc.prems by blast
    then have "\<exists>d<k. p_active (ps ! ((unat (i + 1) + d) mod n))"
      using False i shift by (cases d) auto
    from Suc.IH [OF this, of "Some (unat i)"] obtain d where d: "d < k"
      "find_active ps k (i + 1) (Some (unat i)) = (Some ((unat idx + Suc d) mod n), of_nat ((unat idx + Suc d) mod n))"
      "p_active (ps ! ((unat idx + Suc d) mod n))" "\<forall>c<d. \<not> p_active (ps ! ((unat idx + Suc c) mod n))"
      unfolding shift by blast
    have "\<not> p_active (ps ! ((unat idx + c) mod n))" if "c < Suc d" for c
      using that False i d(4) by (cases c) auto
    then show ?thesis using d False unfolding eq
      by (intro exI [of _ "Suc d"]) simp
  qed
qed simp


text \<open>A task without a processer goes to the first active one from \<open>lastActive_\<close> on.\<close>

lemma AddTask_any_ok:
  assumes n: "n = length (processers s)" "0 < n" "n < 2 ^ 32"
    and act: "\<exists>p\<in>set (processers s). p_active p"
  shows "\<exists>d<n. let p = (unat (lastActive s) + d) mod n in
    AddTask_any tk cur s = Some (s\<lparr>lastActive := of_nat p + 1,
      processers := (processers s)[p := proc_AddTask tk (processers s ! p)]\<rparr>)
    \<and> p_active (processers s ! p) \<and> (\<forall>c<d. \<not> p_active (processers s ! ((unat (lastActive s) + c) mod n)))"
proof -
  obtain i where i: "i < n" "p_active (processers s ! i)" using act n(1) by (auto simp: in_set_conv_nth)
  define l where "l = unat (lastActive s) mod n"
  have "(unat (lastActive s) + (n - l + i) mod n) mod n = (l + (n - l + i)) mod n"
    unfolding l_def by (simp add: mod_simps)
  also have "l + (n - l + i) = n + i"
  proof -
    have "l < n" using n(2) by (simp add: l_def)
    then show ?thesis by linarith
  qed
  also have "(n + i) mod n = i" using i by simp
  finally have "p_active (processers s ! ((unat (lastActive s) + (n - l + i) mod n) mod n))" using i by simp
  moreover have "(n - l + i) mod n < n" using n(2) by simp
  ultimately have "\<exists>d<n. p_active (processers s ! ((unat (lastActive s) + d) mod n))" by blast
  from find_active_first [OF n this, of cur] obtain d where d: "d < n"
    "find_active (processers s) n (lastActive s) cur
      = (Some ((unat (lastActive s) + d) mod n), of_nat ((unat (lastActive s) + d) mod n))"
    "p_active (processers s ! ((unat (lastActive s) + d) mod n))"
    "\<forall>c<d. \<not> p_active (processers s ! ((unat (lastActive s) + c) mod n))" by blast
  have "(unat (lastActive s) + d) mod n < n" using n(2) by simp
  then show ?thesis using d n(1)
    by (intro exI [of _ d]) (simp add: AddTask_any_def upd_proc_def Let_def)
qed

primrec add_all :: "addr list \<Rightarrow> 'f sched \<Rightarrow> 'f sched option" where
  "add_all [] s = Some s"
| "add_all (t # ts) s = Option.bind (sched_AddTask t s) (add_all ts)"

text \<open>The tasks that round robin from \<open>l\<close> on gives to the \<open>i\<close>-th of \<open>n\<close> processers.\<close>

primrec dealt :: "nat \<Rightarrow> nat \<Rightarrow> nat \<Rightarrow> addr list \<Rightarrow> addr list" where
  "dealt n l i [] = []"
| "dealt n l i (t # ts) = (if l mod n = i then [t] else []) @ dealt n (l mod n + 1) i ts"

lemma add_all_round_robin:
  assumes "0 < length (processers s)" "length (processers s) < 2 ^ 32" "\<forall>p\<in>set (processers s). p_active p"
    and "\<forall>t\<in>set ts. \<exists>k. tasks (s_world s) t = Some k \<and> t_proc k = None"
  shows "\<exists>l. add_all ts s = Some (s\<lparr>lastActive := l, processers := map (\<lambda>i. proc_AddTasks
     (dealt (length (processers s)) (unat (lastActive s)) i ts) (processers s ! i)) [0..<length (processers s)]\<rparr>)"
  using assms
proof (induction ts arbitrary: s)
  case Nil
  have "map (\<lambda>i. proc_AddTasks [] (processers s ! i)) [0..<length (processers s)] = processers s"
    by (simp add: proc_AddTasks_def map_nth)
  then show ?case by (intro exI [of _ "lastActive s"]) simp
next
  case (Cons t ts)
  let ?n = "length (processers s)"
  define p where "p = unat (lastActive s) mod ?n"
  have p: "p < ?n" using Cons.prems(1) by (simp add: p_def)
  define s1 where "s1 = s\<lparr>lastActive := of_nat p + 1, processers := (processers s)[p := proc_AddTask t (processers s ! p)]\<rparr>"
  have "\<exists>q\<in>set (processers s). p_active q" using Cons.prems(1,3) by (metis length_greater_0_conv list.set_sel(1))
  from AddTask_any_ok [OF refl Cons.prems(1,2) this, of t None] obtain d where d: "d < ?n"
    "AddTask_any t None s = Some (s\<lparr>lastActive := of_nat ((unat (lastActive s) + d) mod ?n) + 1,
       processers := (processers s)[(unat (lastActive s) + d) mod ?n := proc_AddTask t (processers s ! ((unat (lastActive s) + d) mod ?n))]\<rparr>)"
    "\<forall>c<d. \<not> p_active (processers s ! ((unat (lastActive s) + c) mod ?n))"
    unfolding Let_def by blast
  have "d = 0"
  proof (rule ccontr)
    assume "d \<noteq> 0"
    then have "\<not> p_active (processers s ! p)" using d(3) by (auto simp: p_def)
    then show False using Cons.prems(3) p by simp
  qed
  then have S: "sched_AddTask t s = Some s1" using d(2) Cons.prems(4) by (auto simp: sched_AddTask_def s1_def p_def)
  have l1: "unat (lastActive s1) = p + 1"
  proof -
    have "unat (of_nat (p + 1) :: uint32) = p + 1" by (rule unat_of_nat_32) (use p Cons.prems(2) in linarith)
    then show ?thesis by (simp add: s1_def add.commute)
  qed
  have "\<forall>q\<in>set (processers s1). p_active q"
    using Cons.prems(3) p by (auto simp: s1_def proc_AddTask_def dest!: set_update_subset_insert [THEN subsetD])
  then obtain l where l: "add_all ts s1 = Some (s1\<lparr>lastActive := l, processers := map (\<lambda>i. proc_AddTasks
     (dealt ?n (p + 1) i ts) (processers s1 ! i)) [0..<?n]\<rparr>)"
    using Cons.IH [of s1] Cons.prems l1 by (auto simp: s1_def)
  have "map (\<lambda>i. proc_AddTasks (dealt ?n (p + 1) i ts) (processers s1 ! i)) [0..<?n]
     = map (\<lambda>i. proc_AddTasks (dealt ?n (unat (lastActive s)) i (t # ts)) (processers s ! i)) [0..<?n]"
    using p by (intro map_cong) (auto simp: s1_def p_def proc_AddTasks_def proc_AddTask_def nth_list_update)
  then show ?case using S l by (intro exI [of _ l]) (simp add: s1_def)
qed


section \<open>What balancing does\<close>

definition queued :: "proc \<Rightarrow> addr list" where
  "queued p = runnableQueue p @ newQueue p"

definition all_queued :: "proc list \<Rightarrow> addr multiset" where
  "all_queued ps = sum_list (map (\<lambda>p. mset (queued p)) ps)"

lemma all_queued_simps [simp]:
  "all_queued [] = {#}" "all_queued (p # ps) = mset (queued p) + all_queued ps"
  by (simp_all add: all_queued_def)

lemma queued_AddTasks [simp]: "queued (proc_AddTasks ts p) = queued p @ ts"
  by (simp add: queued_def proc_AddTasks_def)

lemma Steal_queued: "Steal n p = (st, p') \<Longrightarrow> mset (queued p) = mset st + mset (queued p')"
  using Steal_conserves [of n p st p'] by (simp add: queued_def ac_simps)

lemma take_surplus_conserves:
  "take_surplus avg (zip cs ps) tks = (tks', ps') \<Longrightarrow> length cs = length ps
    \<Longrightarrow> length ps' = length ps \<and> mset tks' + all_queued ps' = mset tks + all_queued ps"
proof (induction ps arbitrary: cs tks tks' ps')
  case (Cons p ps)
  obtain c cs' where c: "cs = c # cs'" "length cs' = length ps" using Cons.prems(2) by (cases cs) auto
  obtain tmp p1 where 1: "(if avg < c then Steal (c - avg) p else ([], p)) = (tmp, p1)" by fastforce
  obtain t2 ps2 where 2: "take_surplus avg (zip cs' ps) (tks @ tmp) = (t2, ps2)" by fastforce
  have m: "mset (queued p) = mset tmp + mset (queued p1)" using 1 Steal_queued by (auto split: if_splits)
  from Cons.IH [OF 2 c(2)] have "length ps2 = length ps" "mset t2 + all_queued ps2 = mset tks + mset tmp + all_queued ps" by auto
  moreover have "tks' = t2" "ps' = p1 # ps2" using Cons.prems(1) 1 2 c by (auto split: if_splits)
  ultimately show ?case using m by (auto simp: ac_simps)
qed simp

lemma fill_up_conserves:
  "fill_up avg (zip cs ps) tks = (tks', ps') \<Longrightarrow> length cs = length ps
    \<Longrightarrow> length ps' = length ps \<and> mset tks' + all_queued ps' = mset tks + all_queued ps"
proof (induction ps arbitrary: cs tks tks' ps')
  case (Cons p ps)
  obtain c cs' where c: "cs = c # cs'" "length cs' = length ps" using Cons.prems(2) by (cases cs) auto
  let ?inn = "take (unat (avg - c)) tks" and ?rest = "drop (unat (avg - c)) tks"
  have m: "mset tks = mset ?inn + mset ?rest" by (metis append_take_drop_id mset_append)
  consider "\<not> avg > c" | "avg > c" "?inn = []" | "avg > c" "?inn \<noteq> []" by blast
  then show ?case
  proof cases
    case 1
    obtain t2 ps2 where 2: "fill_up avg (zip cs' ps) tks = (t2, ps2)" by fastforce
    then show ?thesis using Cons.IH [OF 2 c(2)] Cons.prems(1) c 1 by (auto simp: ac_simps)
  next
    case 2
    then show ?thesis using Cons.prems(1) c m by (auto simp: cut_list_def)
  next
    case 3
    obtain t2 ps2 where 2: "fill_up avg (zip cs' ps) ?rest = (t2, ps2)" by fastforce
    then have "ps' = proc_AddTasks ?inn p # ps2" "tks' = t2" using Cons.prems(1) c 3 by (auto simp: cut_list_def)
    then show ?thesis using Cons.IH [OF 2 c(2)] m by (auto simp: ac_simps)
  qed
qed simp

lemma avg_procs_conserves: "length (avg_procs ps) = length ps \<and> all_queued (avg_procs ps) = all_queued ps"
proof (cases "length ps < 2 \<or> sum_list (map RunnableSize ps) div of_nat (length ps) \<le> (0 :: size_t)")
  case True
  then show ?thesis by (auto simp: avg_procs_def)
next
  case False
  let ?cs = "map RunnableSize ps"
  let ?avg = "sum_list ?cs div of_nat (length ps)"
  obtain t1 ps1 where 1: "take_surplus ?avg (zip ?cs ps) [] = (t1, ps1)" by fastforce
  note C1 = take_surplus_conserves [OF 1]
  obtain t2 ps2 where 2: "fill_up ?avg (zip ?cs ps1) t1 = (t2, ps2)" by fastforce
  note C2 = fill_up_conserves [OF 2]
  have len: "length ps1 = length ps" "length ps2 = length ps" using C1 C2 by auto
  have m: "mset t2 + all_queued ps2 = all_queued ps" using C1 C2 by simp
  obtain q qs where q: "ps2 = q # qs" using len False by (cases ps2) auto
  have "avg_procs ps = (if t2 \<noteq> [] then ps2[0 := proc_AddTasks t2 (ps2 ! 0)] else ps2)"
    using False 1 2 by (simp add: avg_procs_def Let_def)
  then show ?thesis using m len by (auto simp: q ac_simps)
qed


text \<open>Balancing idle processers, counted.\<close>

definition idle :: "proc \<Rightarrow> bool" where
  "idle p \<longleftrightarrow> runningTask p = None \<and> nextTask p = None \<and> length (queued p) < 2 ^ 32"

lemma RunnableSize_queued: "RunnableSize p = of_nat (length (queued p))"
  by (simp add: RunnableSize_def queued_def)

lemma unat_RunnableSize: "idle p \<Longrightarrow> unat (RunnableSize p) = length (queued p)"
  unfolding RunnableSize_queued by (rule unat_of_nat_64) (simp add: idle_def)

lemma Steal_idle:
  assumes "Steal n p = (st, p')" "idle p" "0 < n" "unat n < 2 ^ 32"
  shows "length st = min (unat n) (length (queued p)) \<and> length (queued p') = length (queued p) - length st"
proof -
  have "protect p (runnableQueue p) = (False, False, runnableQueue p)" using assms(2) by (simp add: protect_def idle_def)
  then have "length st = min (unat n) (length (queued p))"
    using Steal_count [OF assms(1,3,4)] by (simp add: queued_def)
  moreover have "length (queued p) = length st + length (queued p')"
    using Steal_queued [OF assms(1)] by (metis size_mset size_union)
  ultimately show ?thesis by linarith
qed

lemma take_surplus_counts:
  "take_surplus avg (zip (map RunnableSize ps) ps) tks = (tks', ps') \<Longrightarrow> \<forall>p\<in>set ps. idle p
    \<Longrightarrow> map (length \<circ> queued) ps' = map (\<lambda>p. min (length (queued p)) (unat avg)) ps
      \<and> length tks' = length tks + (\<Sum>p\<leftarrow>ps. length (queued p) - unat avg)"
proof (induction ps arbitrary: tks tks' ps')
  case (Cons p ps)
  let ?c = "RunnableSize p"
  obtain tmp p1 where 1: "(if avg < ?c then Steal (?c - avg) p else ([], p)) = (tmp, p1)" by fastforce
  obtain t2 ps2 where 2: "take_surplus avg (zip (map RunnableSize ps) ps) (tks @ tmp) = (t2, ps2)" by fastforce
  have id: "idle p" using Cons.prems(2) by simp
  note c = unat_RunnableSize [OF id]
  have "length tmp = length (queued p) - unat avg \<and> length (queued p1) = min (length (queued p)) (unat avg)"
  proof (cases "avg < ?c")
    case True
    then have lt: "unat avg < length (queued p)" using c by (simp add: word_less_nat_alt)
    have d: "unat (?c - avg) = length (queued p) - unat avg" using unat_sub [of avg ?c] True c by simp
    then have "0 < ?c - avg" "unat (?c - avg) < 2 ^ 32"
      using lt id by (auto simp: word_less_nat_alt idle_def)
    then show ?thesis using Steal_idle [OF _ id, of "?c - avg" tmp p1] 1 True d lt by auto
  next
    case False
    then have "length (queued p) \<le> unat avg" using c by (simp add: word_less_nat_alt)
    then show ?thesis using 1 False by auto
  qed
  moreover have "tks' = t2" "ps' = p1 # ps2" using Cons.prems(1) 1 2 by (auto split: if_splits)
  ultimately show ?case using Cons.IH [OF 2] Cons.prems(2) by simp
qed simp

lemma fill_up_counts:
  "fill_up avg (zip (map RunnableSize ps) qs) tks = (tks', ps') \<Longrightarrow> \<forall>p\<in>set ps. idle p
    \<Longrightarrow> map (length \<circ> queued) qs = map (\<lambda>p. min (length (queued p)) (unat avg)) ps
    \<Longrightarrow> (\<Sum>p\<leftarrow>ps. unat avg - length (queued p)) \<le> length tks
    \<Longrightarrow> map (length \<circ> queued) ps' = replicate (length ps) (unat avg)"
proof (induction ps arbitrary: qs tks tks' ps')
  case (Cons p ps)
  let ?c = "RunnableSize p"
  obtain q qs' where q: "qs = q # qs'" "length (queued q) = min (length (queued p)) (unat avg)"
    "map (length \<circ> queued) qs' = map (\<lambda>p. min (length (queued p)) (unat avg)) ps"
    using Cons.prems(3) by (cases qs) (auto simp: o_def)
  have c: "unat ?c = length (queued p)" using unat_RunnableSize Cons.prems(2) by simp
  show ?case
  proof (cases "avg > ?c")
    case True
    then have lt: "length (queued p) < unat avg" using c by (simp add: word_less_nat_alt)
    have d: "unat (avg - ?c) = unat avg - length (queued p)" using unat_sub [of ?c avg] True c by simp
    let ?rest = "drop (unat (avg - ?c)) tks"
    obtain t2 ps2 where 2: "fill_up avg (zip (map RunnableSize ps) qs') ?rest = (t2, ps2)" by fastforce
    have "take (unat (avg - ?c)) tks \<noteq> []" using Cons.prems(4) d lt by auto
    then have "ps' = proc_AddTasks (take (unat (avg - ?c)) tks) q # ps2"
      using Cons.prems(1) True 2 by (simp add: q(1) cut_list_def)
    moreover have "(\<Sum>p\<leftarrow>ps. unat avg - length (queued p)) \<le> length ?rest" using Cons.prems(4) d by simp
    ultimately show ?thesis using Cons.IH [OF 2 _ q(3)] Cons.prems(2,4) q(2) lt d by simp
  next
    case False
    then have le: "unat avg \<le> length (queued p)" using c by (simp add: word_less_nat_alt)
    obtain t2 ps2 where 2: "fill_up avg (zip (map RunnableSize ps) qs') tks = (t2, ps2)" by fastforce
    have "ps' = q # ps2" using Cons.prems(1) False 2 by (simp add: q(1))
    then show ?thesis using Cons.IH [OF 2 _ q(3)] Cons.prems(2,4) q(2) le by simp
  qed
qed simp

lemma surplus_covers:
  fixes xs :: "nat list"
  shows "(\<Sum>x\<leftarrow>xs. x - a) + length xs * a = sum_list xs + (\<Sum>x\<leftarrow>xs. a - x)"
  by (induction xs) auto

lemma sum_RunnableSize: "sum_list (map RunnableSize ps) = of_nat (\<Sum>p\<leftarrow>ps. length (queued p))"
  by (induction ps) (simp_all add: RunnableSize_queued)

lemma size_all_queued: "size (all_queued ps) = (\<Sum>p\<leftarrow>ps. length (queued p))"
  by (induction ps) auto

lemma avg_procs_balances:
  assumes idle: "\<forall>p\<in>set ps. idle p" and n: "2 \<le> length ps"
    and N: "N = (\<Sum>p\<leftarrow>ps. length (queued p))" "length ps \<le> N" "N < 2 ^ 32"
  shows "map (length \<circ> queued) (avg_procs ps)
    = (N div length ps + N mod length ps) # replicate (length ps - 1) (N div length ps)"
proof -
  let ?cs = "map RunnableSize ps"
  define n where "n = length ps"
  define avg where "avg = sum_list ?cs div of_nat n"
  have nN: "n \<le> N" "2 \<le> n" using N n by (simp_all add: n_def)
  have "N < 2 ^ 64" "n < 2 ^ 64" using N nN by auto
  then have a: "unat avg = N div n"
    unfolding avg_def sum_RunnableSize N(1) [symmetric] by (simp add: unat_div_distrib unat_of_nat_64)
  have pos: "0 < N div n" using nN by (simp add: div_greater_zero_iff)
  have big: "\<not> avg \<le> 0" using a pos by (auto simp: word_le_nat_alt)
  obtain t1 ps1 where 1: "take_surplus avg (zip ?cs ps) [] = (t1, ps1)" by fastforce
  note C1 = take_surplus_counts [OF 1 idle]
  have "(\<Sum>p\<leftarrow>ps. unat avg - length (queued p)) \<le> length t1"
  proof -
    have "(\<Sum>p\<leftarrow>ps. length (queued p) - N div n) + n * (N div n) = N + (\<Sum>p\<leftarrow>ps. N div n - length (queued p))"
      using surplus_covers [of "N div n" "map (\<lambda>p. length (queued p)) ps"] by (simp add: N(1) n_def o_def)
    moreover have "n * (N div n) \<le> N" by simp
    ultimately have "(\<Sum>p\<leftarrow>ps. N div n - length (queued p)) \<le> (\<Sum>p\<leftarrow>ps. length (queued p) - N div n)"
      by linarith
    then show ?thesis using C1 a by simp
  qed
  obtain t2 ps2 where 2: "fill_up avg (zip ?cs ps1) t1 = (t2, ps2)" by fastforce
  from fill_up_counts [OF 2 idle] C1 \<open>(\<Sum>p\<leftarrow>ps. unat avg - length (queued p)) \<le> length t1\<close>
  have C2: "map (length \<circ> queued) ps2 = replicate n (N div n)" by (simp add: a n_def)
  define r where "r = (if t2 \<noteq> [] then ps2[0 := proc_AddTasks t2 (ps2 ! 0)] else ps2)"
  have R: "avg_procs ps = r"
    using n big 1 2 by (simp add: avg_procs_def Let_def r_def avg_def n_def)
  obtain q qs where q: "ps2 = q # qs" using C2 nN by (cases ps2) auto
  have rq: "map (length \<circ> queued) r = (N div n + length t2) # replicate (n - 1) (N div n)"
    using C2 nN by (cases n) (auto simp: r_def q)
  have "sum_list (map (length \<circ> queued) r) = N"
    using avg_procs_conserves [of ps] R N(1) by (metis (mono_tags, lifting) size_all_queued comp_apply map_eq_conv)
  then have "N div n + length t2 + (n - 1) * (N div n) = N" unfolding rq by (simp add: sum_list_replicate)
  moreover have "N div n + (n - 1) * (N div n) = n * (N div n)" using nN by (cases n) auto
  moreover have "N = n * (N div n) + N mod n" by simp
  ultimately have "length t2 = N mod n" by linarith
  then show ?thesis using rq R by (simp add: n_def)
qed


section \<open>Round robin is even\<close>

definition turns :: "nat \<Rightarrow> nat \<Rightarrow> nat \<Rightarrow> nat" where
  "turns n l i = (if l mod n \<le> i then i - l mod n else i + n - l mod n)"

lemma turns_step:
  assumes "i < n"
  shows "l mod n = i \<Longrightarrow> turns n (l mod n + 1) i = n - 1"
    and "l mod n \<noteq> i \<Longrightarrow> turns n (l mod n + 1) i = turns n l i - 1 \<and> 0 < turns n l i"
proof -
  define m where "m = l mod n"
  have m: "m < n" using assms by (simp add: m_def)
  then have s: "(m + 1) mod n = (if m + 1 = n then 0 else m + 1)" by auto
  show "l mod n = i \<Longrightarrow> turns n (l mod n + 1) i = n - 1"
    "l mod n \<noteq> i \<Longrightarrow> turns n (l mod n + 1) i = turns n l i - 1 \<and> 0 < turns n l i"
    unfolding turns_def m_def [symmetric] s using assms m by auto
qed

lemma turns_less: "i < n \<Longrightarrow> turns n l i < n"
  by (auto simp: turns_def)

lemma length_dealt: "i < n \<Longrightarrow> length (dealt n l i ts) = (length ts + (n - 1 - turns n l i)) div n"
proof (induction ts arbitrary: l)
  case Nil
  then show ?case by simp
next
  case (Cons t ts)
  have lt: "turns n l i < n" by (rule turns_less [OF Cons.prems])
  show ?case
  proof (cases "l mod n = i")
    case True
    have "turns n l i = 0" using True by (simp add: turns_def)
    moreover have "Suc (length ts) + (n - 1) = length ts + n" "n \<noteq> 0" using Cons.prems by simp_all
    ultimately show ?thesis using Cons True turns_step(1) [OF Cons.prems True] by (simp add: div_add_self2)
  next
    case False
    have "length ts + (n - 1 - (turns n l i - 1)) = Suc (length ts) + (n - 1 - turns n l i)"
      using turns_step(2) [OF Cons.prems False] lt by linarith
    then show ?thesis using Cons False turns_step(2) [OF Cons.prems False] by simp
  qed
qed

lemma dealt_even: "i < n \<Longrightarrow> length ts div n \<le> length (dealt n l i ts) \<and> length (dealt n l i ts) \<le> length ts div n + 1"
proof -
  assume i: "i < n"
  have "length ts + (n - 1 - turns n l i) \<le> length ts + n" by simp
  then have "(length ts + (n - 1 - turns n l i)) div n \<le> (length ts + n) div n" by (rule div_le_mono)
  then show ?thesis using i by (simp add: length_dealt div_le_mono div_add_self2)
qed

section \<open>Properties\<close>


definition three_procs :: "nat sched" where
  "three_procs = (sched_new 0)\<lparr>processers := [(proc_new 0)\<lparr>runnableQueue := [1, 2, 3, 4], newQueue := [5, 6]\<rparr>,
     proc_new 1, (proc_new 2)\<lparr>newQueue := [7]\<rparr>]\<rparr>"


text \<open>
  Tasks that belong to no processer are dealt to the active processers in turn: with all of them
  active, each gets every \<open>n\<close>-th task at the end of its new queue, in the order of creation, so their
  numbers differ by at most one.
\<close>

theorem add_task_round_robin:
  assumes "0 < length (processers s)" "length (processers s) < 2 ^ 32" "\<forall>p\<in>set (processers s). p_active p"
    and "\<forall>t\<in>set ts. \<exists>k. tasks (s_world s) t = Some k \<and> t_proc k = None" and "i < length (processers s)"
  shows "\<exists>s'. add_all ts s = Some s' \<and> length (processers s') = length (processers s)
    \<and> queued (processers s' ! i) = queued (processers s ! i) @ dealt (length (processers s)) (unat (lastActive s)) i ts
    \<and> length (queued (processers s' ! i)) \<in> {length (queued (processers s ! i)) + length ts div length (processers s)..
        length (queued (processers s ! i)) + length ts div length (processers s) + 1}"
proof -
  obtain l where "add_all ts s = Some (s\<lparr>lastActive := l, processers := map (\<lambda>i. proc_AddTasks
     (dealt (length (processers s)) (unat (lastActive s)) i ts) (processers s ! i)) [0..<length (processers s)]\<rparr>)"
    using add_all_round_robin [OF assms(1-4)] by blast
  then show ?thesis using assms(5) dealt_even [OF assms(5), of ts "unat (lastActive s)"] by simp
qed

lemma add_task_round_robin_witness:
  "\<exists>s'. add_all [11, 12, 13, 14] (three_procs\<lparr>lastActive := 2, s_world := (world_new 0)\<lparr>tasks := (\<lambda>a. Some demo_task)\<rparr>\<rparr>) = Some s'
    \<and> queued (processers s' ! 2) = [7, 11, 14]"
  using add_task_round_robin [of "three_procs\<lparr>lastActive := 2, s_world := (world_new 0)\<lparr>tasks := (\<lambda>a. Some demo_task)\<rparr>\<rparr>"
      "[11, 12, 13, 14]" 2]
  by (simp add: three_procs_def proc_new_def demo_task_def task_new_def queued_def) auto

text \<open>
  A second \<open>Start\<close> is refused. The first one leaves one processer per thread, as many as the
  minimum asks for (all hardware threads if it is below one), starts the dispatcher only if the
  maximum allows more than one thread, where a maximum below the minimum counts as the minimum, and
  keeps every task that was created before.
\<close>

theorem start_creates_threads:
  assumes "length (processers s) = 1" and "0 < sint hw"
  shows "(started s \<longrightarrow> sched_Start hw mn mx s = Inl RepeatedStart)
    \<and> (\<not> started s \<longrightarrow> (\<exists>s'. sched_Start hw mn mx s = Inr s' \<and> started s'
        \<and> int (length (processers s')) = (if sint mn < 1 then sint hw else sint mn)
        \<and> (dispatcher s' \<longleftrightarrow> 1 < max (sint mx) (int (length (processers s'))))
        \<and> all_queued (processers s') = all_queued (processers s)))"
proof -
  have nt: "processers (new_threads n s) = processers s @ map (\<lambda>i. proc_new (int i)) [length (processers s)..<length (processers s) + n]
    \<and> started (new_threads n s) = started s" for n and s :: "'a sched"
    by (induction n arbitrary: s) (simp_all add: NewProcessThread_def upt_rec)
  have q: "all_queued (ps @ map (\<lambda>i. proc_new (int i)) xs) = all_queued ps" for ps xs
    by (induction ps; induction xs) (auto simp: all_queued_def queued_def proc_new_def)
  define m where "m = (if sint mn < 1 then hw else mn)"
  have m: "1 \<le> sint m" using assms(2) by (simp add: m_def)
  have z: "mx = 0 \<Longrightarrow> sint mx < sint m" using m by simp
  define mx' where "mx' = (if mx = 0 \<or> sint mx < sint m then m else mx)"
  have mx: "sint mx' = max (sint mx) (sint m)" using m z by (auto simp: mx'_def max_def)
  define s1 where "s1 = new_threads (nat (sint m - 1)) (s\<lparr>started := True, minThreadNumber := m, maxThreadNumber := mx'\<rparr>)"
  have S: "\<not> started s \<Longrightarrow> sched_Start hw mn mx s = Inr ((AvgTotalTasks s1)\<lparr>dispatcher := (sint mx' > 1)\<rparr>)"
    by (simp add: sched_Start_def thread_counts_def m_def [symmetric] mx'_def [symmetric] s1_def Let_def)
  let ?s = "s\<lparr>started := True, minThreadNumber := m, maxThreadNumber := mx'\<rparr>"
  note N = nt [of "nat (sint m - 1)" ?s]
  have "length (processers s1) = length (processers s) + length (map (\<lambda>i. proc_new (int i)) [1..<1 + nat (sint m - 1)])"
    unfolding s1_def N [THEN conjunct1] using assms(1) by simp
  then have "int (length (processers s1)) = sint m" using assms(1) m by (simp del: upt_Suc)
  moreover have "started s1" "all_queued (processers s1) = all_queued (processers s)"
    unfolding s1_def N [THEN conjunct1] N [THEN conjunct2] q by simp_all
  ultimately have "int (length (processers s1)) = sint m" "started s1" "all_queued (processers s1) = all_queued (processers s)"
    by simp_all
  then show ?thesis using S mx avg_procs_conserves [of "processers s1"]
    by (auto simp: AvgTotalTasks_def sched_Start_def m_def)
qed

lemma start_creates_threads_witness:
  "\<exists>s'. sched_Start 8 4 0 (sched_new 0 :: nat sched) = Inr s' \<and> length (processers s') = 4 \<and> dispatcher s'"
  using start_creates_threads [of "sched_new 0" 8 4 0] by (auto simp: sched_new_def)

text \<open>
  A timer created by \<open>CreateMilliTimer\<close> can be stopped once: \<open>StopTimer\<close> then returns true and
  leaves the timer queues as they were before; every further \<open>StopTimer\<close> of the handle returns false.
\<close>

theorem create_then_stop_timer:
  assumes "CreateMilliTimer current clock duration cb param s = Some (tm, s1)"
    and "\<forall>p\<in>set (processers s). tm_ok (p_timers p)"
  shows "\<exists>tm2 s2. sched_StopTimer (Some tm) s1 = Some (True, Some tm2, s2)
    \<and> map (timer_map \<circ> p_timers) (processers s2) = map (timer_map \<circ> p_timers) (processers s)
    \<and> sched_StopTimer (Some tm2) s3 = Some (False, Some tm2, s3)"
proof -
  obtain p l where A: "AddMilliTimer_on p clock duration cb param (s\<lparr>lastActive := l\<rparr>) = Some (tm, s1)"
    using assms(1) by (cases current) (auto simp: CreateMilliTimer_def Let_def split: if_splits Option.bind_splits prod.splits,
      (metis sched.surjective sched.update_convs(3))+)
  let ?m = "p_timers (processers s ! p)"
  let ?e = "\<lparr>e_type = TimerTimeout, e_cb = cb, e_task = None, e_param = param, e_node = next_node ?m\<rparr>"
  let ?x = "(clock + duration * 1000000, ?e)"
  define m1 where "m1 = ?m\<lparr>timer_map := mm_insert (fst ?x) ?e (timer_map ?m), next_node := Suc (next_node ?m)\<rparr>"
  have p: "p < length (processers s)" "tm = \<lparr>id_node = next_node ?m, t_processer = Some p\<rparr>"
    "s1 = s\<lparr>lastActive := l, processers := (processers s)[p := (processers s ! p)\<lparr>p_timers := m1\<rparr>]\<rparr>"
    using A by (auto simp: AddMilliTimer_on_def AddMilliTimer_def AddTimer_def AddTimerAt_def tm_insert_def m1_def
        Let_def split: if_splits)
  have ok: "tm_ok ?m" using assms(2) p(1) by simp
  have "m1 = snd (AddTimerAt (fst ?x) cb param ?m)" by (simp add: m1_def AddTimerAt_def tm_insert_def Let_def)
  then have ok1: "tm_ok m1" using tm_ok_AddTimerAt [OF ok] by simp
  have "next_node ?m \<notin> set (nodes (timer_map ?m))" using ok by (auto simp: tm_ok_def)
  then have fresh: "?x \<notin> set (timer_map ?m)" using in_nodes [of ?x "timer_map ?m"] by auto
  have "remove1 (k, v) (mm_insert k v xs) = xs" if "(k, v) \<notin> set xs" for k :: int and v :: telem and xs
    using that by (induction xs) auto
  then have rem: "remove1 ?x (timer_map m1) = timer_map ?m" using fresh by (simp add: m1_def)
  have "tm_StopTimer tm m1 = Some (True, tm\<lparr>t_processer := None\<rparr>, m1\<lparr>timer_map := timer_map ?m\<rparr>)"
    using tm_StopTimer_pending [OF ok1, of ?x tm] p(2) rem by (simp add: m1_def)
  then show ?thesis using p
    by (auto simp: sched_StopTimer_def proc_StopTimer_def map_update list_update_same_conv)
qed

lemma create_then_stop_timer_witness:
  "\<exists>tm s1 tm2 s2. CreateMilliTimer (Some 1) 0 5 7 None three_procs = Some (tm, s1)
    \<and> sched_StopTimer (Some tm) s1 = Some (True, Some tm2, s2)
    \<and> sched_StopTimer (Some tm2) s1 = Some (False, Some tm2, s1)"
proof -
  obtain tm s1 where C: "CreateMilliTimer (Some 1) 0 5 7 None three_procs = Some (tm, s1)"
    by (auto simp: CreateMilliTimer_def AddMilliTimer_on_def AddMilliTimer_def AddTimer_def AddTimerAt_def tm_insert_def
        three_procs_def proc_new_def Let_def)
  have "\<forall>p\<in>set (processers three_procs). tm_ok (p_timers p)"
    by (simp add: three_procs_def proc_new_def tm_ok_new)
  from create_then_stop_timer [OF C this] obtain tm2 s2 where
    "sched_StopTimer (Some tm) s1 = Some (True, Some tm2, s2)" "sched_StopTimer (Some tm2) s1 = Some (False, Some tm2, s1)"
    by blast
  then show ?thesis using C by blast
qed

end
