(* ===== verification/Shutdown.thy ===== *)
theory Shutdown
  imports Scheduler
begin

text \<open>
  The end of a \<open>Scheduler\<close>: the outer loop of \<open>Processer::Process\<close> in every thread, the dispatcher thread, and a
  thread that calls \<open>Scheduler::Stop\<close>, which waits for all of them (\<open>scheduler/scheduler.cpp\<close>,
  \<open>scheduler/processer.cpp\<close>). The threads interleave at their looks at \<open>stop_\<close>. The thread that stops is
  outside the runtime (\<open>None\<close>) or the one of the processer whose task makes the call (\<open>Some i\<close>), which then does
  nothing else.
\<close>

section \<open>State\<close>

text \<open>
  Where the thread of a processer is: before \<open>Process\<close> (only the thread that will call \<open>Start\<close>), before the look at
  \<open>stop_\<close> of the outer and of the inner loop, before the new tasks are added, before \<open>ReleaseTask\<close>, or at its end.
\<close>

datatype loop_pc = L_Start | L_Check | L_Round | L_Add | L_Release | L_Ended

text \<open>
  Where the thread that stops is: at the lock, joining the dispatcher, waiting for a processer, or back; \<open>S_Error\<close> is
  the exception of a thread that joins itself.
\<close>

datatype stop_pc = S_Enter | S_Join | S_Proc nat | S_Done | S_Error

record 'f system =
  sy_sched :: "'f sched"
  sy_loops :: "loop_pc list"
  sy_disp_ended :: bool
  sy_stop :: stop_pc

definition sy_proc :: "'f system \<Rightarrow> nat \<Rightarrow> proc" where
  "sy_proc s i = processers (sy_sched s) ! i"

definition sy_world :: "'f system \<Rightarrow> 'f world" where
  "sy_world s = s_world (sy_sched s)"

text \<open>Processer \<open>i\<close>, the world and the place of the thread after a step of it.\<close>

definition set_loop :: "nat \<Rightarrow> loop_pc \<Rightarrow> proc \<Rightarrow> 'f world \<Rightarrow> 'f system \<Rightarrow> 'f system" where
  "set_loop i pc p w s = s\<lparr>sy_sched := (sy_sched s)\<lparr>processers := (processers (sy_sched s))[i := p], s_world := w\<rparr>,
     sy_loops := (sy_loops s)[i := pc]\<rparr>"

section \<open>The threads\<close>

type_synonym 'f callback = "nat \<Rightarrow> ptr \<Rightarrow> proc \<times> 'f world \<Rightarrow> (proc \<times> 'f world) \<times> timer_call list"

text \<open>The outer loop: \<open>io\<close> are the tasks that \<open>WaitLoop\<close> wakes, \<open>cb\<close> the timer callbacks, \<open>now\<close> the clock.\<close>

definition loop_check :: "addr list \<Rightarrow> 'f callback \<Rightarrow> int \<Rightarrow> nat \<Rightarrow> 'f system \<Rightarrow> 'f system option" where
  "loop_check io cb now i s =
     (let p = sy_proc s i; w = sy_world s
      in if stopped w then Some (set_loop i L_Release p w s)
         else (let p = p\<lparr>runningTask := elem_front (runnableQueue p)\<rparr>;
                   p = (if runningTask p = None
                        then (let (b, p) = AddNewTasks p
                              in if b then p\<lparr>runningTask := elem_front (runnableQueue p)\<rparr> else p)
                        else p)
               in if runningTask p = None then do {
                    (p, w) \<leftarrow> wake_all io p w;
                    (p, w) \<leftarrow> proc_WakeupTimers cb now p w;
                    Some (set_loop i L_Check p w s) }
                  else Some (set_loop i L_Round p w s)))"

definition loop_round :: "env \<Rightarrow> 'f slice \<Rightarrow> nat \<Rightarrow> 'f system \<Rightarrow> 'f system option" where
  "loop_round e sl i s =
     (let p = sy_proc s i; w = sy_world s
      in case runningTask p of
           None \<Rightarrow> Some (set_loop i L_Add p w s)
         | Some tk \<Rightarrow>
             if stopped w then Some (set_loop i L_Add p w s)
             else map_option (\<lambda>(p, w). set_loop i L_Round p w s) (process_step e i sl tk p w))"

definition loop_add :: "nat \<Rightarrow> 'f system \<Rightarrow> 'f system" where
  "loop_add i s =
     (let p = sy_proc s i; w = sy_world s
      in set_loop i L_Check (if stopped w then p else snd (AddNewTasks p)) w s)"

definition loop_release :: "nat \<Rightarrow> 'f system \<Rightarrow> 'f system option" where
  "loop_release i s =
     map_option (\<lambda>(p, w). set_loop i L_Ended (p\<lparr>p_active := False\<rparr>) w s) (ReleaseTask (sy_proc s i) (sy_world s))"

definition dispatcher_step :: "bool \<Rightarrow> 'f system \<Rightarrow> 'f system option" where
  "dispatcher_step busy s =
     (if \<not> dispatcher (sy_sched s) \<or> sy_disp_ended s then None
      else if stopped (sy_world s) then Some (s\<lparr>sy_disp_ended := True\<rparr>)
      else Some (s\<lparr>sy_sched := DispatcherThread busy (sy_sched s)\<rparr>))"

section \<open>Stop\<close>

text \<open>
  \<open>Processer::Stop\<close>: \<open>Some True\<close> if the call returns, \<open>Some False\<close> if it waits (in \<open>join\<close>, or asleep until the next look
  at \<open>active_\<close>), \<open>None\<close> if the thread joins itself, which \<open>std::thread\<close> answers with an exception.
\<close>

definition proc_Stop :: "nat option \<Rightarrow> nat \<Rightarrow> proc \<Rightarrow> loop_pc \<Rightarrow> bool option" where
  "proc_Stop self i p pc =
     (if p_id p > 0 then (if self = Some i then None else Some (pc = L_Ended)) else Some (\<not> p_active p))"

text \<open>One step of \<open>Scheduler::Stop\<close>; \<open>None\<close> while it waits.\<close>

definition stop_step :: "nat option \<Rightarrow> 'f system \<Rightarrow> 'f system option" where
  "stop_step self s =
     (case sy_stop s of
        S_Enter \<Rightarrow>
          if stopped (sy_world s) then Some (s\<lparr>sy_stop := S_Done\<rparr>)
          else Some (s\<lparr>sy_sched := sched_Stop (sy_sched s), sy_stop := S_Join\<rparr>)
      | S_Join \<Rightarrow>
          if dispatcher (sy_sched s) \<and> \<not> sy_disp_ended s then None else Some (s\<lparr>sy_stop := S_Proc 0\<rparr>)
      | S_Proc i \<Rightarrow>
          if i < length (processers (sy_sched s)) then
            (case proc_Stop self i (sy_proc s i) (sy_loops s ! i) of
               None \<Rightarrow> Some (s\<lparr>sy_stop := S_Error\<rparr>)
             | Some True \<Rightarrow> Some (s\<lparr>sy_stop := S_Proc (i + 1)\<rparr>)
             | Some False \<Rightarrow> None)
          else Some (s\<lparr>sy_stop := S_Done\<rparr>)
      | S_Done \<Rightarrow> None
      | S_Error \<Rightarrow> None)"

section \<open>The step relation\<close>

text \<open>What callbacks of timers may do here: anything but end the processer or stop the scheduler.\<close>

definition quiet :: "'f callback \<Rightarrow> bool" where
  "quiet cb \<longleftrightarrow> (\<forall>n a p w. let (p', w') = fst (cb n a (p, w))
     in p_id p' = p_id p \<and> p_active p' = p_active p \<and> stopped w' = stopped w)"

inductive runtime_step :: "env \<Rightarrow> nat option \<Rightarrow> 'f system \<Rightarrow> 'f system \<Rightarrow> bool"
  for e :: env and self :: "nat option" where
  check: "i < length (sy_loops s) \<Longrightarrow> self \<noteq> Some i \<Longrightarrow> sy_loops s ! i = L_Check \<Longrightarrow> quiet cb
    \<Longrightarrow> loop_check io cb now i s = Some t \<Longrightarrow> runtime_step e self s t"
| round: "i < length (sy_loops s) \<Longrightarrow> self \<noteq> Some i \<Longrightarrow> sy_loops s ! i = L_Round \<Longrightarrow> loop_round e sl i s = Some t
    \<Longrightarrow> runtime_step e self s t"
| add: "i < length (sy_loops s) \<Longrightarrow> self \<noteq> Some i \<Longrightarrow> sy_loops s ! i = L_Add \<Longrightarrow> runtime_step e self s (loop_add i s)"
| release: "i < length (sy_loops s) \<Longrightarrow> self \<noteq> Some i \<Longrightarrow> sy_loops s ! i = L_Release \<Longrightarrow> loop_release i s = Some t
    \<Longrightarrow> runtime_step e self s t"
| dispatch: "dispatcher_step busy s = Some t \<Longrightarrow> runtime_step e self s t"
| stop: "stop_step self s = Some t \<Longrightarrow> runtime_step e self s t"

text \<open>Other threads may create tasks at any time.\<close>

inductive system_step :: "env \<Rightarrow> nat option \<Rightarrow> 'f system \<Rightarrow> 'f system \<Rightarrow> bool"
  for e :: env and self :: "nat option" where
  own: "runtime_step e self s t \<Longrightarrow> system_step e self s t"
| create: "sched_CreateTask e arg n (sy_sched s) = Some c \<Longrightarrow> system_step e self s (s\<lparr>sy_sched := c\<rparr>)"

text \<open>
  A scheduler with \<open>n\<close> threads that is not stopped yet; the first one need not run. A task that calls \<open>Stop\<close> is in its
  slice.
\<close>

definition system_init :: "nat option \<Rightarrow> 'f system \<Rightarrow> bool" where
  "system_init self s \<longleftrightarrow> \<not> stopped (sy_world s) \<and> \<not> sy_disp_ended s \<and> sy_stop s = S_Enter
     \<and> length (sy_loops s) = length (processers (sy_sched s)) \<and> 0 < length (sy_loops s)
     \<and> (\<forall>i<length (sy_loops s). p_id (sy_proc s i) = int i \<and> p_active (sy_proc s i)
          \<and> (sy_loops s ! i = L_Check \<or> (i = 0 \<and> sy_loops s ! i = L_Start) \<or> sy_loops s ! i = L_Round))
     \<and> (\<forall>i. self = Some i \<longrightarrow> i < length (sy_loops s) \<and> sy_loops s ! i = L_Round)"

definition system_inv :: "'f system \<Rightarrow> bool" where
  "system_inv s \<longleftrightarrow> length (sy_loops s) = length (processers (sy_sched s)) \<and> 0 < length (sy_loops s)
     \<and> (\<forall>i<length (sy_loops s). p_id (sy_proc s i) = int i \<and> (p_active (sy_proc s i) \<longleftrightarrow> sy_loops s ! i \<noteq> L_Ended))
     \<and> (stopped (sy_world s) \<longleftrightarrow> sy_stop s \<noteq> S_Enter)
     \<and> (sy_stop s = S_Enter \<or> sy_stop s = S_Join \<or> (dispatcher (sy_sched s) \<longrightarrow> sy_disp_ended s))
     \<and> (sy_stop s = S_Done \<longrightarrow> (\<forall>i<length (sy_loops s). sy_loops s ! i = L_Ended))
     \<and> (\<forall>j. sy_stop s = S_Proc j \<longrightarrow> (\<forall>i<length (sy_loops s). i < j \<longrightarrow> sy_loops s ! i = L_Ended))"

section \<open>What the steps keep\<close>

definition tag :: "proc \<Rightarrow> 'f world \<Rightarrow> int \<times> bool \<times> bool" where
  "tag p w = (p_id p, p_active p, stopped w)"

lemma tag_iff: "tag p w = tag q v \<longleftrightarrow> p_id p = p_id q \<and> p_active p = p_active q \<and> stopped w = stopped v"
  by (simp add: tag_def)

lemma upd_task_stopped: "upd_task t f w = Some v \<Longrightarrow> stopped v = stopped w"
  by (auto simp: upd_task_def)

lemma create_task_stopped: "create_task e arg n w = Some (tk, v) \<Longrightarrow> stopped v = stopped w"
  by (cases arg) (auto simp: create_task_def get_free_def GetFreeTaskList_def GetFreeTaskList1_def Let_def
      dest!: upd_task_stopped split: Option.bind_splits option.splits)

lemma WakeupBySelfIO_tag: "WakeupBySelfIO t p w = Some (q, v) \<Longrightarrow> tag q v = tag p w"
  by (auto simp: WakeupBySelfIO_def tag_def dest: upd_task_stopped split: Option.bind_splits)

lemma SuspendBySelfIO_tag: "SuspendBySelfIO t p w = Some (q, v) \<Longrightarrow> tag q v = tag p w"
  by (auto simp: SuspendBySelfIO_def tag_def Let_def dest: upd_task_stopped split: Option.bind_splits prod.splits)

lemma proc_sleep_tag: "proc_sleep clock ms t p w = Some (q, v) \<Longrightarrow> tag q v = tag p w"
  by (auto simp: proc_sleep_def tag_def Let_def dest!: SuspendBySelfIO_tag split: Option.bind_splits if_splits)

lemma do_task_call_tag: "do_task_call e c p w = Some (q, v) \<Longrightarrow> tag q v = tag p w"
  by (cases c) (auto simp: tag_def proc_AddTask_def dest: create_task_stopped
      dest!: WakeupBySelfIO_tag split: Option.bind_splits)

lemma do_task_calls_tag: "do_task_calls e cs p w = Some (q, v) \<Longrightarrow> tag q v = tag p w"
proof (induction cs arbitrary: p w)
  case (Cons c cs)
  then obtain p1 w1 where 1: "do_task_call e c p w = Some (p1, w1)" "do_task_calls e cs p1 w1 = Some (q, v)"
    by (auto split: Option.bind_splits)
  show ?case using do_task_call_tag [OF 1(1)] Cons.IH [OF 1(2)] by simp
qed simp

lemma run_slice_tag:
  assumes "run_slice e sl tk p w = Some (q, v)"
  shows "tag q v = tag p w"
proof -
  obtain p1 w1 where 1: "do_task_calls e (fst sl) p w = Some (p1, w1)"
    using assms by (auto simp: run_slice_def split: Option.bind_splits)
  obtain p2 w2 where 2: "(case snd sl of Yields \<Rightarrow> Some (p1, w1) | Suspends \<Rightarrow> SuspendBySelfIO tk p1 w1
      | Sleeps clock ms \<Rightarrow> proc_sleep clock ms tk p1 w1
      | Returns \<Rightarrow> map_option (Pair p1) (upd_task tk (\<lambda>k. k\<lparr>t_fn := TaskF None, t_state := TDone\<rparr>) w1)) = Some (p2, w2)"
    "q = p2" "upd_task tk (\<lambda>k. k\<lparr>t_yieldCount := t_yieldCount k + 1\<rparr>) w2 = Some v"
    using assms 1 by (auto simp: run_slice_def split: Option.bind_splits)
  have "tag p2 w2 = tag p1 w1"
    using 2(1) by (cases "snd sl") (auto dest: SuspendBySelfIO_tag proc_sleep_tag upd_task_stopped simp: tag_iff)
  then show ?thesis using do_task_calls_tag [OF 1] 2(2) upd_task_stopped [OF 2(3)] by (simp add: tag_iff)
qed

lemma process_step_tag:
  assumes "process_step e i sl tk p w = Some (q, v)"
  shows "tag q v = tag p w"
proof -
  let ?p = "p\<lparr>switchCount := switchCount p + 1\<rparr>"
  obtain w1 p2 w2 s where 1: "upd_task tk (\<lambda>k. k\<lparr>t_state := Runnable, t_proc := Some i\<rparr>) w = Some w1"
    "run_slice e sl tk ?p w1 = Some (p2, w2)" "task_state_of tk w2 = Some s"
    using assms by (auto simp: process_step_def Let_def split: Option.bind_splits)
  have "tag p2 w2 = tag p w" using run_slice_tag [OF 1(2)] upd_task_stopped [OF 1(1)] by (simp add: tag_iff)
  moreover have "tag q v = tag p2 w2"
    using assms 1 by (cases s) (auto simp: process_step_def Let_def tag_iff Add2FreeTaskList_def
        dest!: upd_task_stopped split: Option.bind_splits)
  ultimately show ?thesis by simp
qed

lemma wake_all_tag: "wake_all ts p w = Some (q, v) \<Longrightarrow> tag q v = tag p w"
proof (induction ts arbitrary: p w)
  case (Cons t ts)
  then obtain p1 w1 where "WakeupBySelfIO t p w = Some (p1, w1)" "wake_all ts p1 w1 = Some (q, v)"
    by (auto split: Option.bind_splits)
  then show ?case using WakeupBySelfIO_tag Cons.IH by metis
qed simp

lemma quietD: "quiet cb \<Longrightarrow> tag (fst (fst (cb n a x))) (snd (fst (cb n a x))) = tag (fst x) (snd x)"
  by (cases x) (simp add: quiet_def tag_iff split_def Let_def)

lemma wakeup_loop_tag:
  "wakeup_loop cb wake now it m x = Some (r :: nat option \<times> timer_manager \<times> proc \<times> 'f world) \<Longrightarrow> quiet cb
    \<Longrightarrow> wake = (\<lambda>t (p, w). WakeupBySelfIO t p w)
    \<Longrightarrow> tag (fst (snd (snd r))) (snd (snd (snd r))) = tag (fst x) (snd x)"
proof (induction rule: wakeup_loop.raw_induct [rotated, consumes 1])
  case (1 rec cb wake now it m x r)
  show ?case
  proof (cases it)
    case None
    then show ?thesis using 1(2) by auto
  next
    case (Some n)
    obtain e where e: "node_elem n (timer_map m) = Some e"
      using 1(2) Some by (auto split: Option.bind_splits)
    show ?thesis
    proof (cases "fst e > now")
      case True
      then show ?thesis using 1(2) Some e by auto
    next
      case False
      define fired where "fired = (case e_type (snd e) of
          TimerTimeout \<Rightarrow> (let r = cb (e_cb (snd e)) (e_param (snd e)) x in map_option (\<lambda>m. (m, fst r)) (do_calls (snd r) m))
        | TaskTimeout \<Rightarrow> Option.bind (e_task (snd e)) (\<lambda>tk. map_option (Pair m) (wake tk x)))"
      obtain m1 y it' where y: "fired = Some (m1, y)" "rec cb wake now it' m1 y = Some r"
        using 1(2) Some e False by (auto simp: fired_def [symmetric] split: Option.bind_splits)
      have "tag (fst y) (snd y) = tag (fst x) (snd x)"
      proof (cases "e_type (snd e)")
        case TimerTimeout
        then show ?thesis using y(1) quietD [OF 1(3), of "e_cb (snd e)" "e_param (snd e)" x]
          by (auto simp: fired_def Let_def)
      next
        case TaskTimeout
        then show ?thesis using y(1) 1(4) by (cases x; cases y) (auto simp: fired_def split: Option.bind_splits dest: WakeupBySelfIO_tag)
      qed
      then show ?thesis using 1(1) [OF y(2) 1(3,4)] by simp
    qed
  qed
qed

lemma proc_WakeupTimers_tag:
  assumes "proc_WakeupTimers cb now p w = Some (q, v)" "quiet cb"
  shows "tag q v = tag p w"
proof -
  obtain m p1 where 1: "WakeupTimers cb (\<lambda>tk (p, w). WakeupBySelfIO tk p w) now (p_timers p) (p, w) = Some (m, p1, v)"
    "q = p1\<lparr>p_timers := m\<rparr>"
    using assms(1) by (auto simp: proc_WakeupTimers_def split: Option.bind_splits)
  have "tag p1 v = tag p w"
    using 1(1) wakeup_loop_tag [OF _ assms(2) refl]
    by (fastforce simp: WakeupTimers_def split: if_splits Option.bind_splits)
  then show ?thesis using 1(2) by (simp add: tag_iff)
qed

text \<open>Balancing moves tasks only.\<close>

lemma Steal_same: "Steal n p = (ts, q) \<Longrightarrow> p_id q = p_id p \<and> p_active q = p_active p \<and> nextTask q = nextTask p"
  by (auto simp: Steal_def Let_def split: if_splits prod.splits)

lemma take_surplus_same:
  "take_surplus avg cps tks = (tks', ps') \<Longrightarrow> map p_id ps' = map (p_id \<circ> snd) cps \<and> map p_active ps' = map (p_active \<circ> snd) cps
    \<and> map nextTask ps' = map (nextTask \<circ> snd) cps"
  by (induction cps arbitrary: tks ps') (auto simp: Let_def dest: Steal_same split: prod.splits if_splits)

lemma fill_up_same:
  "fill_up avg cps tks = (tks', ps') \<Longrightarrow> map p_id ps' = map (p_id \<circ> snd) cps \<and> map p_active ps' = map (p_active \<circ> snd) cps
    \<and> map nextTask ps' = map (nextTask \<circ> snd) cps"
  by (induction cps arbitrary: tks ps') (auto simp: Let_def proc_AddTasks_def split: prod.splits if_splits)

lemma map_zip_snd: "length xs = length ys \<Longrightarrow> map (f \<circ> snd) (zip xs ys) = map f ys"
  by (metis map_map map_snd_zip)

lemma avg_procs_same:
  "map p_id (avg_procs ps) = map p_id ps \<and> map p_active (avg_procs ps) = map p_active ps
    \<and> map nextTask (avg_procs ps) = map nextTask ps"
proof -
  define avg where "avg = sum_list (map RunnableSize ps) div of_nat (length ps)"
  obtain tks ps1 where 1: "take_surplus avg (zip (map RunnableSize ps) ps) [] = (tks, ps1)" by fastforce
  obtain tks2 ps2 where 2: "fill_up avg (zip (map RunnableSize ps) ps1) tks = (tks2, ps2)" by fastforce
  note A = take_surplus_same [OF 1] fill_up_same [OF 2]
  have l: "length ps1 = length ps" using A(1) by (metis length_map map_snd_zip map_map)
  have B: "map p_id ps2 = map p_id ps" "map p_active ps2 = map p_active ps" "map nextTask ps2 = map nextTask ps"
    using A l by (simp_all add: map_zip_snd)
  have E: "avg_procs ps = (if length ps < 2 \<or> avg \<le> 0 then ps
      else if tks2 \<noteq> [] then ps2[0 := proc_AddTasks tks2 (ps2 ! 0)] else ps2)"
    using 1 2 by (simp add: avg_procs_def avg_def Let_def)
  have "ps2 \<noteq> []" if "\<not> length ps < 2" using B(1) that by (cases ps2) auto
  moreover have "map p_id (ps2[0 := proc_AddTasks tks2 (ps2 ! 0)]) = map p_id ps2 \<and>
      map p_active (ps2[0 := proc_AddTasks tks2 (ps2 ! 0)]) = map p_active ps2 \<and>
      map nextTask (ps2[0 := proc_AddTasks tks2 (ps2 ! 0)]) = map nextTask ps2" if "ps2 \<noteq> []"
    using that by (cases ps2) (simp_all add: proc_AddTasks_def)
  ultimately show ?thesis using B by (auto simp: E)
qed

lemma AvgTotalTasks_same:
  "map p_id (processers (AvgTotalTasks s)) = map p_id (processers s)"
  "map p_active (processers (AvgTotalTasks s)) = map p_active (processers s)"
  "s_world (AvgTotalTasks s) = s_world s" "dispatcher (AvgTotalTasks s) = dispatcher s"
  by (simp_all add: AvgTotalTasks_def avg_procs_same)

lemma upd_proc_AddTask_same:
  assumes "upd_proc i (proc_AddTask tk) s = Some t"
  shows "map p_id (processers t) = map p_id (processers s) \<and> map p_active (processers t) = map p_active (processers s)
    \<and> s_world t = s_world s \<and> dispatcher t = dispatcher s"
  using assms by (auto simp: upd_proc_def map_update proc_AddTask_def list_update_same_conv split: if_splits)

lemma sched_CreateTask_same:
  assumes "sched_CreateTask e arg n s = Some t"
  shows "map p_id (processers t) = map p_id (processers s) \<and> map p_active (processers t) = map p_active (processers s)
    \<and> stopped (s_world t) = stopped (s_world s) \<and> dispatcher t = dispatcher s"
  using assms
  by (auto simp: sched_CreateTask_def sched_AddTask_def AddTask_any_def Let_def split: Option.bind_splits option.splits if_splits
      prod.splits dest!: upd_proc_AddTask_same create_task_stopped)

section \<open>The invariant\<close>

lemma set_loop_simps [simp]:
  "sy_loops (set_loop i pc p w s) = (sy_loops s)[i := pc]"
  "processers (sy_sched (set_loop i pc p w s)) = (processers (sy_sched s))[i := p]"
  "sy_world (set_loop i pc p w s) = w" "dispatcher (sy_sched (set_loop i pc p w s)) = dispatcher (sy_sched s)"
  "sy_disp_ended (set_loop i pc p w s) = sy_disp_ended s" "sy_stop (set_loop i pc p w s) = sy_stop s"
  by (simp_all add: set_loop_def sy_world_def)

lemma sy_proc_set_loop:
  "i < length (processers (sy_sched s)) \<Longrightarrow> sy_proc (set_loop i pc p w s) j = (if j = i then p else sy_proc s j)"
  by (simp add: sy_proc_def)

text \<open>A thread that goes on keeps the invariant; so does one that ends, if it says so in \<open>active_\<close>.\<close>

lemma set_loop_inv:
  assumes "system_inv s" "i < length (sy_loops s)" "sy_loops s ! i \<noteq> L_Ended"
    and "p_id p = p_id (sy_proc s i)" "p_active p \<longleftrightarrow> pc \<noteq> L_Ended" "stopped w = stopped (sy_world s)"
  shows "system_inv (set_loop i pc p w s)"
  using assms by (auto simp: system_inv_def sy_proc_set_loop nth_list_update)

lemma set_loop_inv_tag:
  assumes "system_inv s" "i < length (sy_loops s)" "sy_loops s ! i \<noteq> L_Ended" "pc \<noteq> L_Ended"
    and "tag p w = tag (sy_proc s i) (sy_world s)"
  shows "system_inv (set_loop i pc p w s)"
  using assms by (intro set_loop_inv) (auto simp: system_inv_def tag_iff)

lemma sched_inv:
  assumes "system_inv s" "map p_id (processers c) = map p_id (processers (sy_sched s))"
    "map p_active (processers c) = map p_active (processers (sy_sched s))"
    "stopped (s_world c) = stopped (s_world (sy_sched s))" "dispatcher c = dispatcher (sy_sched s)"
  shows "system_inv (s\<lparr>sy_sched := c\<rparr>)"
proof -
  have l: "length (processers c) = length (processers (sy_sched s))" using assms(2) by (metis length_map)
  have "p_id (processers c ! i) = p_id (processers (sy_sched s) ! i)
      \<and> p_active (processers c ! i) = p_active (processers (sy_sched s) ! i)" if "i < length (processers c)" for i
    using assms(2,3) that l by (metis nth_map)
  then show ?thesis using assms(1,4,5) l by (auto simp: system_inv_def sy_proc_def sy_world_def)
qed

lemma system_init_inv: "system_init self s \<Longrightarrow> system_inv s"
  by (auto simp: system_init_def system_inv_def)

lemma AddNewTasks_tag: "AddNewTasks p = (b, q) \<Longrightarrow> tag q w = tag p w"
  by (auto simp: AddNewTasks_def tag_iff split: if_splits)

lemma loop_check_inv:
  assumes "system_inv s" "i < length (sy_loops s)" "sy_loops s ! i \<noteq> L_Ended" "quiet cb"
    "loop_check io cb now i s = Some t"
  shows "system_inv t"
proof (cases "stopped (sy_world s)")
  case True
  then show ?thesis using assms by (auto simp: loop_check_def Let_def intro!: set_loop_inv_tag)
next
  case False
  define p where "p = (let p = (sy_proc s i)\<lparr>runningTask := elem_front (runnableQueue (sy_proc s i))\<rparr>
     in if runningTask p = None
        then (let (b, p) = AddNewTasks p in if b then p\<lparr>runningTask := elem_front (runnableQueue p)\<rparr> else p) else p)"
  have p: "tag p w = tag (sy_proc s i) w" for w
    by (auto simp: p_def Let_def tag_iff AddNewTasks_def split: if_splits)
  have E: "loop_check io cb now i s = (if runningTask p = None then do {
                    (p, w) \<leftarrow> wake_all io p (sy_world s);
                    (p, w) \<leftarrow> proc_WakeupTimers cb now p w;
                    Some (set_loop i L_Check p w s) }
                  else Some (set_loop i L_Round p (sy_world s) s))"
    using False by (simp add: loop_check_def p_def Let_def)
  show ?thesis using assms p unfolding E
    by (auto split: if_splits Option.bind_splits intro!: set_loop_inv_tag dest!: wake_all_tag proc_WakeupTimers_tag)
qed

lemma dispatcher_step_inv:
  assumes "system_inv s" "dispatcher_step busy s = Some t"
  shows "system_inv t"
proof (cases "stopped (sy_world s)")
  case True
  then show ?thesis using assms by (auto simp: dispatcher_step_def system_inv_def sy_proc_def sy_world_def split: if_splits)
next
  case False
  then have "t = s\<lparr>sy_sched := DispatcherThread busy (sy_sched s)\<rparr>"
    using assms(2) by (auto simp: dispatcher_step_def split: if_splits)
  then show ?thesis using sched_inv [OF assms(1)] AvgTotalTasks_same [of "sy_sched s"]
    by (cases busy) (auto simp: DispatcherThread_def)
qed

lemma stop_step_inv:
  assumes inv: "system_inv s" and step: "stop_step self s = Some t"
  shows "system_inv t"
proof (cases "sy_stop s")
  case S_Enter
  then show ?thesis using assms
    by (auto simp: stop_step_def system_inv_def sched_Stop_def sy_proc_def sy_world_def split: if_splits)
next
  case S_Join
  then show ?thesis using assms by (auto simp: stop_step_def system_inv_def sy_proc_def sy_world_def split: if_splits)
next
  case (S_Proc i)
  then have st: "\<forall>j<i. j < length (sy_loops s) \<longrightarrow> sy_loops s ! j = L_Ended" using inv by (auto simp: system_inv_def)
  show ?thesis
  proof (cases "i < length (processers (sy_sched s))")
    case True
    have pid: "p_id (sy_proc s i) = int i" "p_active (sy_proc s i) \<longleftrightarrow> sy_loops s ! i \<noteq> L_Ended"
      using inv True by (auto simp: system_inv_def)
    have "t = s\<lparr>sy_stop := S_Error\<rparr> \<or> (sy_loops s ! i = L_Ended \<and> t = s\<lparr>sy_stop := S_Proc (i + 1)\<rparr>)"
      using step S_Proc True pid
      by (auto simp: stop_step_def proc_Stop_def split: if_splits option.splits bool.splits)
    then show ?thesis using inv S_Proc st
      by (auto simp: system_inv_def sy_proc_def sy_world_def less_Suc_eq)
  next
    case False
    then have "\<forall>j<length (sy_loops s). sy_loops s ! j = L_Ended" using st inv by (auto simp: system_inv_def)
    then show ?thesis using step S_Proc False inv by (auto simp: stop_step_def system_inv_def sy_proc_def sy_world_def)
  qed
qed (use step in \<open>simp_all add: stop_step_def\<close>)

lemma runtime_step_inv:
  assumes "runtime_step e self s t" "system_inv s"
  shows "system_inv t"
  using assms(1)
proof cases
  case (check i cb io now)
  then show ?thesis using loop_check_inv [OF assms(2)] by auto
next
  case (round i sl)
  then show ?thesis using assms(2)
    by (auto simp: loop_round_def Let_def intro!: set_loop_inv_tag dest!: process_step_tag split: option.splits if_splits)
next
  case (add i)
  then show ?thesis using assms(2) AddNewTasks_tag [of "sy_proc s i" "fst (AddNewTasks (sy_proc s i))" "snd (AddNewTasks (sy_proc s i))"]
    by (auto simp: loop_add_def Let_def intro!: set_loop_inv_tag)
next
  case (release i)
  have "stopped v = stopped w" if "delete_all ts w = Some v" for ts and w v :: "'a world"
    using that by (induction ts arbitrary: w) (auto split: if_splits)
  then show ?thesis using release assms(2)
    by (auto simp: loop_release_def ReleaseTask_def intro!: set_loop_inv split: Option.bind_splits)
next
  case (dispatch busy)
  then show ?thesis using dispatcher_step_inv assms(2) by blast
next
  case stop
  then show ?thesis using stop_step_inv assms(2) by blast
qed

interpretation shutdown_sys: invariant_system "system_init self" "system_step e self" system_inv for self e
proof
  fix s t :: "'a system"
  show "system_init self s \<Longrightarrow> system_inv s" by (rule system_init_inv)
  show "system_inv s \<Longrightarrow> system_step e self s t \<Longrightarrow> system_inv t"
    by (auto elim!: system_step.cases intro: runtime_step_inv sched_inv dest!: sched_CreateTask_same)
qed

section \<open>Threads that do not run\<close>

lemma runtime_step_loops:
  assumes "runtime_step e self s t"
  shows "sy_loops t = sy_loops s
    \<or> (\<exists>i pc. i < length (sy_loops s) \<and> self \<noteq> Some i \<and> sy_loops s ! i \<noteq> L_Start \<and> pc \<noteq> L_Start
      \<and> sy_loops t = (sy_loops s)[i := pc])"
  using assms
proof cases
  case (check i cb io now)
  then have "\<exists>pc. pc \<noteq> L_Start \<and> sy_loops t = (sy_loops s)[i := pc]"
    by (auto simp: loop_check_def Let_def split: if_splits Option.bind_splits) blast
  then show ?thesis using check by auto
next
  case (round i sl)
  then have "\<exists>pc. pc \<noteq> L_Start \<and> sy_loops t = (sy_loops s)[i := pc]"
    by (auto simp: loop_round_def Let_def split: if_splits option.splits)
  then show ?thesis using round by auto
next
  case (add i)
  then have "sy_loops t = (sy_loops s)[i := L_Check]" by (simp add: loop_add_def Let_def)
  then show ?thesis using add by auto
next
  case (release i)
  then have "\<exists>pc. pc \<noteq> L_Start \<and> sy_loops t = (sy_loops s)[i := pc]" by (auto simp: loop_release_def)
  then show ?thesis using release by auto
next
  case (dispatch busy)
  then show ?thesis by (auto simp: dispatcher_step_def split: if_splits)
next
  case stop
  then show ?thesis by (auto simp: stop_step_def split: if_splits option.splits stop_pc.splits bool.splits)
qed

lemma stays_off:
  assumes "system_step e self s t"
  shows "length (sy_loops t) = length (sy_loops s)" "self = Some i \<Longrightarrow> sy_loops t ! i = sy_loops s ! i"
    "sy_loops s ! 0 = L_Start \<Longrightarrow> sy_loops t ! 0 = L_Start"
  using assms by (auto elim!: system_step.cases dest!: runtime_step_loops) (metis nth_list_update_neq)+

lemma stays_off_reachable:
  assumes "(system_step e self)\<^sup>*\<^sup>* s t"
  shows "length (sy_loops t) = length (sy_loops s) \<and> (self = Some i \<longrightarrow> sy_loops t ! i = sy_loops s ! i)
    \<and> (sy_loops s ! 0 = L_Start \<longrightarrow> sy_loops t ! 0 = L_Start)"
  using assms by (induction rule: rtranclp_induct) (auto dest: stays_off)

lemma started_reachable:
  assumes "(system_step e self)\<^sup>*\<^sup>* s t" "L_Start \<notin> set (sy_loops s)"
  shows "L_Start \<notin> set (sy_loops t)"
  using assms(1)
proof (induction rule: rtranclp_induct)
  case (step t u)
  then show ?case by (auto elim!: system_step.cases dest!: runtime_step_loops dest: set_update_subset_insert [THEN subsetD])
qed (rule assms(2))

lemma no_error_reachable:
  assumes "(system_step e None)\<^sup>*\<^sup>* s t" "sy_stop s \<noteq> S_Error"
  shows "sy_stop t \<noteq> S_Error"
  using assms(1)
proof (induction rule: rtranclp_induct)
  case (step t u)
  have "sy_stop u \<noteq> S_Error" if "runtime_step e None t u"
    using that
  proof cases
    case (check i cb io now)
    then have "sy_stop u = sy_stop t" by (auto simp: loop_check_def Let_def split: if_splits Option.bind_splits)
    then show ?thesis using step by simp
  next
    case stop
    then show ?thesis using step.IH
      by (auto simp: stop_step_def proc_Stop_def split: stop_pc.splits if_splits bool.splits option.splits)
  qed (use step.IH in \<open>auto simp: loop_round_def loop_add_def loop_release_def dispatcher_step_def Let_def
      split: if_splits option.splits\<close>)
  then show ?case using step by (auto elim!: system_step.cases)
qed (rule assms(2))

section \<open>After \<open>stop_\<close> is set\<close>

text \<open>How far the threads are from their ends.\<close>

primrec loop_rank :: "loop_pc \<Rightarrow> nat" where
  "loop_rank L_Start = 0"
| "loop_rank L_Round = 4"
| "loop_rank L_Add = 3"
| "loop_rank L_Check = 2"
| "loop_rank L_Release = 1"
| "loop_rank L_Ended = 0"

primrec stop_rank :: "nat \<Rightarrow> stop_pc \<Rightarrow> nat" where
  "stop_rank n S_Enter = 0"
| "stop_rank n S_Join = n + 2"
| "stop_rank n (S_Proc i) = Suc (n - i)"
| "stop_rank n S_Done = 0"
| "stop_rank n S_Error = 0"

definition rank :: "'f system \<Rightarrow> nat" where
  "rank s = sum_list (map loop_rank (sy_loops s)) + (if sy_disp_ended s then 0 else 1) + stop_rank (length (sy_loops s)) (sy_stop s)"

lemma sum_rank_update:
  "i < length xs \<Longrightarrow> loop_rank pc < loop_rank (xs ! i) \<Longrightarrow> sum_list (map loop_rank (xs[i := pc])) < sum_list (map loop_rank xs)"
proof (induction xs arbitrary: i)
  case (Cons x xs)
  then show ?case by (cases i) auto
qed simp

text \<open>The queued tasks of the threads that have not ended, and that they can be deleted.\<close>

definition unreleased :: "'f system \<Rightarrow> nat \<Rightarrow> addr list" where
  "unreleased s i = (if i < length (sy_loops s) \<and> sy_loops s ! i \<noteq> L_Ended then queued (sy_proc s i) else [])"

definition waiting :: "'f system \<Rightarrow> addr set" where
  "waiting s = (\<Union>i. set (unreleased s i))"

definition releasable :: "'f system \<Rightarrow> bool" where
  "releasable s \<longleftrightarrow> (\<forall>i. distinct (unreleased s i) \<and> set (unreleased s i) \<subseteq> dom (tasks (sy_world s)))
     \<and> (\<forall>i j. i \<noteq> j \<longrightarrow> set (unreleased s i) \<inter> set (unreleased s j) = {})"

text \<open>What is left of the tasks when those of the threads that have ended since \<open>s\<close> are deleted.\<close>

definition released_since :: "'f system \<Rightarrow> 'f system \<Rightarrow> bool" where
  "released_since s t \<longleftrightarrow> (\<forall>i. unreleased t i = unreleased s i \<or> unreleased t i = [])
     \<and> tasks (sy_world t) = tasks (sy_world s) |` (- (waiting s - waiting t))"

lemma released_since_refl: "unreleased t = unreleased s \<Longrightarrow> tasks (sy_world t) = tasks (sy_world s) \<Longrightarrow> released_since s t"
  by (simp add: released_since_def waiting_def restrict_map_def)

lemma released_since_trans:
  assumes "released_since s t" "released_since t u"
  shows "released_since s u"
proof -
  have eq: "unreleased t i = unreleased s i \<or> unreleased t i = []" "unreleased u i = unreleased t i \<or> unreleased u i = []" for i
    using assms by (simp_all add: released_since_def)
  have sub: "waiting t \<subseteq> waiting s" "waiting u \<subseteq> waiting t"
  proof -
    have "set (unreleased t i) \<subseteq> set (unreleased s i)" "set (unreleased u i) \<subseteq> set (unreleased t i)" for i
      using eq [of i] by auto
    then show "waiting t \<subseteq> waiting s" "waiting u \<subseteq> waiting t" unfolding waiting_def by blast+
  qed
  have "tasks (sy_world u) = tasks (sy_world s) |` ((- (waiting s - waiting t)) \<inter> (- (waiting t - waiting u)))"
    using assms by (simp add: released_since_def restrict_restrict)
  moreover have "(- (waiting s - waiting t)) \<inter> (- (waiting t - waiting u)) = - (waiting s - waiting u)" using sub by blast
  moreover have "unreleased u i = unreleased s i \<or> unreleased u i = []" for i using eq [of i] by auto
  ultimately show ?thesis by (simp add: released_since_def)
qed

lemma releasable_since:
  assumes "releasable s" "released_since s t"
  shows "releasable t"
proof -
  have eq: "unreleased t i = unreleased s i \<or> unreleased t i = []" for i using assms(2) by (simp add: released_since_def)
  have "set (unreleased t i) \<subseteq> dom (tasks (sy_world t))" for i
  proof
    fix x assume x: "x \<in> set (unreleased t i)"
    then have "x \<in> waiting t" by (auto simp: waiting_def)
    moreover have "x \<in> dom (tasks (sy_world s))" using x eq [of i] assms(1) unfolding releasable_def by (metis empty_iff empty_set subsetD)
    ultimately show "x \<in> dom (tasks (sy_world t))" using assms(2) by (auto simp: released_since_def restrict_map_def)
  qed
  moreover have "distinct (unreleased t i)" for i using eq [of i] assms(1) by (auto simp: releasable_def)
  moreover have "set (unreleased t i) \<inter> set (unreleased t j) = {}" if "i \<noteq> j" for i j
    using eq [of i] eq [of j] assms(1) that unfolding releasable_def by (metis empty_set inf_bot_left inf_bot_right)
  ultimately show ?thesis by (simp add: releasable_def)
qed

lemma unreleased_set_loop:
  assumes "i < length (sy_loops s)" "length (sy_loops s) = length (processers (sy_sched s))"
  shows "unreleased (set_loop i pc p w s) j = (if j = i then (if pc = L_Ended then [] else queued p) else unreleased s j)"
  using assms by (auto simp: unreleased_def sy_proc_set_loop)

lemma ReleaseTask_unreleased:
  assumes "releasable s" "i < length (sy_loops s)" "sy_loops s ! i \<noteq> L_Ended"
  shows "loop_release i s = Some (set_loop i L_Ended ((sy_proc s i)\<lparr>runnableQueue := [], newQueue := [], p_active := False\<rparr>)
    ((sy_world s)\<lparr>tasks := tasks (sy_world s) |` (- set (unreleased s i))\<rparr>) s)"
proof -
  have "distinct (unreleased s i)" "set (unreleased s i) \<subseteq> dom (tasks (sy_world s))"
    using assms(1) by (auto simp: releasable_def)
  moreover have "unreleased s i = runnableQueue (sy_proc s i) @ newQueue (sy_proc s i)"
    using assms by (simp add: unreleased_def queued_def)
  ultimately show ?thesis using ReleaseTask_ok [of "sy_proc s i" "sy_world s"] by (simp add: loop_release_def)
qed

lemma release_since:
  assumes "releasable s" "i < length (sy_loops s)" "sy_loops s ! i \<noteq> L_Ended" "loop_release i s = Some t" "system_inv s"
  shows "released_since s t"
proof -
  have len: "length (sy_loops s) = length (processers (sy_sched s))" using assms(5) by (simp add: system_inv_def)
  have t: "t = set_loop i L_Ended ((sy_proc s i)\<lparr>runnableQueue := [], newQueue := [], p_active := False\<rparr>)
    ((sy_world s)\<lparr>tasks := tasks (sy_world s) |` (- set (unreleased s i))\<rparr>) s"
    using ReleaseTask_unreleased [OF assms(1-3)] assms(4) by simp
  have u: "unreleased t j = (if j = i then [] else unreleased s j)" for j
    unfolding t by (subst unreleased_set_loop [OF assms(2) len]) simp
  have "waiting s - waiting t = set (unreleased s i)"
    using assms(1) unfolding waiting_def releasable_def by (auto simp: u split: if_splits) blast
  then show ?thesis by (auto simp: released_since_def u) (simp add: t)
qed

text \<open>One step after \<open>stop_\<close> is set, with a thread outside the runtime that stops.\<close>

definition stopping :: "'f system \<Rightarrow> bool" where
  "stopping s \<longleftrightarrow> system_inv s \<and> stopped (sy_world s) \<and> sy_stop s \<noteq> S_Error \<and> releasable s"

lemma set_loop_rank:
  "i < length (sy_loops s) \<Longrightarrow> loop_rank pc < loop_rank (sy_loops s ! i) \<Longrightarrow> rank (set_loop i pc p w s) < rank s"
  by (simp add: rank_def sum_rank_update)

lemma set_loop_since:
  assumes "system_inv s" "i < length (sy_loops s)" "sy_loops s ! i \<noteq> L_Ended" "pc \<noteq> L_Ended"
  shows "released_since s (set_loop i pc (sy_proc s i) (sy_world s) s)"
proof (rule released_since_refl, rule ext)
  fix j
  have len: "length (sy_loops s) = length (processers (sy_sched s))" using assms(1) by (simp add: system_inv_def)
  show "unreleased (set_loop i pc (sy_proc s i) (sy_world s) s) j = unreleased s j"
    by (subst unreleased_set_loop [OF assms(2) len]) (use assms in \<open>simp add: unreleased_def\<close>)
qed simp

lemma stop_step_rank:
  assumes "stop_step None s = Some t" "stopping s"
  shows "rank t < rank s \<and> sy_stop t \<noteq> S_Error \<and> sy_stop t \<noteq> S_Enter \<and> sy_sched t = sy_sched s \<and> sy_loops t = sy_loops s"
proof -
  have "sy_stop s \<noteq> S_Enter" "length (sy_loops s) = length (processers (sy_sched s))"
    using assms(2) by (auto simp: stopping_def system_inv_def)
  then show ?thesis using assms(1)
    by (cases "sy_stop s") (auto simp: stop_step_def rank_def proc_Stop_def split: if_splits bool.splits)
qed

lemma stopping_step:
  assumes "runtime_step e None s t" "stopping s"
  shows "rank t < rank s \<and> stopping t \<and> released_since s t"
proof -
  have S: "system_inv s" "stopped (sy_world s)" "sy_stop s \<noteq> S_Error" "releasable s" using assms(2) by (auto simp: stopping_def)
  have inv: "system_inv t" by (rule runtime_step_inv [OF assms(1) S(1)])
  have enter: "sy_stop s \<noteq> S_Enter" using S by (simp add: system_inv_def)
  have "rank t < rank s \<and> sy_stop t \<noteq> S_Error \<and> sy_stop t \<noteq> S_Enter \<and> released_since s t"
    using assms(1)
  proof cases
    case (check i cb io now)
    then show ?thesis using S enter set_loop_rank [of i s L_Release] set_loop_since [OF S(1), of i L_Release]
      by (auto simp: loop_check_def Let_def)
  next
    case (round i sl)
    then show ?thesis using S enter set_loop_rank [of i s L_Add] set_loop_since [OF S(1), of i L_Add]
      by (auto simp: loop_round_def Let_def split: option.splits)
  next
    case (add i)
    then show ?thesis using S enter set_loop_rank [of i s L_Check] set_loop_since [OF S(1), of i L_Check]
      by (auto simp: loop_add_def Let_def)
  next
    case (release i)
    then have "released_since s t" using release_since [OF S(4) _ _ _ S(1)] by simp
    moreover have "rank t < rank s \<and> sy_stop t = sy_stop s"
      using release set_loop_rank [of i s L_Ended] by (auto simp: loop_release_def)
    ultimately show ?thesis using S enter by simp
  next
    case (dispatch busy)
    then show ?thesis using S enter by (auto simp: dispatcher_step_def rank_def sy_world_def unreleased_def sy_proc_def fun_eq_iff
      split: if_splits intro!: released_since_refl)
  next
    case stop
    then show ?thesis using stop_step_rank [OF stop assms(2)]
      by (auto simp: unreleased_def sy_proc_def sy_world_def fun_eq_iff intro!: released_since_refl)
  qed
  moreover from this have "stopped (sy_world t)" using inv by (simp add: system_inv_def)
  ultimately show ?thesis using inv releasable_since [OF S(4)] by (simp add: stopping_def)
qed

lemma stopping_steps:
  "(runtime_step e None ^^ k) s t \<Longrightarrow> stopping s \<Longrightarrow> rank t + k \<le> rank s \<and> stopping t \<and> released_since s t"
proof (induction k arbitrary: t)
  case 0
  then show ?case by (simp add: released_since_refl)
next
  case (Suc k)
  then obtain u where u: "(runtime_step e None ^^ k) s u" "runtime_step e None u t" by auto
  note A = Suc.IH [OF u(1) Suc.prems(2)]
  with stopping_step [OF u(2)] released_since_trans show ?case by fastforce
qed

lemma rank_bound:
  assumes "stopping s"
  shows "rank s \<le> 5 * length (sy_loops s) + 3"
proof -
  have "sum_list (map loop_rank xs) \<le> 4 * length xs" for xs
  proof (induction xs)
    case (Cons x xs)
    then show ?case by (cases x) auto
  qed simp
  from this [of "sy_loops s"] show ?thesis by (cases "sy_stop s") (auto simp: rank_def)
qed

text \<open>Some thread can go on until \<open>Stop\<close> has returned.\<close>

lemma stopping_progress:
  assumes "stopping s" "sy_stop s \<noteq> S_Done" "L_Start \<notin> set (sy_loops s)"
  shows "\<exists>t. runtime_step e None s t"
proof (cases "\<exists>i<length (sy_loops s). sy_loops s ! i \<noteq> L_Ended")
  case True
  then obtain i where i: "i < length (sy_loops s)" "sy_loops s ! i \<noteq> L_Ended" by blast
  have S: "stopped (sy_world s)" "releasable s" using assms(1) by (auto simp: stopping_def)
  have "sy_loops s ! i \<noteq> L_Start" using i assms(3) by (metis nth_mem)
  moreover have "\<exists>t. loop_check [] (\<lambda>n a x. (x, [])) 0 i s = Some t" using S(1) by (simp add: loop_check_def)
  moreover have "quiet (\<lambda>n a x. (x, []))" by (simp add: quiet_def)
  moreover have "\<exists>t. loop_round e ([], Yields) i s = Some t" using S(1) by (simp add: loop_round_def Let_def split: option.split)
  moreover have "\<exists>t. loop_release i s = Some t" using ReleaseTask_unreleased [OF S(2) i] by blast
  ultimately show ?thesis using i
    by (cases "sy_loops s ! i") (blast intro: check round add release option.distinct)+
next
  case False
  have S: "system_inv s" "stopped (sy_world s)" "sy_stop s \<noteq> S_Error" using assms(1) by (auto simp: stopping_def)
  show ?thesis
  proof (cases "dispatcher (sy_sched s) \<and> \<not> sy_disp_ended s")
    case True
    then have "dispatcher_step False s = Some (s\<lparr>sy_disp_ended := True\<rparr>)" using S(2) by (simp add: dispatcher_step_def)
    then show ?thesis by (blast intro: dispatch)
  next
    case disp: False
    have "\<forall>i<length (processers (sy_sched s)). \<not> p_active (sy_proc s i) \<and> sy_loops s ! i = L_Ended"
      using False S(1) by (auto simp: system_inv_def)
    moreover have "sy_stop s \<noteq> S_Enter" using S by (simp add: system_inv_def)
    ultimately have "\<exists>t. stop_step None s = Some t" using S(3) assms(2) disp
      by (cases "sy_stop s") (auto simp: stop_step_def proc_Stop_def)
    then show ?thesis by (blast intro: stop)
  qed
qed

lemma stop_reached:
  assumes "stopping s" "L_Start \<notin> set (sy_loops s)"
  shows "\<exists>t. (runtime_step e None)\<^sup>*\<^sup>* s t \<and> sy_stop t = S_Done"
  using assms
proof (induction "rank s" arbitrary: s rule: less_induct)
  case less
  show ?case
  proof (cases "sy_stop s = S_Done")
    case False
    then obtain u where u: "runtime_step e None s u" using stopping_progress less.prems by blast
    have "L_Start \<notin> set (sy_loops u)"
      using started_reachable [OF _ less.prems(2), of e None u] own [OF u] by blast
    then obtain t where "(runtime_step e None)\<^sup>*\<^sup>* u t" "sy_stop t = S_Done"
      using less.hyps [of u] stopping_step [OF u less.prems(1)] by blast
    then show ?thesis using u by (meson converse_rtranclp_into_rtranclp)
  qed blast
qed

lemma own_steps: "(runtime_step e self)\<^sup>*\<^sup>* s t \<Longrightarrow> (system_step e self)\<^sup>*\<^sup>* s t"
  by (induction rule: rtranclp_induct) (auto intro: own rtranclp.rtrancl_into_rtrancl)

section \<open>Properties\<close>

text \<open>
  C17: \<open>Stop\<close> returns only when the dispatcher thread and the threads of all processers have left their loops and
  are marked inactive, whatever the tasks, timers, other creators of tasks and the dispatcher did meanwhile. It does
  not return at all when the scheduler was never started or when a task of the scheduler calls it.
\<close>

theorem stop_waits_for_all_threads:
  assumes "system_init self s" and "(system_step e self)\<^sup>*\<^sup>* s t" and "sy_stop t = S_Done"
  shows "stopped (sy_world t) \<and> (dispatcher (sy_sched t) \<longrightarrow> sy_disp_ended t)
    \<and> (\<forall>i<length (processers (sy_sched t)). sy_loops t ! i = L_Ended \<and> \<not> p_active (sy_proc t i))
    \<and> self = None \<and> sy_loops s ! 0 \<noteq> L_Start"
proof -
  have inv: "system_inv t" by (rule shutdown_sys.inv_reachable [OF assms(1,2)])
  have off: "length (sy_loops t) = length (sy_loops s)" "self = Some i \<Longrightarrow> sy_loops t ! i = sy_loops s ! i"
    "sy_loops s ! 0 = L_Start \<Longrightarrow> sy_loops t ! 0 = L_Start" for i
    using stays_off_reachable [OF assms(2)] by blast+
  have ended: "\<forall>i<length (sy_loops t). sy_loops t ! i = L_Ended" "0 < length (sy_loops t)"
    using inv assms(3) by (auto simp: system_inv_def)
  have "self = None"
  proof (rule ccontr)
    assume "self \<noteq> None"
    then obtain i where "self = Some i" by auto
    then show False using off(1) off(2) [of i] ended assms(1) by (auto simp: system_init_def)
  qed
  moreover have "sy_loops s ! 0 \<noteq> L_Start" using off(3) ended by auto
  ultimately show ?thesis using inv assms(3) by (auto simp: system_inv_def)
qed

text \<open>Two threads with queued tasks, a dispatcher, and a third thread that has set \<open>stop_\<close>.\<close>

definition demo_system :: "nat system" where
  "demo_system = \<lparr>sy_sched = (sched_new 0)\<lparr>processers := [(proc_new 0)\<lparr>runnableQueue := [2, 3]\<rparr>, (proc_new 1)\<lparr>newQueue := [4]\<rparr>],
     s_world := busy_world, started := True, dispatcher := True\<rparr>,
     sy_loops = [L_Check, L_Round], sy_disp_ended = False, sy_stop = S_Enter\<rparr>"

definition demo_stopping :: "nat system" where
  "demo_stopping = demo_system\<lparr>sy_sched := sched_Stop (sy_sched demo_system), sy_stop := S_Join\<rparr>"

lemma demo_system_init: "system_init None demo_system"
  by (auto simp: system_init_def demo_system_def sched_new_def proc_new_def sy_proc_def sy_world_def busy_world_def
      demo_world_def less_Suc_eq)

lemma demo_stopping_step: "(system_step e None)\<^sup>*\<^sup>* demo_system demo_stopping"
proof -
  have "stop_step None demo_system = Some demo_stopping"
    by (simp add: stop_step_def demo_stopping_def demo_system_def sy_world_def busy_world_def demo_world_def)
  then show ?thesis by (blast intro: own stop)
qed

lemma demo_stopping_ok: "stopped (sy_world demo_stopping)" "releasable demo_stopping" "L_Start \<notin> set (sy_loops demo_system)"
  "waiting demo_stopping = {2, 3, 4}" "length (sy_loops demo_stopping) = 2"
proof -
  have u: "unreleased demo_stopping i = (if i = 0 then [2, 3] else if i = 1 then [4] else [])" for i
    by (auto simp: unreleased_def demo_stopping_def demo_system_def sched_Stop_def sy_proc_def queued_def proc_new_def
        busy_world_def demo_world_def sched_new_def less_Suc_eq)
  have d: "dom (tasks (sy_world demo_stopping)) = {1..7}"
    by (auto simp: demo_stopping_def demo_system_def sched_Stop_def sy_world_def busy_world_def demo_world_def split: if_splits)
  show "releasable demo_stopping" unfolding releasable_def d by (auto simp: u)
  show "waiting demo_stopping = {2, 3, 4}" by (auto simp: waiting_def u split: if_splits)
qed (simp_all add: demo_stopping_def demo_system_def sched_Stop_def sy_world_def busy_world_def demo_world_def)

lemma demo_stopping_stopping: "stopping demo_stopping" "L_Start \<notin> set (sy_loops demo_stopping)"
proof -
  show "stopping demo_stopping"
    using shutdown_sys.inv_reachable [OF demo_system_init demo_stopping_step [of undefined]] demo_stopping_ok
    by (simp add: stopping_def) (simp add: demo_stopping_def)
  show "L_Start \<notin> set (sy_loops demo_stopping)" by (simp add: demo_stopping_def demo_system_def)
qed

lemma stop_waits_for_all_threads_witness:
  "\<exists>t. (system_step demo_env None)\<^sup>*\<^sup>* demo_system t \<and> sy_stop t = S_Done \<and> stopped (sy_world t)
    \<and> (\<forall>i<length (processers (sy_sched t)). \<not> p_active (sy_proc t i))"
proof -
  obtain t where "(runtime_step demo_env None)\<^sup>*\<^sup>* demo_stopping t" "sy_stop t = S_Done"
    using stop_reached [OF demo_stopping_stopping] by blast
  then have "(system_step demo_env None)\<^sup>*\<^sup>* demo_system t" "sy_stop t = S_Done"
    using demo_stopping_step own_steps by (blast intro: rtranclp_trans)+
  then show ?thesis using stop_waits_for_all_threads [OF demo_system_init] by blast
qed



text \<open>
  A task of another processer than the first that calls \<open>Stop\<close> gets to the \<open>join\<close> of its own thread, which throws; one
  of the first processer, and a thread that stops a scheduler which was never started, wait for good.
\<close>

theorem stop_in_own_thread:
  assumes "system_inv s" "sy_stop s = S_Proc i" "i < length (sy_loops s)"
  shows "0 < i \<Longrightarrow> stop_step (Some i) s = Some (s\<lparr>sy_stop := S_Error\<rparr>)"
    and "i = 0 \<Longrightarrow> sy_loops s ! 0 \<noteq> L_Ended \<Longrightarrow> stop_step self s = None"
  using assms by (auto simp: stop_step_def proc_Stop_def system_inv_def)

end
