(* ===== verification/Dispatcher.thy ===== *)
theory Dispatcher
  imports Cpu_Load Shutdown
begin

text \<open>
  The dispatcher thread of \<open>scheduler/scheduler.cpp\<close> together with what it asks: which threads \<open>ThreadsPhyInfo\<close> is
  told of, and cycles that start the measuring, wait, stop it and balance the tasks if it says so.
\<close>

section \<open>The threads that are measured\<close>

text \<open>
  \<open>Start\<close> adds the calling thread; a new thread adds itself only where the macro \<open>LIBGO_SYS_Unix\<close> is defined
  (\<open>sys\<close>), which no file of the repository does.
\<close>

definition NewProcessThread_track :: "bool \<Rightarrow> int \<Rightarrow> phy_info \<Rightarrow> phy_info" where
  "NewProcessThread_track sys tid phy = (if sys then AddThreadTid tid phy else phy)"

primrec track_threads :: "bool \<Rightarrow> int list \<Rightarrow> phy_info \<Rightarrow> phy_info" where
  "track_threads sys [] phy = phy"
| "track_threads sys (t # ts) phy = track_threads sys ts (NewProcessThread_track sys t phy)"

definition Start_track :: "bool \<Rightarrow> int \<Rightarrow> int list \<Rightarrow> phy_info \<Rightarrow> phy_info" where
  "Start_track sys main workers phy = track_threads sys workers (AddThreadTid main phy)"

section \<open>The dispatcher\<close>

text \<open>
  One cycle: the files under \<open>/proc\<close> before and after the wait, and the scheduler after it. \<open>AvgTotalTasks\<close> runs to its
  end here; the threads go on with their queues before and after.
\<close>

type_synonym files = "string \<Rightarrow> string option"

definition dispatch_cycle :: "int \<Rightarrow> files \<Rightarrow> files \<Rightarrow> phy_info \<Rightarrow> 'f sched \<Rightarrow> ('f sched \<times> phy_info) option" where
  "dispatch_cycle nprocs before after phy s = do {
     (_, phy) \<leftarrow> StartTrack before phy;
     (busy, phy) \<leftarrow> StopTrack after nprocs phy;
     Some (if busy then AvgTotalTasks s else s, phy) }"

text \<open>Cycles until \<open>stop_\<close> is seen: the files and the scheduler each of them meets, and what it leaves.\<close>

primrec dispatch_run ::
  "int \<Rightarrow> (files \<times> files \<times> 'f sched) list \<Rightarrow> phy_info \<Rightarrow> ('f sched list \<times> phy_info) option" where
  "dispatch_run nprocs [] phy = Some ([], phy)"
| "dispatch_run nprocs (c # cs) phy = do {
     (s, phy) \<leftarrow> dispatch_cycle nprocs (fst c) (fst (snd c)) phy (snd (snd c));
     (ss, phy) \<leftarrow> dispatch_run nprocs cs phy;
     Some (s # ss, phy) }"

section \<open>Facts\<close>

lemma StartTrack_tids: "StartTrack fs phy = Some (b, phy') \<Longrightarrow> tids phy' = tids phy \<and> phy_pid phy' = phy_pid phy"
  by (auto simp: StartTrack_def Let_def split: Option.bind_splits if_splits)

lemma StopTrack_length:
  assumes "StopTrack fs n phy = Some (b, phy')"
  shows "length (tids phy') = length (tids phy)"
proof -
  obtain all ok ts tot where "usage_loop (GetThreadTime fs (phy_pid phy)) n all (firstTidTimes phy) (tids phy) (Fin 0)
      = Some (ok, ts, tot)" "phy' = phy\<lparr>tids := ts\<rparr>"
    using assms by (auto simp: StopTrack_def Let_def split: Option.bind_splits if_splits)
  then show ?thesis by (simp add: usage_loop_result)
qed

lemma track_no_threads: "track_threads False ts phy = phy"
  by (induction ts) (simp_all add: NewProcessThread_track_def)

lemma dispatch_cycle_single:
  assumes "dispatch_cycle n before after phy s = Some (s', phy')" "length (tids phy) = 1"
  shows "s' = s \<and> length (tids phy') = 1"
proof -
  obtain b phy1 busy where 1: "StartTrack before phy = Some (b, phy1)" "StopTrack after n phy1 = Some (busy, phy')"
    "s' = (if busy then AvgTotalTasks s else s)"
    using assms(1) by (auto simp: dispatch_cycle_def split: Option.bind_splits)
  have "length (tids phy1) = 1" using StartTrack_tids [OF 1(1)] assms(2) by simp
  then show ?thesis using 1(3) stop_track_single_thread [OF 1(2)] StopTrack_length [OF 1(2)] by simp
qed

section \<open>Properties\<close>

text \<open>
  A cycle of the dispatcher loses and duplicates no task and starts no thread, and it moves tasks only if the
  times of all measured threads could be read and the usage of one of them was 31 percent points or more off the
  mean.
\<close>

theorem dispatch_cycle_conserves:
  assumes "dispatch_cycle nprocs before after phy s = Some (s', phy')"
  shows "all_queued (processers s') = all_queued (processers s) \<and> length (processers s') = length (processers s)
    \<and> s_world s' = s_world s
    \<and> (processers s' \<noteq> processers s \<longrightarrow> (\<forall>x\<in>set (tids phy). readable (GetThreadTime after (phy_pid phy)) x)
       \<and> (\<exists>x\<in>set (tids phy'). \<exists>d. fl_add 24 (the (cpuUseAge x)) (fl_neg (mean_usage (tids phy'))) = Fin d \<and> 31 \<le> \<bar>d\<bar>))"
proof -
  obtain b phy1 busy where 1: "StartTrack before phy = Some (b, phy1)" "StopTrack after nprocs phy1 = Some (busy, phy')"
    "s' = (if busy then AvgTotalTasks s else s)"
    using assms by (auto simp: dispatch_cycle_def split: Option.bind_splits)
  have "busy \<longrightarrow> (\<forall>x\<in>set (tids phy). readable (GetThreadTime after (phy_pid phy)) x)
      \<and> (\<exists>x\<in>set (tids phy'). \<exists>d. fl_add 24 (the (cpuUseAge x)) (fl_neg (mean_usage (tids phy'))) = Fin d \<and> 31 \<le> \<bar>d\<bar>)"
    using StopTrack_busy [OF 1(2)] StartTrack_tids [OF 1(1)] by auto
  then show ?thesis using 1(3) avg_procs_conserves [of "processers s"] by (auto simp: AvgTotalTasks_def)
qed

definition early_files :: files where
  "early_files p =
     (if p = ''/proc/stat'' then Some (''cpu  100 0 50 250 0 0 0 0 0 0'' @ [nl])
      else if p = ''/proc/7/stat'' then Some (stat_line 7 ''main'' (CHR ''R'') [1, 7, 7, 0, -1, 4194304, 90, 0, 0, 0, 6, 4, 0, 0, 20, 0])
      else demo_files p)"

lemma early_times: "GetThreadTime early_files 7 0 = Some 10" "GetThreadTime early_files 7 9 = Some 10"
proof -
  have "length (stat_line 7 ''main'' (CHR ''R'') [1, 7, 7, 0, -1, 4194304, 90, 0, 0, 0, 6, 4, 0, 0, 20, 0]) < 1024"
    by (simp add: stat_line_def spaced_def show_int_def show_nat.simps)
  from GetThreadTime_line [OF demo_paths(1) _ _ _ _ _ this, of early_files]
  show "GetThreadTime early_files 7 0 = Some 10" by (simp add: early_files_def in_int32_def)
  show "GetThreadTime early_files 7 9 = Some 10"
    using GetThreadTime_line [OF demo_paths(2) _ _ _ _ _ demo_line_lengths(2), of early_files]
    by (simp add: early_files_def demo_files_def in_int32_def)
qed

lemma early_cpu_line:
  "read_cpu_line (''cpu  100 0 50 250 0 0 0 0 0 0'' @ [nl]) old = Some (map Some [100, 0, 50, 250, 0, 0, 0, 0] @ drop 8 old)"
  by (simp add: read_cpu_line_def fgets_def scan_word_def is_space_def scan_int_def scan_nat_def is_digit_def
      digits_val_def digit_val_def Let_def numeral_eq_Suc)

lemma start_track_demo: "StartTrack early_files (Start_track True 0 [9] (phy_new 7)) = Some (True, demo_phy)"
proof -
  have f: "early_files ''/proc/stat'' = Some (''cpu  100 0 50 250 0 0 0 0 0 0'' @ [nl])" by (simp add: early_files_def)
  show ?thesis
    by (simp only: StartTrack_def f option.simps bind.simps early_cpu_line)
      (simp add: Start_track_def NewProcessThread_track_def phy_new_def AddThreadTid_def demo_phy_def early_times numeral_eq_Suc Let_def)
qed

lemma dispatch_cycle_conserves_witness:
  "\<exists>s'. dispatch_cycle 2 early_files demo_files (Start_track True 0 [9] (phy_new 7)) three_procs = Some (s', demo_after)
    \<and> all_queued (processers s') = {#1, 2, 3, 4, 5, 6, 7#}"
proof -
  have D: "dispatch_cycle 2 early_files demo_files (Start_track True 0 [9] (phy_new 7)) three_procs
      = Some (AvgTotalTasks three_procs, demo_after)"
    by (simp add: dispatch_cycle_def start_track_demo stop_track_demo)
  moreover have "all_queued (processers three_procs) = {#1, 2, 3, 4, 5, 6, 7#}"
    by (simp add: three_procs_def queued_def proc_new_def)
  ultimately show ?thesis using dispatch_cycle_conserves [OF D] by simp
qed

text \<open>
  C39: As it is built, the dispatcher of Linux never balances: with \<open>LIBGO_SYS_Unix\<close> undefined only the thread that called
  \<open>Start\<close> is measured, one thread is never off its own mean, and whatever the files say and however many threads and
  tasks there are, every cycle leaves the scheduler as it is.
\<close>

theorem dispatcher_never_balances:
  assumes "dispatch_run nprocs cs (Start_track False main workers (phy_new pid)) = Some (ss, phy')"
  shows "ss = map (snd \<circ> snd) cs"
proof -
  have "ss = map (snd \<circ> snd) cs" if "dispatch_run nprocs cs phy = Some (ss, phy')" "length (tids phy) = 1" for phy
    using that
  proof (induction cs arbitrary: ss phy)
    case (Cons c cs)
    obtain s phy1 ss' where 1: "dispatch_cycle nprocs (fst c) (fst (snd c)) phy (snd (snd c)) = Some (s, phy1)"
      "dispatch_run nprocs cs phy1 = Some (ss', phy')" "ss = s # ss'"
      using Cons.prems(1) by (auto split: Option.bind_splits)
    then show ?case using dispatch_cycle_single [OF 1(1) Cons.prems(2)] Cons.IH [OF 1(2)] by simp
  qed simp
  then show ?thesis
    using assms by (simp add: Start_track_def track_no_threads AddThreadTid_def phy_new_def)
qed

lemma dispatcher_never_balances_witness:
  "\<exists>phy'. dispatch_run 2 [(early_files, demo_files, three_procs)] (Start_track False 0 [9, 10] (phy_new 7)) = Some ([three_procs], phy')"
proof -
  have f: "early_files ''/proc/stat'' = Some (''cpu  100 0 50 250 0 0 0 0 0 0'' @ [nl])" by (simp add: early_files_def)
  have g: "demo_files ''/proc/stat'' = Some (''cpu  150 0 50 300 0 0 0 0 0 0'' @ [nl])" by (simp add: demo_files_def)
  define phy where "phy = \<lparr>tids = [\<lparr>p_tid = 0, cpuUseAge = None\<rparr>], firstTidTimes = [10],
     firstData = map Some [100, 0, 50, 250, 0, 0, 0, 0], phy_pid = 7\<rparr>"
  have "StartTrack early_files (Start_track False 0 [9, 10] (phy_new 7)) = Some (True, phy)"
    by (simp only: StartTrack_def f option.simps bind.simps early_cpu_line)
      (simp add: Start_track_def NewProcessThread_track_def phy_new_def AddThreadTid_def phy_def early_times numeral_eq_Suc Let_def)
  moreover have "\<exists>b phy'. StopTrack demo_files 2 phy = Some (b, phy')"
    by (simp only: StopTrack_def g option.simps bind.simps demo_cpu_line)
      (auto simp: phy_def sum_data_def fl_int_def demo_times usage_def in_int32_def Let_def
        deviates_def truncate_rat_def taskLoadage_def)
  ultimately obtain s phy' where
    "dispatch_run 2 [(early_files, demo_files, three_procs)] (Start_track False 0 [9, 10] (phy_new 7)) = Some ([s], phy')"
    by (auto simp: dispatch_cycle_def)
  then show ?thesis using dispatcher_never_balances [of 2 "[(early_files, demo_files, three_procs)]" 0 "[9, 10]" 7] by fastforce
qed

end
