(* ===== verification/Common.thy ===== *)
theory Common
  imports Decimal
begin

text \<open>
  The utilities of \<open>common/\<close>: the counters and the source location of \<open>util.h\<close>, the error codes and exceptions
  of \<open>error.h\<close> and \<open>error.cpp\<close>, and the options, the saved \<open>errno\<close>, the formatting and the naming helpers of
  \<open>config.h\<close> and \<open>config.cpp\<close>.
\<close>

section \<open>Counters\<close>

text \<open>
  \<open>ObjectCounter\<close> counts the objects of a class, \<open>IdCounter\<close> numbers them; the counters are atomic \<open>long\<close>s. An
  object is given by its number of construction. Copies and moves construct an object.
\<close>

record counted =
  oc_counter :: "64 word"
  ic_counter :: "64 word"
  live :: "(nat \<times> 64 word) list"
  built :: nat

definition counted_new :: counted where
  "counted_new = \<lparr>oc_counter = 0, ic_counter = 0, live = [], built = 0\<rparr>"

datatype counted_op = Construct | Copy nat | Move nat | Destroy nat

text \<open>Copying, moving from and destroying an object that is not alive has no result.\<close>

definition construct :: "counted \<Rightarrow> counted" where
  "construct s = s\<lparr>oc_counter := oc_counter s + 1, ic_counter := ic_counter s + 1,
     live := live s @ [(built s, ic_counter s + 1)], built := built s + 1\<rparr>"

definition destroy :: "nat \<Rightarrow> counted \<Rightarrow> counted" where
  "destroy i s = s\<lparr>oc_counter := oc_counter s - 1, live := filter (\<lambda>x. fst x \<noteq> i) (live s)\<rparr>"

definition getCount :: "counted \<Rightarrow> int" where
  "getCount s = sint (oc_counter s)"

definition getId :: "nat \<Rightarrow> counted \<Rightarrow> int option" where
  "getId i s = map_option sint (map_of (live s) i)"

fun counted_step :: "counted_op \<Rightarrow> counted \<Rightarrow> counted option" where
  "counted_step Construct s = Some (construct s)"
| "counted_step (Copy i) s = (if i \<in> fst ` set (live s) then Some (construct s) else None)"
| "counted_step (Move i) s = (if i \<in> fst ` set (live s) then Some (construct s) else None)"
| "counted_step (Destroy i) s = (if i \<in> fst ` set (live s) then Some (destroy i s) else None)"

primrec counted_run :: "counted_op list \<Rightarrow> counted \<Rightarrow> counted option" where
  "counted_run [] s = Some s"
| "counted_run (x # xs) s = Option.bind (counted_step x s) (counted_run xs)"

section \<open>Source locations\<close>

text \<open>
  A file name is a pointer, compared as such first, and the characters it points to. \<open>strcmp\<close> promises only the
  sign of its result; it is the parameter \<open>cmp\<close>.
\<close>

record location =
  l_file :: "(addr \<times> string) option"
  lineno :: int

definition location_new :: location where
  "location_new = \<lparr>l_file = None, lineno = 0\<rparr>"

definition location_Init :: "(addr \<times> string) option \<Rightarrow> int \<Rightarrow> location \<Rightarrow> location" where
  "location_Init f l s = s\<lparr>l_file := f, lineno := l\<rparr>"

definition location_less :: "(string \<Rightarrow> string \<Rightarrow> int) \<Rightarrow> location \<Rightarrow> location \<Rightarrow> bool" where
  "location_less cmp lhs rhs =
     (if lineno lhs \<noteq> lineno rhs then lineno lhs < lineno rhs
      else if map_option fst (l_file lhs) = map_option fst (l_file rhs) then False
      else (case l_file lhs of None \<Rightarrow> True
        | Some f \<Rightarrow> (case l_file rhs of None \<Rightarrow> False | Some g \<Rightarrow> cmp (snd f) (snd g) = - 1)))"

definition location_ToString :: "location \<Rightarrow> string" where
  "location_ToString s = ''{file:'' @ (case l_file s of None \<Rightarrow> [] | Some f \<Rightarrow> snd f) @ '', line:''
     @ show_int (lineno s) @ ''}''"

section \<open>Errors\<close>

datatype eCoErrorCode = Ec_ok | Ec_mutex_double_unlock | Ec_block_object_locked | Ec_block_object_waiting
  | Ec_yield_failed | Ec_swapcontext_failed | Ec_makecontext_failed | Ec_iocpinit_failed
  | Ec_protect_stack_failed | Ec_std_thread_link_error | Ec_disabled_multi_thread

fun code_value :: "eCoErrorCode \<Rightarrow> int" where
  "code_value Ec_ok = 0"
| "code_value Ec_mutex_double_unlock = 1"
| "code_value Ec_block_object_locked = 2"
| "code_value Ec_block_object_waiting = 3"
| "code_value Ec_yield_failed = 4"
| "code_value Ec_swapcontext_failed = 5"
| "code_value Ec_makecontext_failed = 6"
| "code_value Ec_iocpinit_failed = 7"
| "code_value Ec_protect_stack_failed = 8"
| "code_value Ec_std_thread_link_error = 9"
| "code_value Ec_disabled_multi_thread = 10"

definition newline :: string where
  "newline = [char_of (10::nat)]"

definition message :: "int \<Rightarrow> string" where
  "message v =
     (if v = 0 then ''ok''
      else if v = 1 then ''co_mutex double unlock''
      else if v = 2 then ''block object locked when destructor''
      else if v = 3 then ''block object was waiting when destructor''
      else if v = 4 then ''yield failed''
      else if v = 5 then ''swapcontext failed''
      else if v = 6 then ''makecontext failed''
      else if v = 7 then ''iocp init failed''
      else if v = 8 then ''protect stack failed''
      else if v = 9 then ''std thread link error.'' @ newline
        @ ''if static-link use flags: '' @ [char_of (39::nat)]
        @ ''-Wl,--whole-archive -lpthread -Wl,--no-whole-archive -static'' @ [char_of (39::nat)]
        @ '' on link step;'' @ newline @ ''if dynamic-link use flags: '' @ [char_of (39::nat)] @ ''-pthread''
        @ [char_of (39::nat)] @ '' on compile step and link step;'' @ newline
      else if v = 10 then ''Unsupport multiply threads. If you want use multiply threads, please cmake libgo without DISABLE_MULTI_THREAD option.''
      else [])"

text \<open>An exception in flight: \<open>std::system_error\<close> with its code, or \<open>co_exception\<close> with its text.\<close>

datatype thrown = System_Error int | Co_Exception string

definition MakeCoErrorCode :: "eCoErrorCode \<Rightarrow> int" where
  "MakeCoErrorCode c = code_value c"

text \<open>Nothing is thrown while another exception is being handled (\<open>std::uncaught_exception ()\<close>).\<close>

definition ThrowError :: "bool \<Rightarrow> eCoErrorCode \<Rightarrow> thrown + unit" where
  "ThrowError uncaught c = (if uncaught then Inr () else Inl (System_Error (MakeCoErrorCode c)))"

definition ThrowException :: "bool \<Rightarrow> string \<Rightarrow> thrown + unit" where
  "ThrowException uncaught msg = (if uncaught then Inr () else Inl (Co_Exception msg))"

fun what :: "thrown \<Rightarrow> string" where
  "what (System_Error v) = message v"
| "what (Co_Exception s) = s"

section \<open>Saving errno\<close>

text \<open>
  \<open>ErrnoStore\<close>: \<open>errno\<close> and, on Windows, the socket error are saved by the constructor and put back by \<open>Restore\<close>,
  once, at the latest by the destructor.
\<close>

record thread_errno =
  e_errno :: int
  e_wsa :: int

record errno_store =
  st_errno :: int
  st_wsa :: int
  restored :: bool

definition ErrnoStore_new :: "thread_errno \<Rightarrow> errno_store" where
  "ErrnoStore_new e = \<lparr>st_errno = e_errno e, st_wsa = e_wsa e, restored = False\<rparr>"

definition ErrnoStore_Restore :: "bool \<Rightarrow> errno_store \<Rightarrow> thread_errno \<Rightarrow> errno_store \<times> thread_errno" where
  "ErrnoStore_Restore win st e =
     (if restored st then (st, e)
      else (st\<lparr>restored := True\<rparr>, \<lparr>e_errno = st_errno st, e_wsa = (if win then st_wsa st else e_wsa e)\<rparr>))"

definition ErrnoStore_destroy :: "bool \<Rightarrow> errno_store \<Rightarrow> thread_errno \<Rightarrow> thread_errno" where
  "ErrnoStore_destroy win st e = snd (ErrnoStore_Restore win st e)"

text \<open>
  The macro \<open>DebugPrint\<close>: \<open>print\<close> is what the printing calls do to the error codes; the second result says whether
  something is printed.
\<close>

definition DebugPrint ::
  "bool \<Rightarrow> uint64 \<Rightarrow> uint64 \<Rightarrow> (thread_errno \<Rightarrow> thread_errno) \<Rightarrow> thread_errno \<Rightarrow> thread_errno \<times> bool" where
  "DebugPrint win debug type print e =
     (if and debug type \<noteq> 0 then (ErrnoStore_destroy win (ErrnoStore_new e) (print e), True) else (e, False))"

section \<open>Names and formatting\<close>

text \<open>The part after the last occurrence of a character (\<open>strrchr (...) + 1\<close>), if there is one.\<close>

definition after_last :: "char \<Rightarrow> string \<Rightarrow> string option" where
  "after_last c s = (if c \<in> set s then Some (rev (takeWhile (\<lambda>x. x \<noteq> c) (rev s))) else None)"

definition slash :: char where "slash = char_of (47::nat)"
definition backslash :: char where "backslash = char_of (92::nat)"

definition BaseFile :: "string \<Rightarrow> string" where
  "BaseFile s = (case after_last slash s of
      Some p \<Rightarrow> p
    | None \<Rightarrow> (case after_last backslash s of Some p \<Rightarrow> p | None \<Rightarrow> s))"

text \<open>The switch runs over the event masked to three bits.\<close>

definition PollEvent2Str :: "16 word \<Rightarrow> string" where
  "PollEvent2Str ev = (let e = and ev (or (or 1 4) 8) in
     if e = 1 then ''POLLIN''
     else if e = 4 then ''POLLOUT''
     else if e = 8 then ''POLLERR''
     else if e = 0x20 then ''POLLNVAL''
     else if e = or 1 4 then ''POLLIN | POLLOUT''
     else if e = or 1 8 then ''POLLIN | POLLERR''
     else if e = or 4 8 then ''POLLOUT | POLLERR''
     else if e = or (or 1 4) 8 then ''POLLIN | POLLOUT | POLLERR''
     else ''Zero'')"

text \<open>
  \<open>Format\<close> and \<open>P\<close> print into a buffer of 4096 bytes. \<open>out\<close> is the whole formatted text, whose length \<open>vsnprintf\<close>
  returns even when it stores only a part of it; reading or writing outside the buffer has no result.
\<close>

definition vsnprintf_buf :: "nat \<Rightarrow> string \<Rightarrow> string" where
  "vsnprintf_buf n out = take (n - 1) out @ [char_of (0::nat)]"

definition Format :: "string \<Rightarrow> string option" where
  "Format out = (if length out \<le> 4096 then Some (take (length out) (vsnprintf_buf 4096 out)) else None)"

definition P_line :: "string \<Rightarrow> string option" where
  "P_line out = (let len = length out in
     if len + 1 < 4096 then Some (take len (vsnprintf_buf 4095 out) @ newline) else None)"

section \<open>Options\<close>

definition dbg_all :: uint64 where "dbg_all = not 0"
definition dbg_scheduler :: uint64 where "dbg_scheduler = push_bit 2 1"
definition dbg_task :: uint64 where "dbg_task = push_bit 3 1"
definition dbg_switch :: uint64 where "dbg_switch = push_bit 4 1"
definition dbg_ioblock :: uint64 where "dbg_ioblock = push_bit 5 1"
definition dbg_thread :: uint64 where "dbg_thread = push_bit 17 1"

datatype eCoExHandle = Immedaitely_throw | On_listener

text \<open>The options with their default values (\<open>linux\<close> selects the default of the protected pages).\<close>

record coroutine_options =
  o_debug :: uint64
  o_exception_handle :: eCoExHandle
  o_stack_size :: int
  o_epoll_event_size :: uint32
  o_enable_coro_stat :: bool
  o_cycle_timeout_us :: uint32
  o_dispatcher_thread_cycle_us :: uint32
  o_protect_stack_page :: int
  o_stack_page_size :: int

definition options_new :: "bool \<Rightarrow> int \<Rightarrow> coroutine_options" where
  "options_new linux page = \<lparr>o_debug = 0, o_exception_handle = Immedaitely_throw, o_stack_size = 1024 * 1024,
     o_epoll_event_size = 10240, o_enable_coro_stat = False, o_cycle_timeout_us = 100 * 1000,
     o_dispatcher_thread_cycle_us = 1000 * 10, o_protect_stack_page = (if linux then 0 else 1),
     o_stack_page_size = page\<rparr>"

section \<open>Properties\<close>

lemma length_filter_key:
  "distinct (map fst xs) \<Longrightarrow> i \<in> fst ` set xs \<Longrightarrow> length xs = length (filter (\<lambda>x. fst x \<noteq> i) xs) + 1"
proof (induction xs)
  case (Cons x xs)
  show ?case
  proof (cases "fst x = i")
    case True
    then have "i \<notin> fst ` set xs" using Cons.prems by simp
    then have "filter (\<lambda>x. fst x \<noteq> i) xs = xs" by (intro filter_True) (metis image_eqI)
    then show ?thesis using True by simp
  next
    case False
    then show ?thesis using Cons by simp
  qed
qed simp

lemma counted_inv:
  "counted_run ops s = Some t \<Longrightarrow> oc_counter s = of_nat (length (live s)) \<Longrightarrow> ic_counter s = of_nat (built s)
    \<Longrightarrow> distinct (map fst (live s)) \<Longrightarrow> \<forall>(i, k)\<in>set (live s). i < built s \<and> k = of_nat (Suc i)
    \<Longrightarrow> oc_counter t = of_nat (length (live t)) \<and> distinct (map fst (live t))
      \<and> (\<forall>(i, k)\<in>set (live t). i < built t \<and> k = of_nat (Suc i))"
proof (induction ops arbitrary: s)
  case (Cons x ops)
  have C: ?case if "counted_run ops (construct s) = Some t"
  proof (rule Cons.IH [OF that])
    show "distinct (map fst (live (construct s)))" using Cons.prems by (auto simp: construct_def)
    show "\<forall>(i, k)\<in>set (live (construct s)). i < built (construct s) \<and> k = of_nat (Suc i)"
      using Cons.prems by (auto simp: construct_def)
  qed (use Cons.prems in \<open>simp_all add: construct_def\<close>)
  have D: ?case if run: "counted_run ops (destroy i s) = Some t" and alive: "i \<in> fst ` set (live s)" for i
  proof (rule Cons.IH [OF run])
    have "length (live s) = length (filter (\<lambda>x. fst x \<noteq> i) (live s)) + 1"
      by (rule length_filter_key) (use Cons.prems(4) alive in simp_all)
    then show "oc_counter (destroy i s) = of_nat (length (live (destroy i s)))"
      using Cons.prems by (simp add: destroy_def)
    show "distinct (map fst (live (destroy i s)))"
      using Cons.prems by (simp add: destroy_def distinct_map_filter)
  qed (use Cons.prems in \<open>auto simp: destroy_def\<close>)
  show ?case using Cons.prems(1) C D by (cases x) (auto split: if_splits Option.bind_splits)
qed auto

text \<open>
  Whatever objects are constructed, copied, moved and destroyed, the counter of a class is the number of its
  objects that are alive, and the objects have pairwise different ids (until the 64 bit counter wraps).
\<close>

theorem object_counter_counts_live:
  assumes "counted_run ops counted_new = Some s" "length (live s) < 2 ^ 63" "built s < 2 ^ 64"
  shows "getCount s = int (length (live s)) \<and> distinct (map snd (live s))"
proof -
  have I: "oc_counter s = of_nat (length (live s))" "distinct (map fst (live s))"
    "\<forall>(i, k)\<in>set (live s). i < built s \<and> k = of_nat (Suc i)"
    using counted_inv [OF assms(1)] by (auto simp: counted_new_def)
  have "sint (of_nat (length (live s)) :: 64 word) = int (length (live s))"
    using assms(2) by (simp add: signed_of_nat signed_take_bit_int_eq_self)
  moreover have "map snd (live s) = map (\<lambda>i. of_nat (Suc i)) (map fst (live s))" using I(3) by auto
  moreover have "inj_on (\<lambda>i. of_nat (Suc i) :: 64 word) (fst ` set (live s))"
  proof (rule inj_onI)
    fix i j assume "i \<in> fst ` set (live s)" "j \<in> fst ` set (live s)" "of_nat (Suc i) = (of_nat (Suc j) :: 64 word)"
    moreover have "Suc i \<le> 2 ^ 64 - 1" "Suc j \<le> 2 ^ 64 - 1" using calculation(1,2) I(3) assms(3) by fastforce+
    ultimately show "i = j" by (metis Suc_inject le_imp_less_Suc unat_of_nat_64 Suc_diff_1 zero_less_numeral zero_less_power)
  qed
  ultimately have "distinct (map snd (live s))" using I(2) by (simp only: distinct_map list.set_map)
  then show ?thesis using I(1) \<open>sint _ = _\<close> by (simp add: getCount_def)
qed

lemma object_counter_counts_live_witness:
  "\<exists>s. counted_run [Construct, Construct, Copy 0, Destroy 1, Move 2] counted_new = Some s
     \<and> getCount s = 3 \<and> distinct (map snd (live s))"
proof -
  obtain s where s: "counted_run [Construct, Construct, Copy 0, Destroy 1, Move 2] counted_new = Some s"
    "length (live s) = 3" "built s = 4"
    by (simp add: counted_new_def construct_def destroy_def)
  then show ?thesis using object_counter_counts_live [OF s(1)] by auto
qed

text \<open>
  The order of source locations is a strict order if \<open>strcmp\<close> returns only -1, 0 and 1. The standard promises
  only the sign, and with a \<open>strcmp\<close> that returns differences it is not even transitive.
\<close>

definition strcmp_law :: "(string \<Rightarrow> string \<Rightarrow> int) \<Rightarrow> bool" where
  "strcmp_law cmp \<longleftrightarrow> (\<forall>a b. (cmp a b = 0 \<longleftrightarrow> a = b) \<and> (cmp a b < 0 \<longleftrightarrow> 0 < cmp b a))
     \<and> (\<forall>a b c. cmp a b < 0 \<longrightarrow> cmp b c < 0 \<longrightarrow> cmp a c < 0)"

definition same_text :: "location \<Rightarrow> location \<Rightarrow> bool" where
  "same_text l r \<longleftrightarrow> (\<forall>f g. l_file l = Some f \<longrightarrow> l_file r = Some g \<longrightarrow> fst f = fst g \<longrightarrow> snd f = snd g)"

theorem location_less_strict_order:
  assumes "strcmp_law cmp" "\<forall>a b. - 1 \<le> cmp a b" "same_text x y" "same_text y z" "same_text x z"
  shows "\<not> location_less cmp x x" and "location_less cmp x y \<Longrightarrow> \<not> location_less cmp y x"
    and "location_less cmp x y \<Longrightarrow> location_less cmp y z \<Longrightarrow> location_less cmp x z"
proof -
  have lt: "cmp a b = - 1 \<longleftrightarrow> cmp a b < 0" for a b using assms(2) [rule_format, of a b] by linarith
  have law: "cmp a b = 0 \<longleftrightarrow> a = b" "cmp a b < 0 \<longleftrightarrow> 0 < cmp b a" "cmp a b < 0 \<Longrightarrow> cmp b c < 0 \<Longrightarrow> cmp a c < 0" for a b c
    using assms(1) unfolding strcmp_law_def by blast+
  show "\<not> location_less cmp x x" by (simp add: location_less_def)
  show "\<not> location_less cmp y x" if "location_less cmp x y"
    using that law(2) [of "snd (the (l_file x))" "snd (the (l_file y))"]
    by (auto simp: location_less_def lt split: if_splits option.splits)
  show "location_less cmp x z" if "location_less cmp x y" "location_less cmp y z"
    using that law assms(5)
    by (auto simp: location_less_def lt same_text_def split: if_splits option.splits) (metis less_irrefl)+
qed

definition byte_diff :: "string \<Rightarrow> string \<Rightarrow> int" where
  "byte_diff a b = (case (a, b) of (x # _, y # _) \<Rightarrow> int (of_char x) - int (of_char y) | _ \<Rightarrow> 0)"

definition loc_of :: "nat \<Rightarrow> string \<Rightarrow> location" where
  "loc_of a s = \<lparr>l_file = Some (a, s), lineno = 1\<rparr>"

theorem location_less_not_transitive:
  "location_less byte_diff (loc_of 1 ''a'') (loc_of 2 ''b'')
   \<and> location_less byte_diff (loc_of 2 ''b'') (loc_of 3 ''c'')
   \<and> \<not> location_less byte_diff (loc_of 1 ''a'') (loc_of 3 ''c'')"
  by (simp add: location_less_def byte_diff_def loc_of_def)

text \<open>Every code has a text of its own number, other numbers none.\<close>

theorem message_of_codes:
  "message (MakeCoErrorCode c) \<noteq> [] \<and> (MakeCoErrorCode c = MakeCoErrorCode d \<longleftrightarrow> c = d)
   \<and> (v < 0 \<or> 10 < v \<longrightarrow> message v = [])
   \<and> (ThrowError uncaught c = Inl t \<longrightarrow> \<not> uncaught \<and> what t = message (code_value c))"
  by (cases c; cases d) (auto simp: message_def MakeCoErrorCode_def ThrowError_def)

text \<open>
  Printing a debug message leaves the error codes of the thread as they were: whatever the printing does to
  \<open>errno\<close> (and on Windows to the socket error), it is put back; an early \<open>Restore\<close> is the last one.
\<close>

theorem debug_print_keeps_errno:
  "e_errno (fst (DebugPrint win debug type print e)) = e_errno e
   \<and> (win \<longrightarrow> fst (DebugPrint win debug type print e) = e)
   \<and> ErrnoStore_destroy win (fst (ErrnoStore_Restore win (ErrnoStore_new e) e1)) e2 = e2
   \<and> e_errno (snd (ErrnoStore_Restore win (ErrnoStore_new e) e1)) = e_errno e"
  by (simp add: DebugPrint_def ErrnoStore_destroy_def ErrnoStore_Restore_def ErrnoStore_new_def)

text \<open>The name after the last slash, else after the last backslash, else all of it.\<close>

lemma after_last_append: "c \<notin> set b \<Longrightarrow> after_last c (a @ c # b) = Some b"
proof -
  assume "c \<notin> set b"
  then have "takeWhile (\<lambda>x. x \<noteq> c) (rev b @ c # rev a) = rev b" by (subst takeWhile_append2) auto
  then show ?thesis by (simp add: after_last_def)
qed

lemma after_last_None: "c \<notin> set b \<Longrightarrow> after_last c b = None"
  by (simp add: after_last_def)

theorem base_file_name:
  assumes "slash \<notin> set b"
  shows "BaseFile (a @ slash # b) = b"
    and "slash \<notin> set a \<Longrightarrow> backslash \<notin> set b \<Longrightarrow> BaseFile (a @ backslash # b) = b"
    and "backslash \<notin> set b \<Longrightarrow> BaseFile b = b"
proof -
  have "slash \<noteq> backslash" by (simp add: slash_def backslash_def)
  then show "BaseFile (a @ slash # b) = b" "backslash \<notin> set b \<Longrightarrow> BaseFile b = b"
    "slash \<notin> set a \<Longrightarrow> backslash \<notin> set b \<Longrightarrow> BaseFile (a @ backslash # b) = b"
    using assms by (simp_all add: BaseFile_def after_last_append after_last_None)
qed

text \<open>\<open>POLLNVAL\<close> has a case of the switch but not a bit of the mask.\<close>

theorem poll_nval_has_no_name: "PollEvent2Str 0x20 = ''Zero'' \<and> PollEvent2Str 0x25 = ''POLLIN | POLLOUT''"
  by (simp add: PollEvent2Str_def)

text \<open>
  \<open>Format\<close> and \<open>P\<close> return the formatted text as long as it fits their buffer of 4096 bytes, and leave the buffer
  otherwise: \<open>vsnprintf\<close> returns the length the text would have, which they take for the length of what is stored.
  A text of exactly 4096 characters loses its last one.
\<close>

theorem format_overruns_buffer:
  "(length out < 4096 \<longrightarrow> Format out = Some out)
   \<and> (length out = 4096 \<longrightarrow> Format out = Some (take 4095 out @ [char_of (0::nat)]))
   \<and> (4096 < length out \<longrightarrow> Format out = None)
   \<and> (length out < 4095 \<longrightarrow> P_line out = Some (out @ newline))
   \<and> (4095 \<le> length out \<longrightarrow> P_line out = None)"
  by (auto simp: Format_def P_line_def vsnprintf_buf_def Let_def)

end
