(* ===== verification/Runtime.thy ===== *)
theory Runtime
  imports Shutdown Common
begin

text \<open>
  What a program calls: the \<open>go\<close> statements of \<open>common/syntax_helper.h\<close> and \<open>coroutine.h\<close>, the schedulers that are
  created and deleted in \<open>scheduler/scheduler.cpp\<close>, and the queries of \<open>debug/debugger.cpp\<close>. Schedulers are objects at
  addresses; the default one lives at \<open>default_addr\<close> and is constructed when it is first asked for.
\<close>

section \<open>State\<close>

text \<open>
  Tasks are objects of the program, not of a scheduler, and so is the counter of their ids. An operation of one scheduler
  sees them through its own world (\<open>view\<close>) and leaves them changed (\<open>store\<close>).
\<close>

record 'f runtime =
  schedulers :: "addr \<rightharpoonup> 'f sched"
  task_heap :: "addr \<rightharpoonup> 'f task"
  exit_list :: "addr list"
  id_factory :: uint32
  exiting :: bool

definition default_addr :: addr where
  "default_addr = 0"

definition runtime_new :: "'f runtime" where
  "runtime_new = \<lparr>schedulers = Map.empty, task_heap = Map.empty, exit_list = [], id_factory = 0, exiting = False\<rparr>"

definition view :: "'f runtime \<Rightarrow> 'f sched \<Rightarrow> 'f sched" where
  "view rt s = s\<lparr>s_world := (s_world s)\<lparr>tasks := task_heap rt, TaskIdFactory := id_factory rt\<rparr>\<rparr>"

definition store :: "addr \<Rightarrow> 'f sched \<Rightarrow> 'f runtime \<Rightarrow> 'f runtime" where
  "store a s rt = rt\<lparr>schedulers := (schedulers rt)(a \<mapsto> s), task_heap := tasks (s_world s),
     id_factory := TaskIdFactory (s_world s)\<rparr>"

definition on_sched :: "addr \<Rightarrow> ('f sched \<Rightarrow> 'f sched option) \<Rightarrow> 'f runtime \<Rightarrow> 'f runtime option" where
  "on_sched a f rt = do {
     s \<leftarrow> schedulers rt a;
     s \<leftarrow> f (view rt s);
     Some (store a s rt) }"

section \<open>Schedulers\<close>

definition getInstance :: "'f runtime \<Rightarrow> addr \<times> 'f runtime" where
  "getInstance rt = (default_addr,
     if schedulers rt default_addr = None
     then rt\<lparr>schedulers := (schedulers rt)(default_addr \<mapsto> sched_new (id_factory rt))\<rparr> else rt)"

definition Scheduler_Create :: "(addr set \<Rightarrow> addr) \<Rightarrow> 'f runtime \<Rightarrow> addr \<times> 'f runtime" where
  "Scheduler_Create new rt =
     (let a = new (insert default_addr (dom (schedulers rt)))
      in (a, rt\<lparr>schedulers := (schedulers rt)(a \<mapsto> sched_new (id_factory rt)), exit_list := exit_list rt @ [a]\<rparr>))"

text \<open>
  \<open>Process\<close> gives a finished task to the cache of the default scheduler, whichever scheduler it ran in
  (\<open>Scheduler::getInstance ().Add2FreeTaskList\<close>), so a processer's turn works on that cache. A first finished
  task constructs the default scheduler.
\<close>

definition cache :: "'f runtime \<Rightarrow> (int, addr) mmap" where
  "cache rt = (case schedulers rt default_addr of None \<Rightarrow> [] | Some d \<Rightarrow> free_task_map (s_world d))"

definition with_cache :: "(int, addr) mmap \<Rightarrow> 'f sched \<Rightarrow> 'f sched" where
  "with_cache c s = s\<lparr>s_world := (s_world s)\<lparr>free_task_map := c\<rparr>\<rparr>"

definition set_cache :: "(int, addr) mmap \<Rightarrow> 'f runtime \<Rightarrow> 'f runtime" where
  "set_cache c rt = (let rt = snd (getInstance rt)
     in rt\<lparr>schedulers := (schedulers rt)(default_addr := map_option (with_cache c) (schedulers rt default_addr))\<rparr>)"

definition on_turn :: "addr \<Rightarrow> ('f sched \<Rightarrow> 'f sched option) \<Rightarrow> 'f runtime \<Rightarrow> 'f runtime option" where
  "on_turn a f rt = do {
     s \<leftarrow> schedulers rt a;
     t \<leftarrow> f (with_cache (cache rt) (view rt s));
     let c = free_task_map (s_world t);
     let rt' = store a (with_cache (free_task_map (s_world s)) t) rt;
     Some (if c = cache rt then rt' else set_cache c rt') }"

text \<open>\<open>delete sched\<close>, and what \<open>onExit\<close> does when the program ends.\<close>

definition delete_sched :: "addr \<Rightarrow> 'f runtime \<Rightarrow> 'f runtime option" where
  "delete_sched a rt = do {
     s \<leftarrow> schedulers rt a;
     s \<leftarrow> sched_destroy (view rt s);
     Some (rt\<lparr>schedulers := (schedulers rt)(a := None), task_heap := tasks (s_world s), exiting := True\<rparr>) }"

primrec delete_scheds :: "addr list \<Rightarrow> 'f runtime \<Rightarrow> 'f runtime option" where
  "delete_scheds [] rt = Some rt"
| "delete_scheds (a # as) rt = Option.bind (delete_sched a rt) (delete_scheds as)"

definition onExit :: "'f runtime \<Rightarrow> 'f runtime option" where
  "onExit rt = do {
     rt \<leftarrow> delete_scheds (exit_list rt) rt;
     Some (rt\<lparr>exit_list := []\<rparr>) }"

section \<open>The \<open>go\<close> statement\<close>

text \<open>The options \<open>co_scheduler\<close>, \<open>co_stack\<close> and the one for affinity.\<close>

datatype go_option = Opt_scheduler ptr | Opt_stack_size cint | Opt_affinity bool

record task_opt =
  opt_affinity :: bool
  opt_lineno :: int
  opt_stack_size :: cint
  opt_file :: string
  opt_user_param :: ptr

record go_object =
  go_opt :: task_opt
  go_scheduler :: ptr

definition go_new :: "string \<Rightarrow> int \<Rightarrow> go_object" where
  "go_new file line = \<lparr>go_opt = \<lparr>opt_affinity = False, opt_lineno = line, opt_stack_size = 0, opt_file = file,
     opt_user_param = None\<rparr>, go_scheduler = None\<rparr>"

primrec go_with :: "go_option \<Rightarrow> go_object \<Rightarrow> go_object" where
  "go_with (Opt_scheduler p) g = g\<lparr>go_scheduler := p\<rparr>"
| "go_with (Opt_stack_size n) g = g\<lparr>go_opt := (go_opt g)\<lparr>opt_stack_size := n\<rparr>\<rparr>"
| "go_with (Opt_affinity b) g = g\<lparr>go_opt := (go_opt g)\<lparr>opt_affinity := b\<rparr>\<rparr>"

text \<open>A function without or with a parameter selects the overload of \<open>CreateTask\<close>.\<close>

datatype 'f callable = Nullary 'f | Unary 'f

definition CreateTask_arg :: "'f callable \<Rightarrow> task_opt \<Rightarrow> 'f task_arg" where
  "CreateTask_arg f opt = (case f of Nullary f \<Rightarrow> Plain f | Unary f \<Rightarrow> WithParam f (opt_user_param opt))"

text \<open>
  The scheduler a statement uses; \<open>current\<close> is the one of the calling thread's processer, if it has one.
\<close>

definition GetCurrentScheduler :: "(addr \<times> nat) option \<Rightarrow> ptr" where
  "GetCurrentScheduler current = map_option fst current"

definition go_target :: "(addr \<times> nat) option \<Rightarrow> go_object \<Rightarrow> 'f runtime \<Rightarrow> addr \<times> 'f runtime" where
  "go_target current g rt =
     (case go_scheduler g of
        Some a \<Rightarrow> (a, rt)
      | None \<Rightarrow> (case GetCurrentScheduler current of Some a \<Rightarrow> (a, rt) | None \<Rightarrow> getInstance rt))"

definition go_create :: "env \<Rightarrow> (addr \<times> nat) option \<Rightarrow> 'f callable \<Rightarrow> go_object \<Rightarrow> 'f runtime \<Rightarrow> 'f runtime option" where
  "go_create e current f g rt =
     (let (a, rt) = go_target current g rt
      in on_sched a (sched_CreateTask e (CreateTask_arg f (go_opt g)) (opt_stack_size (go_opt g))) rt)"

text \<open>The three ways to end a statement: \<open>- f\<close>, \<open>(f, param)\<close> and \<open>(size, f, param)\<close>.\<close>

definition go_dash :: "env \<Rightarrow> (addr \<times> nat) option \<Rightarrow> 'f callable \<Rightarrow> go_object \<Rightarrow> 'f runtime \<Rightarrow> 'f runtime option" where
  "go_dash e current f g rt = go_create e current f g rt"

definition go_call :: "env \<Rightarrow> (addr \<times> nat) option \<Rightarrow> 'f callable \<Rightarrow> ptr \<Rightarrow> go_object \<Rightarrow> 'f runtime \<Rightarrow> 'f runtime option" where
  "go_call e current f p g rt = go_create e current f (g\<lparr>go_opt := (go_opt g)\<lparr>opt_user_param := p\<rparr>\<rparr>) rt"

definition go_call_stack ::
  "env \<Rightarrow> (addr \<times> nat) option \<Rightarrow> cint \<Rightarrow> 'f callable \<Rightarrow> ptr \<Rightarrow> go_object \<Rightarrow> 'f runtime \<Rightarrow> 'f runtime option" where
  "go_call_stack e current n f p g rt =
     go_create e current f (g\<lparr>go_opt := (go_opt g)\<lparr>opt_user_param := p, opt_stack_size := n\<rparr>\<rparr>) rt"

section \<open>The debugger\<close>

text \<open>\<open>GetCurrentThreadID\<close> and \<open>GetCurrentCoroID\<close> of \<open>common/config.cpp\<close>.\<close>

definition GetCurrentThreadID :: "proc option \<Rightarrow> int" where
  "GetCurrentThreadID pr = (case pr of Some p \<Rightarrow> p_id p | None \<Rightarrow> - 1)"

definition GetCurrentCoroID :: "proc option \<Rightarrow> 'f world \<Rightarrow> uint32 option" where
  "GetCurrentCoroID pr w = (case GetCurrentTask pr of None \<Rightarrow> Some 0 | Some tk \<Rightarrow> map_option t_id (tasks w tk))"

text \<open>Without \<open>ENABLE_DEBUGGER\<close> tasks are not counted, and the text a task is given is dropped.\<close>

definition dbg_TaskCount :: int where
  "dbg_TaskCount = - 1"

definition SetCurrentTaskDebugInfo :: "proc option \<Rightarrow> string \<Rightarrow> 'f world \<Rightarrow> 'f world" where
  "SetCurrentTaskDebugInfo pr info w = (case GetCurrentTask pr of None \<Rightarrow> w | Some tk \<Rightarrow> w)"

definition DebugInfo :: "addr option \<Rightarrow> string" where
  "DebugInfo tk = (if tk = None then ''nil'' else '''')"

definition GetAllInfo :: "proc option \<Rightarrow> 'f sched \<Rightarrow> string option" where
  "GetAllInfo pr s = do {
     i \<leftarrow> GetCurrentTaskID pr s;
     y \<leftarrow> GetCurrentTaskYieldCount pr s;
     l0 \<leftarrow> P_line (replicate 46 (CHR ''=''));
     l1 \<leftarrow> P_line (''TaskCount: '' @ show_int dbg_TaskCount);
     l2 \<leftarrow> P_line (''CurrentTaskID: '' @ show_nat (unat i));
     l3 \<leftarrow> P_line (''CurrentTaskInfo: '' @ DebugInfo (GetCurrentTask pr));
     l4 \<leftarrow> P_line (''CurrentTaskYieldCount: '' @ show_nat (unat y));
     l5 \<leftarrow> P_line (''CurrentThreadID: '' @ show_int (GetCurrentThreadID pr));
     l6 \<leftarrow> P_line (replicate 44 (CHR ''-''));
     Some (l0 @ l1 @ l2 @ l3 @ l4 @ l5 @ l6) }"

section \<open>Well-formedness\<close>

text \<open>
  A scheduler whose tasks are queued at most once and in use, with at least one active processer, one before \<open>Start\<close>.
\<close>

definition procs_ok :: "'f sched \<Rightarrow> bool" where
  "procs_ok s \<longleftrightarrow> 0 < length (processers s) \<and> length (processers s) < 2 ^ 31
     \<and> (\<not> started s \<longrightarrow> length (processers s) = 1) \<and> (\<exists>p\<in>set (processers s). p_active p)
     \<and> (\<forall>p\<in>set (processers s). nextTask p = None)
     \<and> distinct (concat (map queued (processers s)))"

definition sys_ok :: "'f sched \<Rightarrow> bool" where
  "sys_ok s \<longleftrightarrow> pool_ok (s_world s) \<and> procs_ok s
     \<and> (\<forall>t\<in>set (concat (map queued (processers s))). in_use t (s_world s))"

text \<open>
  The tasks and the cache as a world, and the whole runtime: its schedulers are well formed with the common tasks, no
  task is queued in two of them, and only the default one caches tasks.
\<close>

definition shared :: "'f runtime \<Rightarrow> 'f world" where
  "shared rt = (world_new 0)\<lparr>tasks := task_heap rt, free_task_map := cache rt\<rparr>"

definition runtime_ok :: "'f runtime \<Rightarrow> bool" where
  "runtime_ok rt \<longleftrightarrow> finite (dom (schedulers rt)) \<and> distinct (exit_list rt)
     \<and> set (exit_list rt) = dom (schedulers rt) - {default_addr} \<and> pool_ok (shared rt)
     \<and> (\<forall>a s. schedulers rt a = Some s \<longrightarrow> procs_ok s \<and> (\<forall>t\<in>#all_queued (processers s). in_use t (shared rt))
          \<and> (a \<noteq> default_addr \<longrightarrow> free_task_map (s_world s) = []))
     \<and> (\<forall>a b s r t. schedulers rt a = Some s \<longrightarrow> schedulers rt b = Some r \<longrightarrow> a \<noteq> b \<longrightarrow>
          t \<in># all_queued (processers s) \<longrightarrow> t \<notin># all_queued (processers r))"

lemmas sys_ok_defs = sys_ok_def procs_ok_def

lemma mset_concat_queued: "mset (concat (map queued ps)) = all_queued ps"
  by (induction ps) simp_all

lemma set_concat_queued: "set (concat (map queued ps)) = set_mset (all_queued ps)"
  by (simp only: mset_concat_queued [symmetric] set_mset_mset)

lemma map_eq_bex: "map f ps = map f qs \<Longrightarrow> (\<exists>p\<in>set ps. P (f p)) \<longleftrightarrow> (\<exists>p\<in>set qs. P (f p))"
  by (drule arg_cong [of _ _ "\<lambda>xs. \<exists>x\<in>set xs. P x"]) simp

lemma map_eq_ball: "map f ps = map f qs \<Longrightarrow> (\<forall>p\<in>set ps. P (f p)) \<longleftrightarrow> (\<forall>p\<in>set qs. P (f p))"
  by (drule arg_cong [of _ _ "\<lambda>xs. \<forall>x\<in>set xs. P x"]) simp

lemma sys_ok_queued:
  assumes "sys_ok s" "all_queued ps = all_queued (processers s)" "length ps = length (processers s)"
    "map p_active ps = map p_active (processers s)" "map nextTask ps = map nextTask (processers s)"
  shows "sys_ok (s\<lparr>processers := ps\<rparr>)"
proof -
  have m: "mset (concat (map queued ps)) = mset (concat (map queued (processers s)))"
    by (simp add: mset_concat_queued assms(2))
  show ?thesis using assms(1,3) map_eq_bex [OF assms(4), of "\<lambda>x. x"] map_eq_ball [OF assms(5), of "\<lambda>x. x = None"] mset_eq_setD [OF m] mset_eq_imp_distinct_iff [OF m] by (simp add: sys_ok_defs procs_ok_def)
qed

text \<open>What the cache promises depends on the tasks and the cache only.\<close>

lemma in_use_cong: "tasks v = tasks w \<Longrightarrow> free_task_map v = free_task_map w \<Longrightarrow> in_use t v = in_use t w"
  by (simp add: in_use_def free_tasks_def)

lemma pool_ok_cong:
  assumes "pool_ok w" "free_task_map v = free_task_map w" "finite (dom (tasks v))"
    and "\<And>x. x \<in> free_tasks w \<Longrightarrow> tasks v x = tasks w x"
  shows "pool_ok v"
proof -
  have "tasks v a = tasks w a" if "(n, a) \<in> set (free_task_map w)" for n a
    using that by (intro assms(4)) (force simp: free_tasks_def)
  then show ?thesis using assms(1-3) by (fastforce simp: pool_ok_def)
qed

lemma pool_ok_empty: "free_task_map w = [] \<Longrightarrow> finite (dom (tasks w)) \<Longrightarrow> pool_ok w"
  by (simp add: pool_ok_def)

lemma shared_simps [simp]: "tasks (shared rt) = task_heap rt" "free_task_map (shared rt) = cache rt"
  by (simp_all add: shared_def)

lemma view_simps [simp]:
  "processers (view rt s) = processers s" "started (view rt s) = started s" "tasks (s_world (view rt s)) = task_heap rt"
  "free_task_map (s_world (view rt s)) = free_task_map (s_world s)" "procs_ok (view rt s) = procs_ok s"
  "stopped (s_world (view rt s)) = stopped (s_world s)"
  by (simp_all add: view_def procs_ok_def)

lemma with_cache_simps [simp]:
  "processers (with_cache c s) = processers s" "started (with_cache c s) = started s"
  "tasks (s_world (with_cache c s)) = tasks (s_world s)" "free_task_map (s_world (with_cache c s)) = c"
  "procs_ok (with_cache c s) = procs_ok s" "stopped (s_world (with_cache c s)) = stopped (s_world s)"
  "TaskIdFactory (s_world (with_cache c s)) = TaskIdFactory (s_world s)"
  by (simp_all add: with_cache_def procs_ok_def)

lemma sys_ok_iff:
  "sys_ok s \<longleftrightarrow> pool_ok (s_world s) \<and> procs_ok s \<and> (\<forall>t\<in>#all_queued (processers s). in_use t (s_world s))"
  by (simp only: sys_ok_def set_concat_queued)

lemma with_cache_same: "free_task_map (s_world t) = c \<Longrightarrow> with_cache c t = t"
  by (rule sched.equality) (auto simp: with_cache_def intro: world.equality)

lemma sched_new_ok:
  "processers (sched_new i) = [proc_new 0]" "free_task_map (s_world (sched_new i)) = []" "\<not> started (sched_new i)"
  "queued (proc_new 0) = []" "procs_ok (sched_new i)"
  by (simp_all add: sched_new_def world_new_def proc_new_def queued_def procs_ok_def)

lemma sys_ok_new: "sys_ok (sched_new i)"
  by (simp add: sys_ok_defs sched_new_def world_new_def pool_ok_def proc_new_def queued_def)

text \<open>What a task will run.\<close>

definition runs :: "'f task \<Rightarrow> 'f task_arg \<Rightarrow> bool" where
  "runs k arg \<longleftrightarrow> (case arg of Plain f \<Rightarrow> t_fn k = TaskF (Some f) | WithParam f p \<Rightarrow> t_fn k = TaskF1 (Some f) \<and> t_user_param k = p)"

lemma create_task_runs:
  assumes "create_task e arg n w = Some (tk, v)" "tasks v tk = Some k"
  shows "runs k arg"
  using assms
  by (cases arg) (auto simp: create_task_def get_free_def GetFreeTaskList_def GetFreeTaskList1_def new_task_def Let_def
      upd_task_def task_ReInit_def task_ReInit1_def task_new_def task_new1_def runs_def
      split: Option.bind_splits option.splits)

text \<open>\<open>CreateTask\<close> in a well-formed scheduler.\<close>

lemma sched_CreateTask_ok:
  assumes ok: "sys_ok s" and env: "env_ok e"
  shows "\<exists>tk k s'. sched_CreateTask e arg n s = Some s' \<and> sys_ok s' \<and> \<not> in_use tk (s_world s)
    \<and> all_queued (processers s') = add_mset tk (all_queued (processers s)) \<and> TaskCount s' = TaskCount s + 1
    \<and> tasks (s_world s') tk = Some k \<and> t_state k = Runnable \<and> runs k arg
    \<and> sint (want_size e n) \<le> sint (t_stack_size k)
    \<and> (\<forall>t. t \<noteq> tk \<longrightarrow> tasks (s_world s') t = tasks (s_world s) t) \<and> free_tasks (s_world s') \<subseteq> free_tasks (s_world s)
    \<and> (tasks (s_world s) tk = None \<or> tk \<in> free_tasks (s_world s))"
proof -
  have pool: "pool_ok (s_world s)" using ok by (simp add: sys_ok_defs)
  obtain tk k w where C: "create_task e arg n (s_world s) = Some (tk, w)" "pool_ok w"
    "tk \<notin> free_tasks w" "taskCount w = taskCount (s_world s) + 1" "stopped w = stopped (s_world s)"
    "tasks w tk = Some k" "t_state k = Runnable" "t_proc k = None"
    "sint (want_size e n) \<le> sint (t_stack_size k)"
    "if tk \<in> free_tasks (s_world s) then free_tasks w = free_tasks (s_world s) - {tk}
       else tasks (s_world s) tk = None \<and> free_tasks w = free_tasks (s_world s)"
    "\<forall>t. t \<noteq> tk \<longrightarrow> tasks w t = tasks (s_world s) t"
    using create_task_ok [OF pool env, of arg n] by (smt (verit, best))
  have nu: "\<not> in_use tk (s_world s)" using C(10) by (auto simp: in_use_def split: if_splits)
  have keep: "in_use t w \<and> tasks w t = tasks (s_world s) t" if "in_use t (s_world s)" for t
    using that nu C(10,11) by (metis DiffD1 in_use_def)
  let ?s = "s\<lparr>s_world := w\<rparr>"
  obtain d where "let p = (unat (lastActive ?s) + d) mod length (processers ?s) in
    AddTask_any tk None ?s = Some (?s\<lparr>lastActive := of_nat p + 1,
      processers := (processers ?s)[p := proc_AddTask tk (processers ?s ! p)]\<rparr>)"
    using AddTask_any_ok [of "length (processers ?s)" ?s tk None] ok by (auto simp: sys_ok_defs Let_def)
  then obtain p where p: "AddTask_any tk None ?s = Some (?s\<lparr>lastActive := of_nat p + 1,
      processers := (processers s)[p := proc_AddTask tk (processers s ! p)]\<rparr>)" "p < length (processers s)"
    using ok by (auto simp: Let_def sys_ok_defs)
  let ?ps = "(processers s)[p := proc_AddTask tk (processers s ! p)]"
  have S: "sched_CreateTask e arg n s = Some (?s\<lparr>lastActive := of_nat p + 1, processers := ?ps\<rparr>)"
    using C(1,6,8) p(1) by (simp add: sched_CreateTask_def sched_AddTask_def)
  have q: "all_queued (xs[i := proc_AddTask tk (xs ! i)]) = add_mset tk (all_queued xs)" if "i < length xs" for i xs
    using that
  proof (induction xs arbitrary: i)
    case (Cons x xs)
    then show ?case by (cases i) (simp_all add: proc_AddTask_def queued_def)
  qed simp
  have m: "mset (concat (map queued ?ps)) = mset (tk # concat (map queued (processers s)))"
    using q [OF p(2)] by (simp add: mset_concat_queued)
  have "distinct (concat (map queued ?ps))"
    using mset_eq_imp_distinct_iff [OF m] ok nu by (auto simp: sys_ok_defs)
  moreover have "\<forall>t\<in>set (concat (map queued ?ps)). in_use t w"
    using mset_eq_setD [OF m] ok keep C(3,6) by (auto simp: sys_ok_defs in_use_def)
  moreover have "(\<exists>x\<in>set ?ps. p_active x) \<and> (\<forall>x\<in>set ?ps. nextTask x = None)"
  proof -
    have "map p_active ?ps = map p_active (processers s)" "map nextTask ?ps = map nextTask (processers s)"
      using p(2) by (simp_all add: map_update proc_AddTask_def list_update_same_conv)
    from map_eq_bex [OF this(1), of "\<lambda>x. x"] map_eq_ball [OF this(2), of "\<lambda>x. x = None"] show ?thesis
      using ok by (simp add: sys_ok_defs)
  qed
  ultimately have "sys_ok (?s\<lparr>lastActive := of_nat p + 1, processers := ?ps\<rparr>)"
    using ok C(2) by (simp add: sys_ok_defs)
  moreover have "free_tasks w \<subseteq> free_tasks (s_world s)" "tasks (s_world s) tk = None \<or> tk \<in> free_tasks (s_world s)"
    using C(10) by (auto split: if_splits)
  ultimately show ?thesis using S C nu q [OF p(2)] create_task_runs [OF C(1,6)]
    by (intro exI [of _ tk] exI [of _ k]) (simp add: TaskCount_def)
qed

section \<open>Calls\<close>

text \<open>
  What happens to a runtime, one call at a time: schedulers are created or asked for, \<open>go\<close> statements run, \<open>Start\<close> is
  called, the dispatcher balances, a processer runs its queued tasks up to where each stops (\<open>slice_end\<close>) and a
  blocked task is woken.
\<close>

datatype 'f go_stmt = Go_Dash "'f callable" | Go_Call "'f callable" ptr | Go_Stack cint "'f callable" ptr

primrec go_exec :: "env \<Rightarrow> (addr \<times> nat) option \<Rightarrow> go_object \<Rightarrow> 'f go_stmt \<Rightarrow> 'f runtime \<Rightarrow> 'f runtime option" where
  "go_exec e current g (Go_Dash f) rt = go_dash e current f g rt"
| "go_exec e current g (Go_Call f p) rt = go_call e current f p g rt"
| "go_exec e current g (Go_Stack n f p) rt = go_call_stack e current n f p g rt"

datatype 'f api_call =
    A_Create
  | A_Instance
  | A_Go "(addr \<times> nat) option" "go_option list" "'f go_stmt"
  | A_Start addr cint cint cint
  | A_Balance addr
  | A_Turn addr nat "addr \<Rightarrow> slice_end"
  | A_Wake addr nat addr

definition turn_prog :: "(addr \<Rightarrow> slice_end) \<Rightarrow> addr \<Rightarrow> unit \<Rightarrow> 'f slice \<times> unit" where
  "turn_prog ends tk u = (([], ends tk), u)"

definition sched_turn :: "env \<Rightarrow> nat \<Rightarrow> (addr \<Rightarrow> slice_end) \<Rightarrow> 'f sched \<Rightarrow> 'f sched option" where
  "sched_turn e i ends s =
     (if i < length (processers s) then do {
        (_, _, p, w) \<leftarrow> process_turn e i (turn_prog ends) [] (\<lambda>n a x. (x, [])) 0 () (processers s ! i) (s_world s);
        Some (s\<lparr>processers := (processers s)[i := p], s_world := w\<rparr>) }
      else None)"

definition sched_wake :: "nat \<Rightarrow> addr \<Rightarrow> 'f sched \<Rightarrow> 'f sched option" where
  "sched_wake i tk s =
     (if i < length (processers s) then do {
        (p, w) \<leftarrow> WakeupBySelfIO tk (processers s ! i) (s_world s);
        Some (s\<lparr>processers := (processers s)[i := p], s_world := w\<rparr>) }
      else None)"

text \<open>A repeated \<open>Start\<close> throws and changes nothing.\<close>

definition start_or_throw :: "cint \<Rightarrow> cint \<Rightarrow> cint \<Rightarrow> 'f sched \<Rightarrow> 'f sched" where
  "start_or_throw hw mn mx s = (case sched_Start hw mn mx s of Inl _ \<Rightarrow> s | Inr s \<Rightarrow> s)"

primrec api_exec :: "env \<Rightarrow> 'f api_call \<Rightarrow> 'f runtime \<Rightarrow> 'f runtime option" where
  "api_exec e A_Create rt = Some (snd (Scheduler_Create (e_new e) rt))"
| "api_exec e A_Instance rt = Some (snd (getInstance rt))"
| "api_exec e (A_Go current opts g) rt = go_exec e current (fold go_with opts (go_new [] 0)) g rt"
| "api_exec e (A_Start a hw mn mx) rt = on_sched a (\<lambda>s. Some (start_or_throw hw mn mx s)) rt"
| "api_exec e (A_Balance a) rt = on_sched a (\<lambda>s. Some (AvgTotalTasks s)) rt"
| "api_exec e (A_Turn a i ends) rt = on_turn a (sched_turn e i ends) rt"
| "api_exec e (A_Wake a i tk) rt = on_sched a (sched_wake i tk) rt"

text \<open>
  When a call may be made: schedulers are named only while they exist, a processer runs a round when it has something
  to run and is not stopped, and only a task that is in use and not queued is woken.
\<close>

primrec api_valid :: "'f runtime \<Rightarrow> 'f api_call \<Rightarrow> bool" where
  "api_valid rt A_Create = True"
| "api_valid rt A_Instance = True"
| "api_valid rt (A_Go current opts g) \<longleftrightarrow> (\<forall>a\<in>set_option (GetCurrentScheduler current). schedulers rt a \<noteq> None)
     \<and> (\<forall>a. Opt_scheduler (Some a) \<in> set opts \<longrightarrow> schedulers rt a \<noteq> None)"
| "api_valid rt (A_Start a hw mn mx) \<longleftrightarrow> schedulers rt a \<noteq> None \<and> 0 < sint hw"
| "api_valid rt (A_Balance a) \<longleftrightarrow> schedulers rt a \<noteq> None"
| "api_valid rt (A_Turn a i ends) \<longleftrightarrow> (\<exists>s. schedulers rt a = Some s \<and> i < length (processers s)
     \<and> queued (processers s ! i) \<noteq> [] \<and> \<not> stopped (s_world s))"
| "api_valid rt (A_Wake a i tk) \<longleftrightarrow> (\<exists>s. schedulers rt a = Some s \<and> i < length (processers s)
     \<and> in_use tk (shared rt) \<and> (\<forall>b r. schedulers rt b = Some r \<longrightarrow> tk \<notin># all_queued (processers r)))"

inductive api_reach :: "env \<Rightarrow> 'f runtime \<Rightarrow> bool" for e :: env where
  init: "api_reach e runtime_new"
| call: "api_reach e rt \<Longrightarrow> api_valid rt x \<Longrightarrow> api_exec e x rt = Some rt' \<Longrightarrow> api_reach e rt'"

section \<open>Calls keep a runtime well formed\<close>

lemma view_ok:
  assumes "runtime_ok rt" "schedulers rt a = Some s"
  shows "sys_ok (view rt s)" "sys_ok (with_cache (cache rt) (view rt s))"
    "in_use x (shared rt) \<Longrightarrow> in_use x (s_world (view rt s))"
    "in_use x (s_world (with_cache (cache rt) (view rt s))) = in_use x (shared rt)"
proof -
  have R: "pool_ok (shared rt)" "procs_ok s" "\<forall>t\<in>#all_queued (processers s). in_use t (shared rt)"
    "a \<noteq> default_addr \<Longrightarrow> free_task_map (s_world s) = []"
    using assms by (auto simp: runtime_ok_def)
  have fin: "finite (dom (task_heap rt))" using R(1) by (simp add: pool_ok_def)
  have own: "free_task_map (s_world s) = cache rt \<or> free_task_map (s_world s) = []"
    using R(4) assms(2) by (cases "a = default_addr") (auto simp: cache_def)
  have use: "in_use y (s_world (view rt s))" if "in_use y (shared rt)" for y
    using that own by (auto simp: in_use_def free_tasks_def)
  then show "in_use x (shared rt) \<Longrightarrow> in_use x (s_world (view rt s))" .
  have full: "in_use y (s_world (with_cache (cache rt) (view rt s))) = in_use y (shared rt)" for y
    by (simp add: in_use_def free_tasks_def)
  then show "in_use x (s_world (with_cache (cache rt) (view rt s))) = in_use x (shared rt)" .
  have "pool_ok (s_world (view rt s))"
    using own R(1) fin by (auto intro: pool_ok_empty pool_ok_cong)
  then show "sys_ok (view rt s)" using R(2,3) use by (simp add: sys_ok_iff)
  have "pool_ok (s_world (with_cache (cache rt) (view rt s)))" by (rule pool_ok_cong [OF R(1)]) (simp_all add: fin)
  then show "sys_ok (with_cache (cache rt) (view rt s))" using R(2,3) full by (simp add: sys_ok_iff)
qed

text \<open>
  One scheduler takes a step to \<open>T\<close>, seen with the common tasks and the cache. The tasks in \<open>N\<close> are those it
  touches beside the ones it has queued.
\<close>

lemma runtime_ok_step:
  assumes ok: "runtime_ok rt" "schedulers rt a = Some s"
    and T: "sys_ok T" "set_mset (all_queued (processers T)) \<subseteq> N \<union> set_mset (all_queued (processers s))"
      "\<And>x. in_use x (shared rt) \<Longrightarrow> x \<notin># all_queued (processers s) \<Longrightarrow> x \<notin> N \<Longrightarrow> in_use x (s_world T)"
      "\<And>x b r. x \<in> N \<Longrightarrow> schedulers rt b = Some r \<Longrightarrow> x \<notin># all_queued (processers r)"
    and new: "task_heap rt' = tasks (s_world T)" "cache rt' = free_task_map (s_world T)" "exit_list rt' = exit_list rt"
      "schedulers rt' a = Some t" "processers t = processers T" "started t = started T"
      "a \<noteq> default_addr \<Longrightarrow> free_task_map (s_world t) = []"
    and others: "\<And>b. b \<noteq> a \<Longrightarrow> b \<noteq> default_addr \<Longrightarrow> schedulers rt' b = schedulers rt b"
      "\<And>r'. a \<noteq> default_addr \<Longrightarrow> schedulers rt' default_addr = Some r' \<Longrightarrow>
         (\<exists>r. schedulers rt default_addr = Some r \<and> processers r' = processers r \<and> started r' = started r)
         \<or> (processers r' = [proc_new 0] \<and> \<not> started r')"
  shows "runtime_ok rt'"
proof -
  have R: "finite (dom (schedulers rt))" "distinct (exit_list rt)" "set (exit_list rt) = dom (schedulers rt) - {default_addr}"
    and each: "\<And>b r. schedulers rt b = Some r \<Longrightarrow> procs_ok r \<and> (\<forall>t\<in>#all_queued (processers r). in_use t (shared rt))
      \<and> (b \<noteq> default_addr \<longrightarrow> free_task_map (s_world r) = [])"
    and dis: "\<And>b c r q x. schedulers rt b = Some r \<Longrightarrow> schedulers rt c = Some q \<Longrightarrow> b \<noteq> c \<Longrightarrow>
      x \<in># all_queued (processers r) \<Longrightarrow> x \<notin># all_queued (processers q)"
    using ok(1) by (auto simp: runtime_ok_def)
  have sh: "in_use x (shared rt') = in_use x (s_world T)" for x by (rule in_use_cong) (simp_all add: new(1,2))
  have pT: "pool_ok (s_world T)" using T(1) unfolding sys_ok_iff by blast
  then have fin: "finite (dom (tasks (s_world T)))" unfolding pool_ok_def by blast
  have pool: "pool_ok (shared rt')" by (rule pool_ok_cong [OF pT]) (simp_all add: new(1,2) fin)
  have old: "\<exists>r. (schedulers rt b = Some r \<or> all_queued (processers r) = {#} \<and> procs_ok r \<and> b = default_addr)
      \<and> processers r' = processers r \<and> started r' = started r \<and> (b \<noteq> default_addr \<longrightarrow> free_task_map (s_world r') = [])"
    if b: "schedulers rt' b = Some r'" "b \<noteq> a" for b r'
  proof (cases "b = default_addr")
    case True
    then consider r where "schedulers rt b = Some r" "processers r' = processers r" "started r' = started r"
      | "processers r' = [proc_new 0]" "\<not> started r'" using others(2) [of r'] b unfolding True by blast
    then show ?thesis
    proof cases
      case 2
      then have "all_queued (processers r') = {#}" "procs_ok r'" by (simp_all add: procs_ok_def proc_new_def queued_def)
      then show ?thesis using True by blast
    qed (use True in blast)
  next
    case False
    then show ?thesis using others(1) [of b] each [of b r'] b by (intro exI [of _ r']) auto
  qed
  have p: "procs_ok r' = procs_ok r" if "processers r' = processers r" "started r' = started r" for r r' :: "'a sched"
    using that by (simp add: procs_ok_def)
  have E: "procs_ok r' \<and> (\<forall>t\<in>#all_queued (processers r'). in_use t (shared rt'))
      \<and> (b \<noteq> default_addr \<longrightarrow> free_task_map (s_world r') = [])" if b: "schedulers rt' b = Some r'" for b r'
  proof (cases "b = a")
    case True
    then have "r' = t" using b new(4) by simp
    then show ?thesis using T(1) new(7) True p [OF new(5,6)] by (simp add: sh sys_ok_iff new(5))
  next
    case False
    from old [OF b False] obtain r where r: "schedulers rt b = Some r \<or> all_queued (processers r) = {#} \<and> procs_ok r \<and> b = default_addr"
      "processers r' = processers r" "started r' = started r" "b \<noteq> default_addr \<longrightarrow> free_task_map (s_world r') = []" by blast
    have "in_use x (shared rt')" if x: "x \<in># all_queued (processers r)" for x
    proof -
      have rb: "schedulers rt b = Some r" using r(1) x by auto
      show ?thesis unfolding sh using T(3) [of x] T(4) [OF _ rb, of x] each [OF rb] dis [OF rb ok(2) False x] x by blast
    qed
    then show ?thesis using r each [of b r] p [OF r(2,3)] by auto
  qed
  have D: "x \<notin># all_queued (processers q')"
    if bc: "schedulers rt' b = Some r'" "schedulers rt' c = Some q'" "b \<noteq> c" "x \<in># all_queued (processers r')" "c \<noteq> a" for b c r' q' x
  proof -
    obtain q where q: "schedulers rt c = Some q \<or> all_queued (processers q) = {#}" "processers q' = processers q"
      using old [OF bc(2,5)] by blast
    show ?thesis
    proof (cases "b = a")
      case True
      then have "x \<in> N \<or> x \<in># all_queued (processers s)" using bc(1,4) new(4,5) T(2) by auto
      then show ?thesis using q T(4) [of x c q] dis [OF ok(2), of c q x] bc(3) True by auto
    next
      case False
      obtain r where "schedulers rt b = Some r \<or> all_queued (processers r) = {#}" "processers r' = processers r"
        using old [OF bc(1) False] by blast
      then show ?thesis using q dis [of b r c q x] bc(3,4) by auto
    qed
  qed
  have "dom (schedulers rt') \<subseteq> insert a (insert default_addr (dom (schedulers rt)))"
    using others(1) by (auto simp: domIff)
  then have "finite (dom (schedulers rt'))" using R(1) by (meson finite.insertI finite_subset)
  moreover have "dom (schedulers rt') - {default_addr} = dom (schedulers rt) - {default_addr}"
  proof (rule set_eqI)
    fix b
    show "b \<in> dom (schedulers rt') - {default_addr} \<longleftrightarrow> b \<in> dom (schedulers rt) - {default_addr}"
      using others(1) [of b] new(4) ok(2) by (cases "b = a"; cases "b = default_addr") (simp_all add: domIff)
  qed
  ultimately show ?thesis
    unfolding runtime_ok_def using R(2,3) pool E D new(3) by (metis (no_types, lifting))
qed

lemma on_sched_ok:
  assumes ok: "runtime_ok rt" "schedulers rt a = Some s" and f: "f (view rt s) = Some t" "sys_ok t"
    and q: "set_mset (all_queued (processers t)) \<subseteq> N \<union> set_mset (all_queued (processers s))"
      "\<And>x. x \<notin> N \<Longrightarrow> tasks (s_world t) x = task_heap rt x" "free_tasks (s_world t) \<subseteq> free_tasks (s_world s)"
      "\<And>x b r. x \<in> N \<Longrightarrow> schedulers rt b = Some r \<Longrightarrow> x \<notin># all_queued (processers r)"
      "\<And>x. x \<in> N \<Longrightarrow> a \<noteq> default_addr \<Longrightarrow> x \<notin> free_tasks (shared rt)"
  shows "on_sched a f rt = Some (store a t rt) \<and> runtime_ok (store a t rt)"
proof -
  have pool: "pool_ok (shared rt)" "a \<noteq> default_addr \<Longrightarrow> free_task_map (s_world s) = []"
    using ok by (auto simp: runtime_ok_def)
  have "free_task_map (s_world s) = [] \<Longrightarrow> free_task_map (s_world t) = []" using q(3) by (simp add: free_tasks_def)
  then have own: "a \<noteq> default_addr \<Longrightarrow> free_task_map (s_world t) = []" using pool(2) by blast
  define T where "T = with_cache (cache (store a t rt)) t"
  have cs: "cache (store a t rt) = (if a = default_addr then free_task_map (s_world t) else cache rt)"
    by (simp add: cache_def store_def)
  have c: "a = default_addr \<Longrightarrow> cache rt = free_task_map (s_world s)" using ok(2) by (simp add: cache_def)
  have fT: "free_task_map (s_world T) = (if a = default_addr then free_task_map (s_world t) else cache rt)"
    and tT: "tasks (s_world T) = tasks (s_world t)" by (simp_all only: T_def with_cache_simps cs)
  have sys: "sys_ok T"
  proof (cases "a = default_addr")
    case True
    with cs have "T = t" by (simp add: T_def with_cache_same)
    then show ?thesis using f(2) by simp
  next
    case False
    have "finite (dom (tasks (s_world t)))" using f(2) by (simp add: sys_ok_defs pool_ok_def)
    moreover have "tasks (s_world t) x = task_heap rt x" if "x \<in> free_tasks (shared rt)" for x using that q(2,5) False by blast
    ultimately have "pool_ok (s_world T)" using False by (intro pool_ok_cong [OF pool(1)]) (simp_all add: T_def cs)
    moreover have "in_use x (s_world T)" if x: "x \<in># all_queued (processers t)" for x
    proof -
      have "x \<notin> free_tasks (shared rt)"
        using x q(1,5) False ok by (auto simp: runtime_ok_def in_use_def)
      moreover have "in_use x (s_world t)" using x f(2) by (simp add: sys_ok_iff)
      ultimately show ?thesis using False by (simp add: in_use_def T_def cs free_tasks_def)
    qed
    ultimately show ?thesis using f(2) by (simp add: sys_ok_iff T_def)
  qed
  have "runtime_ok (store a t rt)"
  proof (rule runtime_ok_step [OF ok sys, of N])
    fix x
    assume "in_use x (shared rt)" "x \<notin> N"
    then show "in_use x (s_world T)" using q(2) [of x] subsetD [OF q(3), of x] c
      by (cases "a = default_addr") (simp_all add: in_use_def fT tT free_tasks_def, blast)
  qed (use q(1,4) own in \<open>auto simp: T_def store_def\<close>)
  then show ?thesis using ok(2) f(1) by (simp add: on_sched_def)
qed

lemma on_turn_ok:
  assumes ok: "runtime_ok rt" "schedulers rt a = Some s" and f: "f (with_cache (cache rt) (view rt s)) = Some t" "sys_ok t"
    and q: "set_mset (all_queued (processers t)) \<subseteq> set_mset (all_queued (processers s))"
      "\<And>x. in_use x (shared rt) \<Longrightarrow> x \<notin># all_queued (processers s) \<Longrightarrow> in_use x (s_world t)"
  shows "\<exists>rt'. on_turn a f rt = Some rt' \<and> runtime_ok rt' \<and> cache rt' = free_task_map (s_world t)"
proof -
  let ?c = "free_task_map (s_world t)" and ?rt = "store a (with_cache (free_task_map (s_world s)) t) rt"
  have own: "a \<noteq> default_addr \<Longrightarrow> free_task_map (s_world s) = []" using ok by (auto simp: runtime_ok_def)
  define rt' where "rt' = (if ?c = cache rt then ?rt else set_cache ?c ?rt)"
  have cs: "cache rt' = ?c"
  proof (cases "?c = cache rt")
    case True
    then show ?thesis using ok(2) by (auto simp: rt'_def cache_def store_def)
  next
    case False
    then show ?thesis by (auto simp: rt'_def cache_def set_cache_def getInstance_def Let_def)
  qed
  define d where "d = (if ?c \<noteq> cache rt \<and> a = default_addr then with_cache ?c (with_cache (free_task_map (s_world s)) t)
    else with_cache (free_task_map (s_world s)) t)"
  have "runtime_ok rt'"
  proof (rule runtime_ok_step [OF ok f(2), of "{}" rt' d])
    show "schedulers rt' a = Some d"
      by (auto simp: rt'_def d_def set_cache_def getInstance_def store_def Let_def)
    fix r'
    assume "a \<noteq> default_addr" "schedulers rt' default_addr = Some r'"
    then show "(\<exists>r. schedulers rt default_addr = Some r \<and> processers r' = processers r \<and> started r' = started r)
        \<or> (processers r' = [proc_new 0] \<and> \<not> started r')"
      by (auto simp: rt'_def set_cache_def getInstance_def store_def Let_def sched_new_def split: if_splits)
  qed (use q own cs in \<open>auto simp: rt'_def d_def set_cache_def getInstance_def store_def Let_def\<close>)
  then show ?thesis using ok(2) f(1) cs by (auto simp: on_turn_def Let_def rt'_def)
qed

lemma getInstance_ok: "runtime_ok rt \<Longrightarrow> runtime_ok (snd (getInstance rt)) \<and> schedulers (snd (getInstance rt)) default_addr \<noteq> None"
proof (cases "schedulers rt default_addr")
  case None
  assume ok: "runtime_ok rt"
  let ?rt = "snd (getInstance rt)"
  have "cache ?rt = cache rt" using None by (simp add: getInstance_def cache_def sched_new_def world_new_def)
  then have "shared ?rt = shared rt" using None by (simp add: getInstance_def shared_def)
  moreover have "schedulers ?rt = (schedulers rt)(default_addr \<mapsto> sched_new (id_factory rt))" "exit_list ?rt = exit_list rt"
    using None by (simp_all add: getInstance_def)
  ultimately show ?thesis using ok unfolding runtime_ok_def by (auto simp: sched_new_ok)
qed (simp add: getInstance_def)

lemma Create_ok:
  assumes "runtime_ok rt" "env_ok e"
  shows "runtime_ok (snd (Scheduler_Create (e_new e) rt))"
proof -
  define a where "a = e_new e (insert default_addr (dom (schedulers rt)))"
  have "finite (insert default_addr (dom (schedulers rt)))" using assms(1) by (simp add: runtime_ok_def)
  then have a: "a \<notin> insert default_addr (dom (schedulers rt))" using assms(2) unfolding a_def env_ok_def by blast
  let ?rt = "snd (Scheduler_Create (e_new e) rt)"
  have e: "schedulers ?rt = (schedulers rt)(a \<mapsto> sched_new (id_factory rt))" "exit_list ?rt = exit_list rt @ [a]"
    by (simp_all add: Scheduler_Create_def Let_def flip: a_def)
  have "shared ?rt = shared rt" using a by (auto simp: Scheduler_Create_def shared_def cache_def Let_def simp flip: a_def)
  then show ?thesis using assms(1) a unfolding runtime_ok_def e by (auto simp: sched_new_ok)
qed

lemma AvgTotalTasks_ok:
  "sys_ok s \<Longrightarrow> sys_ok (AvgTotalTasks s) \<and> s_world (AvgTotalTasks s) = s_world s
    \<and> all_queued (processers (AvgTotalTasks s)) = all_queued (processers s)"
  unfolding AvgTotalTasks_def
  using avg_procs_conserves [of "processers s"] avg_procs_same [of "processers s"] by (auto intro!: sys_ok_queued)

lemma new_threads_eq:
  "new_threads n s = s\<lparr>processers := processers s @ map (\<lambda>i. proc_new (int i)) [length (processers s)..<length (processers s) + n]\<rparr>"
proof (induction n arbitrary: s)
  case (Suc n)
  show ?case by (simp add: Suc NewProcessThread_def upt_rec [of "length (processers s)"])
qed simp

lemma start_ok:
  assumes "sys_ok s" "0 < sint hw"
  shows "sys_ok (start_or_throw hw mn mx s) \<and> s_world (start_or_throw hw mn mx s) = s_world s
    \<and> all_queued (processers (start_or_throw hw mn mx s)) = all_queued (processers s)"
proof (cases "started s")
  case True
  then show ?thesis using assms(1) by (simp add: start_or_throw_def sched_Start_def)
next
  case False
  define m where "m = (if sint mn < 1 then hw else mn)"
  define mx' where "mx' = snd (thread_counts hw mn mx)"
  define n where "n = nat (sint m - 1)"
  have tc: "thread_counts hw mn mx = (m, mx')" by (simp add: mx'_def thread_counts_def m_def Let_def)
  let ?s = "s\<lparr>started := True, minThreadNumber := m, maxThreadNumber := mx'\<rparr>"
  have len: "length (processers s) = 1" using assms(1) False by (simp add: sys_ok_defs)
  have "sint m < 2 ^ 31" using sint_lt [of m] by simp
  then have n: "1 + n < 2 ^ 31" by (simp add: n_def)
  have new: "queued (proc_new j) = []" "nextTask (proc_new j) = None" for j by (simp_all add: queued_def proc_new_def)
  have q: "concat (map (\<lambda>x. []) xs) = []" for xs by simp
  have "sys_ok (new_threads n ?s)"
    using assms(1) n len unfolding sys_ok_defs new_threads_eq by (auto simp: q o_def new simp del: upt_Suc)
  note A = AvgTotalTasks_ok [OF this]
  have "all_queued (processers (new_threads n ?s)) = all_queued (processers s)"
    by (simp add: new_threads_eq mset_concat_queued [symmetric] o_def new q)
  moreover have "s_world (new_threads n ?s) = s_world s" by (simp add: new_threads_eq)
  moreover have "sys_ok (r\<lparr>dispatcher := b\<rparr>) = sys_ok r" for r :: "'a sched" and b by (simp add: sys_ok_defs)
  ultimately show ?thesis
    using False A by (simp add: start_or_throw_def sched_Start_def tc Let_def n_def [symmetric])
qed

lemma distinct_concat_update:
  assumes "distinct (concat xss)" "i < length xss" "distinct ys" "set ys \<inter> set (concat (xss[i := []])) = {}"
  shows "distinct (concat (xss[i := ys]))"
proof -
  have x: "xss = take i xss @ xss ! i # drop (Suc i) xss" using assms(2) by (rule id_take_nth_drop)
  have u: "xss[i := zs] = take i xss @ zs # drop (Suc i) xss" for zs using assms(2) by (rule upd_conv_take_nth_drop)
  have "distinct (concat (take i xss @ xss ! i # drop (Suc i) xss))" using assms(1) x by simp
  then show ?thesis using assms(3,4) unfolding u by auto
qed

lemma others_not_queued:
  assumes "distinct (concat xss)" "i < length xss" "t \<in> set (concat (xss[i := []]))"
  shows "t \<in> set (concat xss) \<and> t \<notin> set (xss ! i)"
proof -
  have x: "xss = take i xss @ xss ! i # drop (Suc i) xss" using assms(2) by (rule id_take_nth_drop)
  have u: "xss[i := []] = take i xss @ [] # drop (Suc i) xss" using assms(2) by (rule upd_conv_take_nth_drop)
  have d: "distinct (concat (take i xss) @ xss ! i @ concat (drop (Suc i) xss))"
    using assms(1) x by (metis concat.simps(2) concat_append)
  have "set (concat xss) = set (concat (take i xss)) \<union> set (xss ! i) \<union> set (concat (drop (Suc i) xss))"
    by (subst x) auto
  moreover have "t \<in> set (concat (take i xss)) \<union> set (concat (drop (Suc i) xss))" using assms(3) unfolding u by simp
  ultimately show ?thesis using d by auto
qed

text \<open>One processer and the world change; the queues of the others stay as they are.\<close>

lemma sys_ok_update:
  assumes ok: "sys_ok s" "i < length (processers s)"
    and p: "sched_ok p w" "p_active p = p_active (processers s ! i)" "nextTask p = None"
    and q: "set (queued p) \<subseteq> insert tk (set (queued (processers s ! i)))" "tk \<notin># all_queued (processers s)"
    and w: "keeps_others (insert tk (set (queued (processers s ! i)))) (s_world s) w"
  shows "sys_ok (s\<lparr>processers := (processers s)[i := p], s_world := w\<rparr>)"
proof -
  let ?xss = "map queued (processers s)"
  have tk: "tk \<notin> set (concat ?xss)" using q(2) by (metis mset_concat_queued set_mset_mset)
  have d: "distinct (concat ?xss)" and use: "\<forall>t\<in>set (concat ?xss). in_use t (s_world s)" using ok(1) by (simp_all add: sys_ok_defs)
  have out: "t \<in> set (concat ?xss) \<and> t \<notin> insert tk (set (queued (processers s ! i)))" if "t \<in> set (concat (?xss[i := []]))" for t
    using others_not_queued [OF d _ that] ok(2) tk by auto
  have dq: "distinct (queued p)" using p(1) by (simp add: sched_ok_def queued_def)
  have "distinct (concat (?xss[i := queued p]))"
    by (rule distinct_concat_update [OF d _ dq]) (use ok(2) out q(1) in auto)
  moreover have "in_use t w" if "t \<in> set (concat (?xss[i := queued p]))" for t
  proof (cases "t \<in> set (queued p)")
    case True
    then show ?thesis using p(1) by (simp add: sched_ok_def queued_def)
  next
    case False
    have "t \<in> set (concat (?xss[i := []]))"
      using that False ok(2) by (auto simp: upd_conv_take_nth_drop)
    then show ?thesis using out use keeps_othersD [OF w] by blast
  qed
  moreover have "map queued ((processers s)[i := p]) = ?xss[i := queued p]" by (simp add: map_update)
  moreover have "map p_active ((processers s)[i := p]) = map p_active (processers s)"
    using ok(2) p(2) by (simp add: map_update list_update_same_conv)
  from map_eq_bex [OF this, of "\<lambda>x. x"] have "(\<exists>x\<in>set ((processers s)[i := p]). p_active x)" using ok(1) by (simp add: sys_ok_defs)
  moreover have "\<forall>x\<in>set ((processers s)[i := p]). nextTask x = None"
    using ok(1) p(3) set_update_subset_insert [of "processers s" i p] by (auto simp: sys_ok_defs)
  ultimately show ?thesis using ok(1) p(1) by (simp add: sys_ok_defs sched_ok_def)
qed

lemma process_round_tag:
  "process_round e i prog u p w = Some r \<Longrightarrow> tag (fst (snd (snd r))) (snd (snd (snd r))) = tag p w"
proof (induction rule: process_round.raw_induct [rotated, consumes 1])
  case (1 rec e i prog u p w r)
  show ?case
  proof (cases "runningTask p = None \<or> stopped w")
    case True
    then show ?thesis using 1(2) by (auto split: option.splits if_splits)
  next
    case False
    then obtain tk p1 w1 v where "process_step e i (fst (prog tk u)) tk p w = Some (p1, w1)"
      "rec e i prog (snd (prog tk u)) p1 w1 = Some v" "snd r = snd v"
      using 1(2) by (auto split: option.splits Option.bind_splits)
    then show ?thesis using 1(1) process_step_tag by metis
  qed
qed

lemma distinct_concat_inner: "distinct (concat (map f xs)) \<Longrightarrow> x \<in> set xs \<Longrightarrow> distinct (f x)"
  by (induction xs) auto

lemma concat_map_mem: "x \<in> set xs \<Longrightarrow> t \<in> set (f x) \<Longrightarrow> t \<in> set (concat (map f xs))"
  by auto

lemma all_queued_memI: "p \<in> set ps \<Longrightarrow> t \<in> set (queued p) \<Longrightarrow> t \<in># all_queued ps"
  by (metis concat_map_mem set_concat_queued)

lemma all_queued_update:
  assumes "i < length ps" "set (queued p) \<subseteq> A \<union> set (queued (ps ! i))"
  shows "set_mset (all_queued (ps[i := p])) \<subseteq> A \<union> set_mset (all_queued ps)"
proof
  fix t
  assume "t \<in># all_queued (ps[i := p])"
  then obtain q where "q \<in> set (ps[i := p])" "t \<in> set (queued q)" by (auto simp flip: set_concat_queued)
  then show "t \<in> A \<union> set_mset (all_queued ps)"
    using assms set_update_subset_insert [of ps i p] all_queued_memI [of q ps t] all_queued_memI [of "ps ! i" ps t] by auto
qed

definition to_run :: "proc \<Rightarrow> addr list" where
  "to_run p = (if runnableQueue p = [] then newQueue p else runnableQueue p)"

lemma slices_turn:
  "list_all2 P (slices (turn_prog ends) () ts) ts \<Longrightarrow> x \<in> set ts \<Longrightarrow> P ([], ends x) x"
  by (induction ts) (auto simp: turn_prog_def)

lemma turn_ok:
  fixes s :: "'f sched"
  assumes ok: "sys_ok s" "env_ok e" and i: "i < length (processers s)"
    and run: "queued (processers s ! i) \<noteq> []" "\<not> stopped (s_world s)"
  shows "\<exists>t. sched_turn e i ends s = Some t \<and> sys_ok t
    \<and> set_mset (all_queued (processers t)) \<subseteq> set_mset (all_queued (processers s))
    \<and> keeps_others (set_mset (all_queued (processers s))) (s_world s) (s_world t)
    \<and> (\<forall>x\<in>set (to_run (processers s ! i)). ends x = Returns \<longrightarrow> x \<in> free_tasks (s_world t))"
proof -
  let ?p = "processers s ! i" and ?w = "s_world s" and ?prog = "turn_prog ends :: addr \<Rightarrow> unit \<Rightarrow> 'f slice \<times> unit"
  define p1 where "p1 = (if runnableQueue ?p = [] then snd (AddNewTasks ?p) else ?p)"
  define p0 where "p0 = p1\<lparr>runningTask := elem_front (runnableQueue p1)\<rparr>"
  have mem: "?p \<in> set (processers s)" using i by simp
  have p1: "queued p1 = queued ?p" "p_active p1 = p_active ?p" "nextTask p1 = nextTask ?p" "runnableQueue p1 \<noteq> []"
    using run(1) by (auto simp: p1_def AddNewTasks_def queued_def)
  have "distinct (queued ?p)" "\<forall>t\<in>set (queued ?p). in_use t ?w"
    using ok(1) mem by (auto simp: sys_ok_defs dest: distinct_concat_inner)
  then have so: "sched_ok p0 ?w" using ok(1) p1(1) by (simp add: sched_ok_def p0_def sys_ok_defs queued_def)
  have new: "\<forall>sl\<in>set (slices ?prog () (runnableQueue p1)). only_new (fst sl) \<and> fst sl = []"
  proof -
    have "\<forall>sl\<in>set (slices ?prog () ts). fst sl = []" for ts by (induction ts) (simp_all add: turn_prog_def)
    from this [of "runnableQueue p1"] show ?thesis unfolding only_new_def by fastforce
  qed
  then have on: "\<forall>sl\<in>set (slices ?prog () (runnableQueue p1)). only_new (fst sl)" by blast
  have p0: "runnableQueue p0 = [] @ runnableQueue p1" "runningTask p0 = elem_front (runnableQueue p1)" "nextTask p0 = None"
    using ok(1) mem p1(3) by (simp_all add: p0_def sys_ok_defs)
  obtain nw u p' w' where R: "process_round e i ?prog () p0 ?w = Some (runnableQueue p1, u, p', w')"
    "sched_ok p' w'" "keeps_others (set (runnableQueue p1)) ?w w'"
    "length nw = sum_list (map (\<lambda>sl. length (fst sl)) (slices ?prog () (runnableQueue p1)))"
    "newQueue p' = newQueue p0 @ nw" "nextTask p' = None"
    "runnableQueue p' = [] @ map snd (filter (\<lambda>(sl, t). keeps (snd sl)) (zip (slices ?prog () (runnableQueue p1)) (runnableQueue p1)))"
    "list_all2 (\<lambda>sl t. parked sl t nw w') (slices ?prog () (runnableQueue p1)) (runnableQueue p1)"
    using process_round_ok [OF so ok(2) run(2) on p0, where self = i] by blast
  have "sum_list (map (\<lambda>sl. length (fst sl)) (slices ?prog () (runnableQueue p1))) = 0"
    using new by (simp add: sum_list_eq_0_iff)
  then have nw: "nw = []" using R(4) by (metis length_0_conv)
  have "to_run ?p = runnableQueue p1" by (simp add: to_run_def p1_def AddNewTasks_def)
  moreover have "x \<in> free_tasks w'" if "x \<in> set (runnableQueue p1)" "ends x = Returns" for x
    using slices_turn [OF R(8) that(1)] that(2) nw by (simp add: parked_def)
  ultimately have ret: "\<forall>x\<in>set (to_run ?p). ends x = Returns \<longrightarrow> x \<in> free_tasks w'" by simp
  have nq: "newQueue p' = newQueue p1" using nw R(5) by (simp add: p0_def)
  define p'' where "p'' = snd (AddNewTasks p')"
  have st: "\<not> stopped w'" using R(3) run(2) by (simp add: keeps_others_def)
  have "process_turn e i ?prog [] (\<lambda>n a x. (x, [])) 0 () ?p ?w = Some (runnableQueue p1, u, p'', w')"
  proof (cases "runnableQueue ?p")
    case Nil
    then have "newQueue ?p \<noteq> []" using run(1) by (simp add: queued_def)
    then have "p0 = ?p\<lparr>runnableQueue := newQueue ?p, newQueue := [], runningTask := elem_front (newQueue ?p)\<rparr>"
      "elem_front (newQueue ?p) \<noteq> None"
      using Nil by (auto simp: p0_def p1_def AddNewTasks_def elem_front_def split: list.splits)
    then show ?thesis
      using R(1) st Nil \<open>newQueue ?p \<noteq> []\<close> by (auto simp: process_turn_def AddNewTasks_def p''_def Let_def elem_front_def)
  next
    case (Cons t ts)
    then show ?thesis using R(1) st by (simp add: process_turn_def p0_def p1_def p''_def Let_def elem_front_def)
  qed
  then have S: "sched_turn e i ends s = Some (s\<lparr>processers := (processers s)[i := p''], s_world := w'\<rparr>)"
    using i by (simp add: sched_turn_def)
  have act: "p_active p' = p_active ?p" using process_round_tag [OF R(1)] p1(2) by (simp add: tag_iff p0_def)
  have p'': "sched_ok p'' w'" "p_active p'' = p_active ?p" "nextTask p'' = None" "queued p'' = queued p'"
    using R(2,6) act by (auto simp: p''_def AddNewTasks_def sched_ok_def queued_def)
  obtain tk where tk: "tk \<notin># all_queued (processers s)"
    using infinite_UNIV_nat finite_set_mset by (metis ex_new_if_finite)
  have sub: "set (queued p'') \<subseteq> set (queued ?p)"
    unfolding p''(4) p1(1) [symmetric] using R(7) nq by (auto simp: queued_def dest: set_zip_rightD)
  have rq: "set (runnableQueue p1) \<subseteq> set (queued ?p)" unfolding p1(1) [symmetric] by (simp add: queued_def)
  then have k: "keeps_others (insert tk (set (queued ?p))) ?w w'"
    by (intro keeps_others_trans [OF R(3) keeps_others_refl [of "{}"]]) auto
  have "keeps_others (set_mset (all_queued (processers s))) ?w w'"
    by (rule keeps_others_trans [OF R(3) keeps_others_refl [of "{}"]]) (use rq mem all_queued_memI in auto)
  then show ?thesis using S sys_ok_update [OF ok(1) i p''(1-3) _ tk k] sub ret all_queued_update [OF i, of p'' "{}"] by auto
qed

lemma wake_ok:
  assumes ok: "sys_ok s" and i: "i < length (processers s)" and tk: "in_use tk (s_world s)" "tk \<notin># all_queued (processers s)"
  shows "\<exists>t. sched_wake i tk s = Some t \<and> sys_ok t
    \<and> set_mset (all_queued (processers t)) \<subseteq> {tk} \<union> set_mset (all_queued (processers s))
    \<and> (\<forall>x. x \<noteq> tk \<longrightarrow> tasks (s_world t) x = tasks (s_world s) x) \<and> free_task_map (s_world t) = free_task_map (s_world s)"
proof -
  let ?p = "processers s ! i" and ?w = "s_world s"
  have mem: "?p \<in> set (processers s)" using i by simp
  have "distinct (queued ?p)" "\<forall>t\<in>set (queued ?p). in_use t ?w"
    using ok mem by (auto simp: sys_ok_defs dest: distinct_concat_inner)
  then have so: "sched_ok ?p ?w" using ok by (simp add: sched_ok_def sys_ok_defs queued_def)
  obtain w' where w: "upd_task tk (\<lambda>k. k\<lparr>t_state := Runnable\<rparr>) ?w = Some w'" "sched_ok ?p w'" "in_use tk w'"
    "keeps_others {tk} ?w w'"
    using sched_ok_upd_task [OF so tk(1), of "\<lambda>k. k\<lparr>t_state := Runnable\<rparr>"] by blast
  let ?q = "?p\<lparr>runnableQueue := runnableQueue ?p @ [tk]\<rparr>"
  have S: "sched_wake i tk s = Some (s\<lparr>processers := (processers s)[i := ?q], s_world := w'\<rparr>)"
    using i w(1) by (simp add: sched_wake_def WakeupBySelfIO_def)
  have "tk \<notin> set (queued ?p)" using tk(2) mem by (metis concat_map_mem mset_concat_queued set_mset_mset)
  then have "sched_ok ?q w'" using w(2,3) by (auto simp: sched_ok_def queued_def)
  moreover have "keeps_others (insert tk (set (queued ?p))) ?w w'"
    by (rule keeps_others_trans [OF w(4) keeps_others_refl [of "{}"]]) auto
  moreover have "nextTask ?q = None" using ok mem by (simp add: sys_ok_defs)
  moreover have "\<forall>x. x \<noteq> tk \<longrightarrow> tasks w' x = tasks ?w x" "free_task_map w' = free_task_map ?w"
    using w(1) by (auto simp: upd_task_def)
  moreover have "set (queued ?q) \<subseteq> {tk} \<union> set (queued ?p)" by (auto simp: queued_def)
  ultimately show ?thesis using S sys_ok_update [OF ok i, of ?q w' tk] tk(2) all_queued_update [OF i, of ?q "{tk}"] by auto
qed

section \<open>The \<open>go\<close> statement creates a task\<close>

definition go_valid :: "(addr \<times> nat) option \<Rightarrow> go_object \<Rightarrow> 'f runtime \<Rightarrow> bool" where
  "go_valid current g rt \<longleftrightarrow> (\<forall>a\<in>set_option (GetCurrentScheduler current). schedulers rt a \<noteq> None)
     \<and> (\<forall>a. go_scheduler g = Some a \<longrightarrow> schedulers rt a \<noteq> None)"

lemma go_target_ok:
  assumes "runtime_ok rt" "go_valid current g rt"
  shows "runtime_ok (snd (go_target current g rt)) \<and> schedulers (snd (go_target current g rt)) (fst (go_target current g rt)) \<noteq> None"
  using assms getInstance_ok [OF assms(1)]
  by (auto simp: go_target_def go_valid_def getInstance_def split: option.splits)

lemma go_create_ok:
  assumes "runtime_ok rt" "env_ok e" "go_valid current g rt" "go_target current g rt = (a, rt1)"
  shows "\<exists>s s' tk k rt'. schedulers rt1 a = Some s \<and> go_create e current f g rt = Some rt' \<and> runtime_ok rt'
    \<and> schedulers rt' = (schedulers rt1)(a \<mapsto> s')
    \<and> (task_heap rt1 tk = None \<or> a = default_addr \<and> tk \<in> free_tasks (shared rt1)) \<and> \<not> in_use tk (shared rt1)
    \<and> all_queued (processers s') = add_mset tk (all_queued (processers s)) \<and> TaskCount s' = TaskCount s + 1
    \<and> task_heap rt' = (task_heap rt1)(tk \<mapsto> k) \<and> t_state k = Runnable \<and> runs k (CreateTask_arg f (go_opt g))
    \<and> sint (want_size e (opt_stack_size (go_opt g))) \<le> sint (t_stack_size k)"
proof -
  have T: "runtime_ok rt1" "schedulers rt1 a \<noteq> None" using go_target_ok [OF assms(1,3)] assms(4) by simp_all
  then obtain s where s: "schedulers rt1 a = Some s" by blast
  let ?s = "view rt1 s"
  obtain tk k s' where
    C: "sched_CreateTask e (CreateTask_arg f (go_opt g)) (opt_stack_size (go_opt g)) ?s = Some s'" "sys_ok s'"
    "\<not> in_use tk (s_world ?s)" "all_queued (processers s') = add_mset tk (all_queued (processers s))" "TaskCount s' = TaskCount ?s + 1"
    "tasks (s_world s') tk = Some k" "t_state k = Runnable" "runs k (CreateTask_arg f (go_opt g))"
    "sint (want_size e (opt_stack_size (go_opt g))) \<le> sint (t_stack_size k)"
    "\<forall>t. t \<noteq> tk \<longrightarrow> tasks (s_world s') t = task_heap rt1 t" "free_tasks (s_world s') \<subseteq> free_tasks (s_world ?s)"
    "task_heap rt1 tk = None \<or> tk \<in> free_tasks (s_world ?s)"
    using sched_CreateTask_ok [OF view_ok(1) [OF T(1) s] assms(2), of "CreateTask_arg f (go_opt g)" "opt_stack_size (go_opt g)"]
    unfolding view_simps by blast
  have fr: "free_tasks (s_world ?s) = free_tasks (s_world s)" by (simp add: free_tasks_def)
  have own: "a \<noteq> default_addr \<Longrightarrow> free_tasks (s_world s) = {}" "a = default_addr \<Longrightarrow> free_tasks (s_world s) = free_tasks (shared rt1)"
    using T(1) s by (auto simp: runtime_ok_def free_tasks_def cache_def)
  have fresh: "task_heap rt1 tk = None \<or> a = default_addr \<and> tk \<in> free_tasks (shared rt1)" using C(12) own fr by blast
  have pool: "pool_ok (shared rt1)" using T(1) by (simp add: runtime_ok_def)
  have nc: "tk \<notin> free_tasks (shared rt1)" if "a \<noteq> default_addr"
    using fresh that pool by (auto simp: pool_ok_def free_tasks_def)
  have nu: "\<not> in_use tk (shared rt1)" using C(3) view_ok(3) [OF T(1) s] by blast
  let ?rt = "store a s' rt1"
  have H: "on_sched a (sched_CreateTask e (CreateTask_arg f (go_opt g)) (opt_stack_size (go_opt g))) rt1 = Some ?rt \<and> runtime_ok ?rt"
  proof (rule on_sched_ok [where f = "sched_CreateTask e (CreateTask_arg f (go_opt g)) (opt_stack_size (go_opt g))" and N = "{tk}", OF T(1) s C(1,2)])
    fix x b r
    assume "x \<in> {tk}" "schedulers rt1 b = Some r"
    then show "x \<notin># all_queued (processers r)" using nu T(1) by (auto simp: runtime_ok_def)
  qed (use C(4,10,11) fr nc in auto)
  then have G: "go_create e current f g rt = Some ?rt" "runtime_ok ?rt" using assms(4) by (simp_all add: go_create_def)
  have h: "task_heap ?rt = (task_heap rt1)(tk \<mapsto> k)" using C(6,10) by (auto simp: store_def fun_eq_iff)
  have n: "TaskCount ?s = TaskCount s" "schedulers ?rt = (schedulers rt1)(a \<mapsto> s')" by (simp_all add: TaskCount_def view_def store_def)
  show ?thesis
    using s G fresh nu C(4,5,7-9) h n
    by (intro exI [of _ s] exI [of _ s'] exI [of _ tk] exI [of _ k] exI [of _ ?rt]) simp
qed

lemma go_with_scheduler:
  "go_scheduler (fold go_with opts g) = Some a \<Longrightarrow> go_scheduler g = None \<Longrightarrow> Opt_scheduler (Some a) \<in> set opts"
proof (induction opts arbitrary: g)
  case (Cons x xs)
  show ?case
  proof (cases "go_scheduler (go_with x g)")
    case None
    then show ?thesis using Cons by auto
  next
    case (Some b)
    have "Opt_scheduler (Some a) \<in> set xs \<or> go_scheduler (go_with x g) = Some a"
      if "go_scheduler (fold go_with xs h) = Some a" "h = go_with x g" for h
      using that
    proof (induction xs arbitrary: h rule: rev_induct)
      case (snoc y ys)
      then show ?case by (cases y) auto
    qed simp
    from this [OF _ refl] Cons.prems Some show ?thesis by (cases x) (auto split: if_splits)
  qed
qed simp

lemma go_exec_ok:
  assumes "runtime_ok rt" "env_ok e" "go_valid current g rt"
  shows "\<exists>rt'. go_exec e current g stmt rt = Some rt' \<and> runtime_ok rt'"
proof -
  have "go_valid current (g\<lparr>go_opt := opt\<rparr>) rt" for opt using assms(3) by (simp add: go_valid_def)
  then have "\<exists>rt'. go_create e current f (g\<lparr>go_opt := opt\<rparr>) rt = Some rt' \<and> runtime_ok rt'" for f opt
    using go_create_ok [OF assms(1,2), of current "g\<lparr>go_opt := opt\<rparr>" _ _ f] by (metis surj_pair)
  from this [where opt = "go_opt g"] this show ?thesis by (cases stmt) (simp_all add: go_dash_def go_call_def go_call_stack_def)
qed

lemma A_Turn_ok:
  assumes "runtime_ok rt" "env_ok e" "api_valid rt (A_Turn a i ends)" "schedulers rt a = Some s"
  shows "\<exists>rt'. api_exec e (A_Turn a i ends) rt = Some rt' \<and> runtime_ok rt'
    \<and> (\<forall>x\<in>set (to_run (processers s ! i)). ends x = Returns \<longrightarrow> x \<in> free_tasks (shared rt'))"
proof -
  have s: "i < length (processers s)" "queued (processers s ! i) \<noteq> []" "\<not> stopped (s_world s)"
    using assms(3,4) by auto
  let ?s = "with_cache (cache rt) (view rt s)"
  obtain t where t: "sched_turn e i ends ?s = Some t" "sys_ok t"
    "set_mset (all_queued (processers t)) \<subseteq> set_mset (all_queued (processers s))"
    "keeps_others (set_mset (all_queued (processers s))) (s_world ?s) (s_world t)"
    "\<forall>x\<in>set (to_run (processers s ! i)). ends x = Returns \<longrightarrow> x \<in> free_tasks (s_world t)"
    using turn_ok [OF view_ok(2) [OF assms(1,4)] assms(2), of i ends] s by auto
  have "in_use x (s_world t)" if "in_use x (shared rt)" "x \<notin># all_queued (processers s)" for x
    using keeps_othersD [OF t(4)] view_ok(4) [OF assms(1,4)] that by blast
  from on_turn_ok [where f = "sched_turn e i ends", OF assms(1,4) t(1-3) this] show ?thesis
    using t(5) by (auto simp: free_tasks_def)
qed

lemma api_exec_ok:
  assumes "runtime_ok rt" "env_ok e" "api_valid rt x"
  shows "\<exists>rt'. api_exec e x rt = Some rt' \<and> runtime_ok rt'"
proof -
  have same: "\<exists>rt'. on_sched a (\<lambda>s. Some (f s)) rt = Some rt' \<and> runtime_ok rt'"
    if s: "schedulers rt a = Some s" and f: "sys_ok (f (view rt s))" "s_world (f (view rt s)) = s_world (view rt s)"
      "all_queued (processers (f (view rt s))) = all_queued (processers s)" for a s f
    using on_sched_ok [where f = "\<lambda>s. Some (f s)" and N = "{}", OF assms(1) s] f by (auto simp: free_tasks_def)
  show ?thesis
  proof (cases x)
    case (A_Go current opts stmt)
    then have "go_valid current (fold go_with opts (go_new [] 0)) rt"
      using assms(3) go_with_scheduler [of opts "go_new [] 0"] by (auto simp: go_valid_def go_new_def)
    then show ?thesis using go_exec_ok assms(1,2) A_Go by simp
  next
    case (A_Turn a i ends)
    then obtain s where "schedulers rt a = Some s" using assms(3) by auto
    then show ?thesis using A_Turn_ok assms A_Turn by blast
  next
    case (A_Wake a i tk)
    then obtain s where s: "schedulers rt a = Some s" "i < length (processers s)" "in_use tk (shared rt)"
      "\<And>b r. schedulers rt b = Some r \<Longrightarrow> tk \<notin># all_queued (processers r)" using assms(3) by auto
    have u: "in_use tk (s_world (view rt s))" by (rule view_ok(3) [OF assms(1) s(1) s(3)])
    obtain t where t: "sched_wake i tk (view rt s) = Some t" "sys_ok t"
      "set_mset (all_queued (processers t)) \<subseteq> {tk} \<union> set_mset (all_queued (processers s))"
      "\<forall>x. x \<noteq> tk \<longrightarrow> tasks (s_world t) x = task_heap rt x" "free_task_map (s_world t) = free_task_map (s_world s)"
      using wake_ok [OF view_ok(1) [OF assms(1) s(1)] _ u, of i] s(2) s(4) [OF s(1)] by auto
    have "on_sched a (sched_wake i tk) rt = Some (store a t rt) \<and> runtime_ok (store a t rt)"
      by (rule on_sched_ok [where f = "sched_wake i tk" and N = "{tk}", OF assms(1) s(1) t(1,2)]) (use t s(3,4) in \<open>auto simp: free_tasks_def in_use_def\<close>)
    then show ?thesis using A_Wake by simp
  next
    case (A_Start a hw mn mx)
    then obtain s where s: "schedulers rt a = Some s" "0 < sint hw" using assms(3) by auto
    then show ?thesis using same [OF s(1), of "start_or_throw hw mn mx"] start_ok [OF view_ok(1) [OF assms(1) s(1)] s(2)] A_Start by simp
  next
    case (A_Balance a)
    then obtain s where s: "schedulers rt a = Some s" using assms(3) by auto
    then show ?thesis using same [OF s, of AvgTotalTasks] AvgTotalTasks_ok [OF view_ok(1) [OF assms(1) s]] A_Balance by simp
  qed (use assms Create_ok getInstance_ok [THEN conjunct1] in simp_all)
qed

lemma runtime_ok_new: "runtime_ok runtime_new"
  by (simp add: runtime_ok_def runtime_new_def pool_ok_def cache_def)

lemma runtime_ok_reach: "api_reach e rt \<Longrightarrow> env_ok e \<Longrightarrow> runtime_ok rt"
proof (induction rule: api_reach.induct)
  case init
  show ?case by (rule runtime_ok_new)
next
  case (call rt x rt')
  then show ?case using api_exec_ok by fastforce
qed

lemma delete_sched_ok:
  assumes "schedulers rt a = Some s" "free_task_map (s_world s) = []"
  shows "delete_sched a rt = Some (rt\<lparr>schedulers := (schedulers rt)(a := None), exiting := True\<rparr>)"
proof -
  have "free_task_map (s_world (sched_Stop (view rt s))) = []" "tasks (s_world (sched_Stop (view rt s))) = task_heap rt"
    using assms(2) by (simp_all add: sched_Stop_def)
  then show ?thesis using assms(1) by (simp add: delete_sched_def sched_destroy_def)
qed

lemma delete_scheds_ok:
  "distinct as \<Longrightarrow> \<forall>a\<in>set as. \<exists>s. schedulers rt a = Some s \<and> free_task_map (s_world s) = [] \<Longrightarrow>
    \<exists>rt'. delete_scheds as rt = Some rt' \<and> schedulers rt' = schedulers rt |` (- set as) \<and> task_heap rt' = task_heap rt"
proof (induction as arbitrary: rt)
  case Nil
  then show ?case by (simp add: restrict_map_def)
next
  case (Cons a as)
  obtain s where s: "schedulers rt a = Some s" "free_task_map (s_world s) = []" using Cons.prems(2) by auto
  let ?rt = "rt\<lparr>schedulers := (schedulers rt)(a := None), exiting := True\<rparr>"
  have "\<exists>rt'. delete_scheds as ?rt = Some rt' \<and> schedulers rt' = schedulers ?rt |` (- set as) \<and> task_heap rt' = task_heap ?rt"
    using Cons.prems by (intro Cons.IH) auto
  moreover have "(schedulers rt)(a := None) |` (- set as) = schedulers rt |` (- set (a # as))"
    by (auto simp: restrict_map_def fun_eq_iff)
  ultimately show ?case using delete_sched_ok [OF s] by (auto simp del: fun_upd_apply restrict_fun_upd)
qed

section \<open>Properties\<close>





text \<open>
  C40: A task that returns goes to the cache of the default scheduler, whichever scheduler ran it: that scheduler exists
  afterwards, and a created one still caches nothing.
\<close>

theorem finished_tasks_cached_by_default:
  assumes "runtime_ok rt" and "env_ok e" and "api_valid rt (A_Turn a i ends)" and "schedulers rt a = Some s"
    and "x \<in> set (to_run (processers s ! i))" and "ends x = Returns"
  shows "\<exists>rt'. api_exec e (A_Turn a i ends) rt = Some rt'
    \<and> (\<exists>d. schedulers rt' default_addr = Some d \<and> x \<in> snd ` set (free_task_map (s_world d)))
    \<and> (\<forall>b r. b \<noteq> default_addr \<longrightarrow> schedulers rt' b = Some r \<longrightarrow> free_task_map (s_world r) = [])"
proof -
  obtain rt' where rt': "api_exec e (A_Turn a i ends) rt = Some rt'" "runtime_ok rt'" "x \<in> free_tasks (shared rt')"
    using A_Turn_ok [OF assms(1-4)] assms(5,6) by blast
  have "\<exists>d. schedulers rt' default_addr = Some d \<and> x \<in> snd ` set (free_task_map (s_world d))"
    using rt'(3) by (cases "schedulers rt' default_addr") (simp_all add: free_tasks_def cache_def)
  then show ?thesis using rt'(1,2) by (auto simp: runtime_ok_def)
qed

definition demo_runtime :: "nat runtime" where
  "demo_runtime = \<lparr>schedulers = [1 \<mapsto> (sched_new 0)\<lparr>processers := [(proc_new 0)\<lparr>runnableQueue := [7]\<rparr>]\<rparr>], task_heap = [7 \<mapsto> demo_task],
     exit_list = [1], id_factory = 1, exiting = False\<rparr>"

lemma finished_tasks_cached_by_default_witness:
  "\<exists>rt' d. api_exec demo_env (A_Turn 1 0 (\<lambda>_. Returns)) demo_runtime = Some rt'
    \<and> schedulers rt' default_addr = Some d \<and> 7 \<in> snd ` set (free_task_map (s_world d))"
proof -
  let ?s = "(sched_new 0)\<lparr>processers := [(proc_new 0)\<lparr>runnableQueue := [7]\<rparr>]\<rparr> :: nat sched"
  have s: "schedulers demo_runtime 1 = Some ?s" by (simp add: demo_runtime_def)
  have q: "queued ((proc_new 0)\<lparr>runnableQueue := [7]\<rparr>) = [7]" by (simp add: queued_def proc_new_def)
  have "procs_ok ?s" by (simp add: procs_ok_def q) (simp add: proc_new_def)
  moreover have "cache demo_runtime = []" "task_heap demo_runtime = [7 \<mapsto> demo_task]"
    by (simp_all add: cache_def demo_runtime_def default_addr_def)
  ultimately have ok: "runtime_ok demo_runtime"
    by (auto simp: runtime_ok_def pool_ok_def in_use_def free_tasks_def demo_runtime_def default_addr_def q sched_new_ok split: if_splits)
  have "\<not> stopped (s_world ?s)" by (simp add: sched_new_def world_new_def)
  then have v: "api_valid demo_runtime (A_Turn 1 0 (\<lambda>_. Returns))" using s q by simp
  show ?thesis using finished_tasks_cached_by_default [OF ok demo_env_ok v s, of 7] by (auto simp: to_run_def)
qed

text \<open>
  When the program ends, every scheduler that \<open>Create\<close> made is deleted once, in the order of creation, without freeing
  a task, since none of them caches any; the default scheduler is left to its own destructor, and running the exit
  function again does nothing.
\<close>

theorem exit_deletes_created_schedulers:
  assumes "runtime_ok rt"
  shows "\<exists>rt'. onExit rt = Some rt' \<and> schedulers rt' = schedulers rt |` {default_addr} \<and> task_heap rt' = task_heap rt
    \<and> exit_list rt' = [] \<and> onExit rt' = Some rt'"
proof -
  have A: "distinct (exit_list rt)" "\<forall>a\<in>set (exit_list rt). \<exists>s. schedulers rt a = Some s \<and> free_task_map (s_world s) = []"
    using assms by (auto simp: runtime_ok_def)
  obtain rt' where D: "delete_scheds (exit_list rt) rt = Some rt'" "schedulers rt' = schedulers rt |` (- set (exit_list rt))"
    "task_heap rt' = task_heap rt" using delete_scheds_ok [OF A] by blast
  have "schedulers rt |` (- set (exit_list rt)) = schedulers rt |` {default_addr}"
    using assms by (auto simp: runtime_ok_def restrict_map_def fun_eq_iff domIff)
  then show ?thesis using D by (simp add: onExit_def)
qed

lemma exit_deletes_created_schedulers_witness:
  "\<exists>rt'. onExit (snd (Scheduler_Create (e_new demo_env) (runtime_new :: nat runtime))) = Some rt' \<and> schedulers rt' = Map.empty"
proof -
  let ?rt = "snd (Scheduler_Create (e_new demo_env) (runtime_new :: nat runtime))"
  have "runtime_ok ?rt" by (rule Create_ok [OF runtime_ok_new demo_env_ok])
  moreover have "schedulers ?rt default_addr = None"
    by (simp add: Scheduler_Create_def runtime_new_def demo_env_def default_addr_def Let_def)
  then have "schedulers ?rt |` {default_addr} = Map.empty" by (auto simp: restrict_map_def fun_eq_iff)
  ultimately show ?thesis using exit_deletes_created_schedulers by metis
qed

text \<open>
  The debugger does not see tasks: whatever the scheduler holds, the count it prints is -1, and a text given to the
  current task is not kept.
\<close>

theorem debugger_sees_no_tasks:
  "SetCurrentTaskDebugInfo pr info w = w \<and> DebugInfo (Some tk) = [] \<and>
   GetAllInfo None s = Some (replicate 46 (CHR ''='') @ newline @ ''TaskCount: -1'' @ newline @ ''CurrentTaskID: 0'' @ newline
     @ ''CurrentTaskInfo: nil'' @ newline @ ''CurrentTaskYieldCount: 0'' @ newline @ ''CurrentThreadID: -1'' @ newline
     @ replicate 44 (CHR ''-'') @ newline)"
proof -
  have p: "P_line out = Some (out @ newline)" if "length out < 4000" for out
    using that by (simp add: P_line_def vsnprintf_buf_def Let_def)
  have n: "show_nat 0 = ''0''" "show_int (- 1) = ''-1''" by (simp_all add: show_int_def show_nat.simps digit_def)
  show ?thesis
    by (simp add: SetCurrentTaskDebugInfo_def DebugInfo_def GetAllInfo_def GetCurrentTaskID_def GetCurrentTaskYieldCount_def
        GetCurrentTask_def GetCurrentThreadID_def dbg_TaskCount_def n p split: option.split)
qed

end
