(* ===== verification/Clock.thy ===== *)
theory Clock
  imports Cpu_Load
begin

text \<open>
  \<open>FastSteadyClock\<close> of \<open>common/clock.h\<close>: the clock of the timers. A background thread measures how many ticks of the time
  stamp counter a nanosecond has, and \<open>now\<close> extrapolates from the last check point. Readings of the steady clock, in
  nanoseconds, and of the counter are parameters.
\<close>

section \<open>State\<close>

record check_point =
  cp_tp :: int
  cp_tsc :: uint64

record fast_clock =
  fast :: bool
  cycle :: fl
  checkPoint0 :: check_point
  checkPoint1 :: check_point
  switchIdx :: bool

definition clock_new :: fast_clock where
  "clock_new = \<lparr>fast = False, cycle = Fin 1, checkPoint0 = \<lparr>cp_tp = 0, cp_tsc = 0\<rparr>, checkPoint1 = \<lparr>cp_tp = 0, cp_tsc = 0\<rparr>,
     switchIdx = False\<rparr>"

definition checkPoint :: "bool \<Rightarrow> fast_clock \<Rightarrow> check_point" where
  "checkPoint i c = (if i then checkPoint1 c else checkPoint0 c)"

definition set_checkPoint :: "bool \<Rightarrow> check_point \<Rightarrow> fast_clock \<Rightarrow> fast_clock" where
  "set_checkPoint i p c = (if i then c\<lparr>checkPoint1 := p\<rparr> else c\<lparr>checkPoint0 := p\<rparr>)"

section \<open>Reading\<close>

text \<open>The sum is a \<open>double\<close> that is converted to \<open>long\<close>.\<close>

definition clock_now :: "int \<Rightarrow> uint64 \<Rightarrow> fast_clock \<Rightarrow> int option" where
  "clock_now base tsc c =
     (if \<not> fast c then Some base
      else (let p = checkPoint (switchIdx c) c;
                dtsc = tsc - cp_tsc p
            in fl_to_ll (fl_add 53 (fl_int 53 (cp_tp p)) (fl_div 53 (fl_int 53 (uint dtsc)) (cycle c)))))"

section \<open>Measuring\<close>

text \<open>
  One turn of the loop of \<open>ThreadRun\<close>, in the steps in which other threads can see it: the unused check point is set, the
  ticks per nanosecond are computed from the two check points (in \<open>float\<close>, at least the smallest normal one), and the
  check points change places.
\<close>

definition set_point :: "int \<Rightarrow> uint64 \<Rightarrow> fast_clock \<Rightarrow> fast_clock" where
  "set_point base tsc c = set_checkPoint (\<not> switchIdx c) \<lparr>cp_tp = base, cp_tsc = tsc\<rparr> c"

fun at_least_min :: "fl \<Rightarrow> fl" where
  "at_least_min (Fin x) = (if x < pow2 (- 126) then Fin (pow2 (- 126)) else Fin x)"
| "at_least_min y = y"

definition measured :: "fast_clock \<Rightarrow> fl" where
  "measured c =
     (let p = checkPoint (\<not> switchIdx c) c; q = checkPoint (switchIdx c) c;
          dur = cp_tp p - cp_tp q;
          dtsc = cp_tsc p - cp_tsc q
      in at_least_min (fl_div 24 (fl_int 24 (uint dtsc)) (fl_int 24 (max dur 1))))"

definition calibrate :: "fast_clock \<Rightarrow> fast_clock" where
  "calibrate c =
     (if cp_tsc (checkPoint (switchIdx c) c) \<noteq> 0 then c\<lparr>cycle := fl_conv 53 (measured c), fast := True\<rparr> else c)"

definition switch_points :: "fast_clock \<Rightarrow> fast_clock" where
  "switch_points c = c\<lparr>switchIdx := \<not> switchIdx c\<rparr>"

definition ThreadRun_turn :: "int \<Rightarrow> uint64 \<Rightarrow> fast_clock \<Rightarrow> fast_clock" where
  "ThreadRun_turn base tsc c = switch_points (calibrate (set_point base tsc c))"

section \<open>Rounding keeps the order\<close>

lemma rnd_between:
  assumes "0 < x" "0 < p"
  shows "pow2 (floor_log2 x) \<le> rnd (int p) x" "rnd (int p) x \<le> pow2 (floor_log2 x + 1)"
proof -
  let ?f = "floor_log2 x"
  define u where "u = pow2 (?f - int p + 1)"
  have u: "0 < u" by (simp add: u_def)
  have lo: "pow2 ?f = of_int (2 ^ (p - 1)) * u" 
  proof -
    have "pow2 (int (p - 1)) * u = pow2 (int (p - 1) + (?f - int p + 1))" unfolding u_def by (simp only: pow2_add)
    also have "int (p - 1) + (?f - int p + 1) = ?f" using assms(2) by simp
    finally show ?thesis by simp
  qed
  have hi: "pow2 (?f + 1) = of_int (2 ^ p) * u"
  proof -
    have "pow2 (int p) * u = pow2 (int p + (?f - int p + 1))" unfolding u_def by (simp only: pow2_add)
    then show ?thesis by (simp add: algebra_simps)
  qed
  have r: "rnd (int p) x = of_int (half_even (x / u)) * u" using assms(1) by (simp add: rnd_def Let_def u_def)
  have "of_int (2 ^ (p - 1)) \<le> x / u" using floor_log2_bounds(1) [OF assms(1)] u by (simp only: lo pos_le_divide_eq)
  from half_even_mono [OF this] have "2 ^ (p - 1) \<le> half_even (x / u)" by (simp only: half_even_int)
  then show "pow2 ?f \<le> rnd (int p) x" unfolding r lo using u by (simp only: of_int_le_iff mult_le_cancel_right_pos)
  have "x / u \<le> of_int (2 ^ p)" using floor_log2_bounds(2) [OF assms(1)] u by (simp only: hi pos_divide_le_eq less_imp_le)
  from half_even_mono [OF this] have "half_even (x / u) \<le> 2 ^ p" by (simp only: half_even_int)
  then show "rnd (int p) x \<le> pow2 (?f + 1)" unfolding r hi using u by (simp only: of_int_le_iff mult_le_cancel_right_pos)
qed

lemma rnd_mono:
  assumes "0 \<le> x" "x \<le> y" "0 < p"
  shows "rnd (int p) x \<le> rnd (int p) y"
proof (cases "x = 0")
  case True
  then show ?thesis using rnd_nonneg [of y] assms by simp
next
  case False
  then have pos: "0 < x" "0 < y" using assms by simp_all
  have "pow2 (floor_log2 x) < pow2 (floor_log2 y + 1)"
    using floor_log2_bounds(1) [OF pos(1)] floor_log2_bounds(2) [OF pos(2)] assms(2) by linarith
  then have le: "floor_log2 x \<le> floor_log2 y" by simp
  show ?thesis
  proof (cases "floor_log2 x = floor_log2 y")
    case True
    let ?u = "pow2 (floor_log2 y - int p + 1)"
    have "half_even (x / ?u) \<le> half_even (y / ?u)" using assms(2) by (intro half_even_mono divide_right_mono) (simp_all add: less_imp_le)
    then have "of_int (half_even (x / ?u)) * ?u \<le> of_int (half_even (y / ?u)) * ?u"
      by (intro mult_right_mono) (simp_all add: less_imp_le)
    then show ?thesis using pos True by (simp add: rnd_def Let_def)
  next
    case False
    have "rnd (int p) x \<le> pow2 (floor_log2 x + 1)" by (rule rnd_between(2) [OF pos(1) assms(3)])
    also have "\<dots> \<le> pow2 (floor_log2 y)"
      using le False by (metis pow2_less_iff less_add_one linorder_not_less order_le_less zless_add1_eq)
    also have "\<dots> \<le> rnd (int p) y" by (rule rnd_between(1) [OF pos(2) assms(3)])
    finally show ?thesis .
  qed
qed

text \<open>Rounding to the nearest number of the format, computed.\<close>

lemma half_even_near: "\<bar>y - of_int m\<bar> < 1 / 2 \<Longrightarrow> half_even y = m"
proof -
  assume y: "\<bar>y - of_int m\<bar> < 1 / 2"
  show ?thesis
  proof (cases "of_int m \<le> y")
    case True
    have "\<lfloor>y\<rfloor> = m" by (rule floor_unique) (use True y in linarith)+
    moreover have "y - of_int m < 1 / 2" using y by linarith
    ultimately show ?thesis by (simp add: half_even_def Let_def)
  next
    case False
    have "of_int (m - 1) = (of_int m - 1 :: rat)" by simp
    then have "\<lfloor>y\<rfloor> = m - 1" "1 / 2 < y - of_int (m - 1)"
      using False y by - (rule floor_unique, linarith+)
    then show ?thesis by (simp add: half_even_def Let_def)
  qed
qed

lemma rnd_near:
  assumes "pow2 k \<le> x" "x < pow2 (k + 1)" "\<bar>x / pow2 (k - p + 1) - of_int m\<bar> < 1 / 2"
  shows "rnd p x = of_int m * pow2 (k - p + 1)"
proof -
  have "0 < x" using pow2_pos [of k] assms(1) by linarith
  then show ?thesis using floor_log2_unique [of x k] half_even_near [OF assms(3)] assms by (simp add: rnd_def Let_def)
qed

section \<open>Properties\<close>

text \<open>The clock after the given readings of the background thread.\<close>

definition clock_points :: "(int \<times> uint64) list \<Rightarrow> fast_clock" where
  "clock_points ps = fold (\<lambda>(base, tsc). ThreadRun_turn base tsc) ps clock_new"

lemma rnd_pos: "0 < x \<Longrightarrow> 0 < p \<Longrightarrow> 0 < rnd (int p) x"
  using rnd_between(1) [of x p] pow2_pos [of "floor_log2 x"] by linarith

lemma measured_pos: "\<exists>y>0. fl_conv 53 (measured c) = Fin y"
proof -
  define m where "m = max (cp_tp (checkPoint (\<not> switchIdx c) c) - cp_tp (checkPoint (switchIdx c) c)) 1"
  define d where "d = cp_tsc (checkPoint (\<not> switchIdx c) c) - cp_tsc (checkPoint (switchIdx c) c)"
  have "0 < rnd (int 24) (of_int m)" by (rule rnd_pos) (simp_all add: m_def)
  then obtain x where x: "fl_div 24 (fl_int 24 (uint d)) (fl_int 24 m) = Fin x" by (simp add: fl_int_def)
  have p: "0 < rnd (int 53) z" if "pow2 (- 126) \<le> z" for z
    using rnd_pos [of z 53] pow2_pos [of "- 126"] that by linarith
  show ?thesis using p [of "pow2 (- 126)"] p [of x] by (simp add: measured_def Let_def flip: m_def d_def) (simp add: x)
qed

lemma clock_points_cycle: "\<exists>y>0. cycle (clock_points ps) = Fin y"
proof (induction ps rule: rev_induct)
  case Nil
  then show ?case by (simp add: clock_points_def clock_new_def)
next
  case (snoc r ps)
  obtain b t where r: "r = (b, t)" by (cases r)
  let ?c = "set_point b t (clock_points ps)"
  have "cycle ?c = cycle (clock_points ps)" by (simp add: set_point_def set_checkPoint_def)
  then have "\<exists>y>0. cycle (calibrate ?c) = Fin y" using snoc measured_pos [of ?c] by (simp add: calibrate_def)
  then show ?case by (simp add: clock_points_def r ThreadRun_turn_def switch_points_def)
qed

lemma fl_to_ll_mono:
  assumes "fl_to_ll (Fin x) = Some i" "fl_to_ll (Fin y) = Some j" "0 \<le> x" "x \<le> y"
  shows "i \<le> j"
  using assms floor_mono [of x y] by (auto simp: truncate_rat_def Let_def split: if_splits)

text \<open>
  C31: Between two turns of the background thread the fast clock does not go back: it starts at the steady clock's
  reading of the last check point, exactly as long as that is below $2^{53}$ nanoseconds (104 days), and a larger
  count of ticks since then never gives an earlier time, whatever rate was measured.
\<close>

theorem fast_clock_monotone_between_points:
  assumes "c = clock_points ps" and "fast c" and "p = checkPoint (switchIdx c) c"
    and "0 \<le> cp_tp p" and "cp_tp p < 2 ^ 53" and "t - cp_tsc p \<le> t' - cp_tsc p"
    and "clock_now b t c = Some n" and "clock_now b' t' c = Some n'"
  shows "n \<le> n' \<and> cp_tp p \<le> n \<and> (t = cp_tsc p \<longrightarrow> n = cp_tp p)"
proof -
  obtain y where y: "cycle c = Fin y" "0 < y" using clock_points_cycle [of ps] assms(1) by blast
  define z where "z d = rnd (int 53) (of_int (cp_tp p) + rnd (int 53) (rnd (int 53) (of_int (uint (d :: uint64))) / y))" for d
  have tp: "rnd (int 53) (of_int (cp_tp p)) = of_int (cp_tp p)" using assms(4,5) by (intro rnd_int_exact) simp
  have now: "clock_now b t c = fl_to_ll (Fin (z (t - cp_tsc p)))" for b t
    using assms(2,3) y tp by (simp add: clock_now_def Let_def fl_int_def z_def)
  have q: "0 \<le> rnd (int 53) (rnd (int 53) (of_int (uint d)) / y)" for d :: uint64
    by (intro rnd_nonneg divide_nonneg_pos y(2) of_int_nonneg unsigned_greater_eq)
  have mono: "z d \<le> z d'" if "d \<le> d'" for d d'
  proof -
    have "(of_int (uint d) :: rat) \<le> of_int (uint d')" using that by (simp only: of_int_le_iff word_le_def)
    then have "rnd (int 53) (of_int (uint d)) \<le> rnd (int 53) (of_int (uint d'))"
      by (intro rnd_mono of_int_nonneg unsigned_greater_eq) simp_all
    then have "rnd (int 53) (of_int (uint d)) / y \<le> rnd (int 53) (of_int (uint d')) / y"
      using y(2) by (intro divide_right_mono) simp_all
    then have "rnd (int 53) (rnd (int 53) (of_int (uint d)) / y) \<le> rnd (int 53) (rnd (int 53) (of_int (uint d')) / y)"
      by (intro rnd_mono divide_nonneg_pos y(2) rnd_nonneg of_int_nonneg unsigned_greater_eq) simp_all
    then show ?thesis unfolding z_def using assms(4) q by (intro rnd_mono) simp_all
  qed
  have z0: "z 0 = of_int (cp_tp p)" using tp by (simp add: z_def)
  have ll: "fl_to_ll (Fin (of_int (cp_tp p))) = Some (cp_tp p)" using assms(4,5) by (simp add: truncate_rat_def)
  have nonneg: "0 \<le> z d" for d unfolding z_def using assms(4) q [of d] by (intro rnd_nonneg) simp
  have n: "fl_to_ll (Fin (z (t - cp_tsc p))) = Some n" "fl_to_ll (Fin (z (t' - cp_tsc p))) = Some n'"
    using assms(7,8) unfolding now by simp_all
  have "n \<le> n'" using fl_to_ll_mono [OF n nonneg mono [OF assms(6)]] .
  moreover have "cp_tp p \<le> n"
    using fl_to_ll_mono [OF _ n(1), of "of_int (cp_tp p)" "cp_tp p"] mono [of 0 "t - cp_tsc p"] ll assms(4) by (simp add: z0)
  moreover have "t = cp_tsc p \<longrightarrow> n = cp_tp p" using n(1) ll by (auto simp: z0)
  ultimately show ?thesis by blast
qed

text \<open>A counter of 2.6 ticks a nanosecond, read 1, 20001 and 60001 microseconds after the start.\<close>

definition demo_points :: "(int \<times> uint64) list" where
  "demo_points = [(1000, 2600), (20001000, 52002600)]"

lemma demo_rounding:
  "rnd 24 52000000 = 52000000" "rnd 24 20000000 = 20000000" "rnd 24 104000000 = 104000000" "rnd 24 40000000 = 40000000"
  "rnd 24 (13 / 5) = 5452595 / 2097152" "rnd 53 (5452595 / 2097152) = 5452595 / 2097152"
  "rnd 53 (43620761600000 / 1090519) = 1342177329230771 / 33554432"
  "rnd 53 (2013299523662771 / 33554432) = 2013299523662771 / 33554432"
  "rnd 53 (2097152 / 5452595) = 6928615065479311 / 18014398509481984"
  "rnd 53 (1080881931896043587463311 / 18014398509481984) = 8053197949350205 / 134217728"
  using rnd_near [of 25 52000000 24 13000000] rnd_near [of 24 20000000 24 10000000] rnd_near [of 26 104000000 24 13000000]
    rnd_near [of 25 40000000 24 10000000] rnd_near [of 1 "13 / 5" 24 10905190]
    rnd_near [of 1 "5452595 / 2097152" 53 5854679300833280] rnd_near [of 25 "43620761600000 / 1090519" 53 5368709316923084]
    rnd_near [of 25 "2013299523662771 / 33554432" 53 8053198094651084]
    rnd_near [of "-2" "2097152 / 5452595" 53 6928615065479311]
    rnd_near [of 25 "1080881931896043587463311 / 18014398509481984" 53 8053197949350205]
  by (simp_all add: pow2_def)

lemma demo_clock:
  "clock_points demo_points = \<lparr>fast = True, cycle = Fin (5452595 / 2097152), checkPoint0 = \<lparr>cp_tp = 20001000, cp_tsc = 52002600\<rparr>,
     checkPoint1 = \<lparr>cp_tp = 1000, cp_tsc = 2600\<rparr>, switchIdx = False\<rparr>"
proof -
  have "\<not> 5452595 / 2097152 < pow2 (- 126)" by (simp add: pow2_def)
  then show ?thesis
    by (simp add: demo_rounding clock_points_def demo_points_def clock_new_def ThreadRun_turn_def set_point_def set_checkPoint_def
        calibrate_def checkPoint_def switch_points_def measured_def fl_int_def Let_def)
qed

lemma demo_floor:
  "\<lfloor>2013299523662771 / 33554432 :: rat\<rfloor> = 60001001"
  "\<lfloor>8053197949350205 / 134217728 :: rat\<rfloor> = 60001000"
  by (rule floor_unique; simp)+

lemma demo_now: "clock_now b 156002600 (clock_points demo_points) = Some 60001001"
  by (simp add: demo_floor demo_rounding demo_clock clock_now_def checkPoint_def fl_int_def truncate_rat_def Let_def)

lemma fast_clock_monotone_between_points_witness:
  "clock_now 0 156002600 (clock_points demo_points) = Some 60001001 \<and> (20001000 :: int) \<le> 60001001"
proof -
  let ?c = "clock_points demo_points"
  have p: "fast ?c" "cp_tp (checkPoint (switchIdx ?c) ?c) = 20001000" by (simp_all add: demo_clock checkPoint_def)
  have "cp_tp (checkPoint (switchIdx ?c) ?c) \<le> 60001001"
    using fast_clock_monotone_between_points [OF refl p(1) refl _ _ order_refl demo_now demo_now] p(2) by simp
  then show ?thesis unfolding p(2) using demo_now by blast
qed

text \<open>
  The clock is declared steady, but its time can go back when the check points change places, even if the counter
  runs at a constant rate: the rate is kept in 24 binary digits. Read before the turn of the background thread at 60001000
  nanoseconds it yields 60001001, and after it, at the same or the next tick, 60001000.
\<close>

theorem fast_clock_goes_back:
  "clock_now b 156002600 (clock_points demo_points) = Some 60001001
   \<and> clock_now b' 156002600 (clock_points (demo_points @ [(60001000, 156002600)])) = Some 60001000
   \<and> clock_now b' 156002601 (clock_points (demo_points @ [(60001000, 156002600)])) = Some 60001000"
proof -
  have "\<not> 5452595 / 2097152 < pow2 (- 126)" by (simp add: pow2_def)
  then have c: "clock_points (demo_points @ [(60001000, 156002600)]) = \<lparr>fast = True, cycle = Fin (5452595 / 2097152),
     checkPoint0 = \<lparr>cp_tp = 20001000, cp_tsc = 52002600\<rparr>, checkPoint1 = \<lparr>cp_tp = 60001000, cp_tsc = 156002600\<rparr>, switchIdx = True\<rparr>"
    using demo_clock
    by (simp add: demo_rounding clock_points_def ThreadRun_turn_def set_point_def set_checkPoint_def calibrate_def checkPoint_def
        switch_points_def measured_def fl_int_def Let_def)
  have "clock_now b' 156002600 (clock_points (demo_points @ [(60001000, 156002600)])) = Some 60001000"
    by (simp add: c clock_now_def checkPoint_def fl_int_def truncate_rat_def Let_def)
  moreover have "clock_now b' 156002601 (clock_points (demo_points @ [(60001000, 156002600)])) = Some 60001000"
    by (simp add: demo_floor demo_rounding c clock_now_def checkPoint_def fl_int_def truncate_rat_def Let_def)
  ultimately show ?thesis using demo_now by blast
qed

end
