(* ===== verification/Dbg_Timer.thy ===== *)
theory Dbg_Timer
  imports Decimal
begin

text \<open>
  \<open>DbgTimer\<close> of \<open>common/dbg_timer.h\<close>: how long the parts of a function took, for the debug output. Times are nanoseconds.
\<close>

section \<open>State and operations\<close>

record dbg_timer =
  dt_active :: bool
  dt_prev :: int
  dt_costs :: "(int \<times> int) list"

definition DbgTimer_new :: "uint64 \<Rightarrow> uint64 \<Rightarrow> int \<Rightarrow> dbg_timer" where
  "DbgTimer_new debug dmask now =
     (if and debug dmask \<noteq> 0 then \<lparr>dt_active = True, dt_prev = now, dt_costs = []\<rparr>
      else \<lparr>dt_active = False, dt_prev = 0, dt_costs = []\<rparr>)"

text \<open>The cost is kept in microseconds, as an \<open>int\<close>; \<open>precision\<close> is at least 0.\<close>

definition dbg_check :: "int \<Rightarrow> int \<Rightarrow> int \<Rightarrow> dbg_timer \<Rightarrow> dbg_timer" where
  "dbg_check line precision now t =
     (if \<not> dt_active t then t
      else (let t = (if now - dt_prev t > precision
                     then t\<lparr>dt_costs := dt_costs t @ [(line, to_int32 ((now - dt_prev t) div 1000))]\<rparr> else t)
            in t\<lparr>dt_prev := now\<rparr>))"

text \<open>
  \<open>snprintf\<close> stores at most 30 characters in the buffer of 32 zero bytes and returns the whole length, which \<open>append\<close> uses;
  reading behind the buffer has no result.
\<close>

definition cost_line :: "int \<times> int \<Rightarrow> string" where
  "cost_line c = ''(L='' @ show_int (fst c) @ '', '' @ show_int (snd c) @ '' us)''"

definition cost_text :: "int \<times> int \<Rightarrow> string option" where
  "cost_text c = (let len = length (cost_line c) in
     if len \<le> 32 then Some (take 30 (cost_line c) @ replicate (len - 30) (char_of (0::nat))) else None)"

primrec cost_texts :: "(int \<times> int) list \<Rightarrow> string option" where
  "cost_texts [] = Some []"
| "cost_texts (c # cs) = do { s \<leftarrow> cost_text c; r \<leftarrow> cost_texts cs; Some (s @ r) }"

definition dbg_ToString :: "int \<Rightarrow> int \<Rightarrow> dbg_timer \<Rightarrow> (string \<times> dbg_timer) option" where
  "dbg_ToString line now t =
     (if \<not> dt_active t then Some ([], t)
      else (let t = dbg_check line 1000 now t in map_option (\<lambda>s. (s, t)) (cost_texts (dt_costs t))))"

section \<open>Properties\<close>

definition dbg_checks :: "(int \<times> int) list \<Rightarrow> dbg_timer \<Rightarrow> dbg_timer" where
  "dbg_checks cs t = fold (\<lambda>(line, now). dbg_check line 1000 now) cs t"

lemma show_nat_length: "n < 10 ^ k \<Longrightarrow> 0 < k \<Longrightarrow> length (show_nat n) \<le> k"
proof (induction k arbitrary: n)
  case (Suc k)
  show ?case
  proof (cases "n < 10")
    case True
    then show ?thesis by (subst show_nat.simps) simp
  next
    case False
    then have "0 < k" using Suc.prems(1) by (cases k) auto
    moreover have "n div 10 < 10 ^ k" using Suc.prems(1) by (simp add: less_mult_imp_div_less mult.commute)
    ultimately show ?thesis using Suc.IH [of "n div 10"] False by (subst show_nat.simps) simp
  qed
qed simp

definition fits :: "int \<times> int \<Rightarrow> bool" where
  "fits c \<longleftrightarrow> 0 \<le> fst c \<and> fst c < 2 ^ 31 \<and> - (2 ^ 31) \<le> snd c \<and> snd c < 2 ^ 31"

lemma cost_text_fits: "fits c \<Longrightarrow> cost_text c = Some (cost_line c)"
proof -
  assume c: "fits c"
  have n: "length (show_nat n) \<le> 10" if "n < 10 ^ 10" for n using show_nat_length [OF that] by simp
  have "nat (fst c) < 10 ^ 10" "nat (snd c) < 10 ^ 10" "nat (- snd c) < 10 ^ 10" using c by (simp_all add: fits_def) linarith+
  from this [THEN n] have "length (show_int (fst c)) \<le> 10" "length (show_int (snd c)) \<le> 11"
    using c unfolding show_int_def fits_def by simp_all
  then have "length (cost_line c) \<le> 30" by (simp add: cost_line_def)
  then show ?thesis by (simp add: cost_text_def Let_def)
qed

lemma cost_texts_fit: "list_all fits cs \<Longrightarrow> cost_texts cs = Some (concat (map cost_line cs))"
  by (induction cs) (simp_all add: cost_text_fits)

lemma dbg_check_fits:
  assumes "list_all fits (dt_costs t)" "0 \<le> line" "line < 2 ^ 31"
  shows "list_all fits (dt_costs (dbg_check line p now t))"
proof -
  have "- (2 ^ 31) \<le> to_int32 i" "to_int32 i < 2 ^ 31" for i
    using sint_ge [of "word_of_int i :: 32 word"] sint_lt [of "word_of_int i :: 32 word"] by (simp_all add: to_int32_def)
  then have "fits (line, to_int32 i)" for i using assms(2,3) unfolding fits_def fst_conv snd_conv by blast
  then show ?thesis using assms(1) by (simp add: dbg_check_def Let_def)
qed

lemma dbg_checks_fits:
  "\<forall>c\<in>set cs. 0 \<le> fst c \<and> fst c < 2 ^ 31 \<Longrightarrow> list_all fits (dt_costs t) \<Longrightarrow> list_all fits (dt_costs (dbg_checks cs t))"
proof (induction cs arbitrary: t)
  case (Cons c cs)
  have "list_all fits (dt_costs (dbg_check (fst c) 1000 (snd c) t))" using Cons.prems by (intro dbg_check_fits) simp_all
  then show ?case using Cons by (cases c) (simp add: dbg_checks_def)
qed (simp add: dbg_checks_def)

lemma dbg_checks_inactive: "\<not> dt_active t \<Longrightarrow> dbg_checks cs t = t"
  by (induction cs) (auto simp: dbg_checks_def dbg_check_def)

lemma dbg_checks_active: "dt_active (dbg_checks cs t) = dt_active t"
proof -
  have "dt_active (dbg_check l p n t) = dt_active t" for l p n t by (simp add: dbg_check_def Let_def)
  then show ?thesis by (induction cs arbitrary: t) (simp_all add: dbg_checks_def split: prod.splits)
qed

text \<open>
  The output is whole: whatever lines a timer checks and whatever the clock says, each entry fits into its buffer.
\<close>

theorem dbg_timer_text_whole:
  assumes "\<forall>c\<in>set cs. 0 \<le> fst c \<and> fst c < 2 ^ 31" and "0 \<le> line" "line < 2 ^ 31"
  shows "\<exists>t. dbg_ToString line now (dbg_checks cs (DbgTimer_new debug dmask t0)) = Some (concat (map cost_line (dt_costs t)), t)"
proof -
  let ?t = "DbgTimer_new debug dmask t0"
  have "dt_costs ?t = []" by (simp add: DbgTimer_new_def)
  then have "list_all fits (dt_costs (dbg_check line 1000 now (dbg_checks cs ?t)))"
    using assms by (intro dbg_check_fits dbg_checks_fits) simp_all
  from cost_texts_fit [OF this] show ?thesis
    using dbg_checks_inactive [of ?t cs] \<open>dt_costs ?t = []\<close>
    by (cases "dt_active ?t") (auto simp: dbg_ToString_def Let_def dbg_checks_active)
qed

text \<open>
  A cost is an \<open>int\<close>: a part that takes 36 minutes is reported with a negative time.
\<close>

theorem dbg_timer_overflow:
  "dt_costs (dbg_check 10 1000 (36 * 60 * 1000000000) (DbgTimer_new 1 1 0)) = [(10, - 2134967296)]"
  by (simp add: dbg_check_def DbgTimer_new_def to_int32_def Let_def)

end
