(* ===== verification/Thread_Cycles.thy ===== *)
theory Thread_Cycles
  imports Cpu_Load
begin

text \<open>
  \<open>ThreadsPhyInfo\<close> of \<open>scheduler/ThreadPhyInfo.cpp\<close> for Windows, where the system counts the cycles of each thread:
  how far the threads are apart decides whether the dispatcher balances.
\<close>

section \<open>State\<close>

record cycle_info =
  cy_tids :: "tid_info list"
  cy_first :: "int list"
  cy_second :: "int list"

definition cycle_new :: cycle_info where
  "cycle_new = \<lparr>cy_tids = [], cy_first = [], cy_second = []\<rparr>"

definition in_int64 :: "int \<Rightarrow> bool" where
  "in_int64 i \<longleftrightarrow> - (2 ^ 63) \<le> i \<and> i < 2 ^ 63"

text \<open>
  \<open>QueryThreadCycleTime\<close> leaves the last value when it fails (\<open>None\<close>); \<open>c\<close> is that variable.
\<close>

definition queried :: "(int \<Rightarrow> uint64 option) \<Rightarrow> uint64 \<Rightarrow> tid_info \<Rightarrow> uint64" where
  "queried q c x = (case q (p_tid x) of None \<Rightarrow> c | Some t \<Rightarrow> t)"

section \<open>Starting\<close>

primrec first_cycles :: "(int \<Rightarrow> uint64 option) \<Rightarrow> uint64 \<Rightarrow> tid_info list \<Rightarrow> int list" where
  "first_cycles q c [] = []"
| "first_cycles q c (x # xs) = (let c = queried q c x in sint c # first_cycles q c xs)"

definition cycle_StartTrack :: "(int \<Rightarrow> uint64 option) \<Rightarrow> cycle_info \<Rightarrow> bool \<times> cycle_info" where
  "cycle_StartTrack q s =
     (let n = length (cy_tids s) in
      if n = 1 then (False, s)
      else (let s = (if length (cy_second s) < n then s\<lparr>cy_second := replicate n 0, cy_first := replicate n 0\<rparr> else s)
            in (True, s\<lparr>cy_first := first_cycles q 0 (cy_tids s) @ drop n (cy_first s)\<rparr>)))"

section \<open>Stopping\<close>

text \<open>The cycles since the start and their sum; signed overflow has no result.\<close>

fun second_cycles :: "(int \<Rightarrow> uint64 option) \<Rightarrow> uint64 \<Rightarrow> tid_info list \<Rightarrow> int list \<Rightarrow> int \<Rightarrow> (int list \<times> int) option" where
  "second_cycles q c [] fs tot = Some ([], tot)"
| "second_cycles q c (x # xs) [] tot = None"
| "second_cycles q c (x # xs) (f # fs) tot = do {
     let c = queried q c x;
     let d = sint c - f;
     assert_c (in_int64 d \<and> in_int64 (tot + d));
     (ds, tot) \<leftarrow> second_cycles q c xs fs (tot + d);
     Some (d # ds, tot) }"

text \<open>
  \<open>(int64_t) (avg * taskLoadage_)\<close>, a product in \<open>float\<close>; the share by which the load of a thread should change, a quotient
  in \<open>double\<close> stored as \<open>float\<close>; and \<open>cpuUseAge_ > 0.00001f\<close>.
\<close>

definition critical :: "int \<Rightarrow> int option" where
  "critical avg = fl_to_ll (fl_mul 24 (fl_int 24 avg) (Fin (1 / 2)))"

definition relief :: "int \<Rightarrow> int \<Rightarrow> fl" where
  "relief avg d = fl_conv 24 (fl_div 53 (fl_int 53 (avg - d)) (fl_int 53 d))"

fun starves :: "fl \<Rightarrow> bool" where
  "starves (Fin x) = (x > rnd 24 (1 / 100000))"
| "starves (Inf neg) = (\<not> neg)"
| "starves NaN = False"

definition cycle_StopTrack :: "(int \<Rightarrow> uint64 option) \<Rightarrow> cycle_info \<Rightarrow> (bool \<times> cycle_info) option" where
  "cycle_StopTrack q s =
     (let n = length (cy_tids s) in
      if n = 1 \<or> length (cy_second s) < n \<or> length (cy_first s) < n then Some (False, s)
      else do {
        (ds, total) \<leftarrow> second_cycles q 0 (cy_tids s) (cy_first s) 0;
        let s = s\<lparr>cy_second := ds @ drop n (cy_second s), cy_tids := map (\<lambda>x. x\<lparr>cpuUseAge := Some (Fin 0)\<rparr>) (cy_tids s)\<rparr>;
        assert_c (total > 0);
        let avg = total div int n;
        crit \<leftarrow> critical avg;
        assert_c (\<forall>d\<in>set ds. in_int64 (d - avg));
        if \<forall>d\<in>set ds. \<bar>d - avg\<bar> \<le> crit then Some (False, s)
        else do {
          let counter1 = length (filter (\<lambda>d. starves (relief avg d)) ds);
          let s = s\<lparr>cy_tids := map2 (\<lambda>x d. x\<lparr>cpuUseAge := Some (relief avg d)\<rparr>) (cy_tids s) ds\<rparr>;
          Some (\<not> (counter1 = 0 \<or> counter1 = n), s) } })"

section \<open>Facts\<close>

lemma second_cycles_sum:
  "second_cycles q c xs fs tot = Some (ds, tot') \<Longrightarrow> length ds = length xs \<and> tot' = tot + sum_list ds"
proof (induction xs arbitrary: c fs tot ds tot')
  case (Cons x xs)
  then obtain f fs' where fs: "fs = f # fs'" by (cases fs) auto
  obtain ds' where "second_cycles q (queried q c x) xs fs' (tot + (sint (queried q c x) - f)) = Some (ds', tot')"
    "ds = (sint (queried q c x) - f) # ds'"
    using Cons.prems unfolding fs by (auto simp: Let_def split: Option.bind_splits if_splits)
  then show ?case using Cons.IH [of "queried q c x" fs' "tot + (sint (queried q c x) - f)" ds' tot'] by simp
qed auto

lemma rnd_nonpos: "x \<le> 0 \<Longrightarrow> rnd p x \<le> 0"
proof (cases "x = 0")
  case False
  let ?u = "pow2 (floor_log2 \<bar>x\<bar> - p + 1)"
  assume "x \<le> 0"
  then have "x / ?u \<le> of_int 0" by (simp add: divide_nonpos_pos)
  from half_even_mono [OF this] have "half_even (x / ?u) \<le> 0" by (simp only: half_even_int)
  then show ?thesis using False by (simp add: rnd_def Let_def mult_nonpos_nonneg less_imp_le)
qed simp

lemma not_starved:
  assumes "avg \<le> d" "0 \<le> avg"
  shows "\<not> starves (relief avg d)"
proof -
  let ?v = "rnd 53 (of_int (avg - d))" and ?d = "rnd 53 (of_int d)"
  have pos: "0 \<le> ?d" "?v \<le> 0" using assms by (auto intro: rnd_nonneg rnd_nonpos)
  have "0 \<le> rnd 24 (1 / 100000)" by (rule rnd_nonneg) simp
  moreover have "rnd 24 (rnd 53 (?v / ?d)) \<le> 0" using pos by (intro rnd_nonpos) (simp add: divide_nonpos_nonneg)
  ultimately show ?thesis using pos by (auto simp: relief_def fl_int_def)
qed

text \<open>
  The mean is rounded down, so not every thread can be below it.
\<close>

lemma some_at_mean:
  assumes "0 < sum_list ds" "avg = sum_list ds div int (length ds)"
  shows "\<exists>d\<in>set ds. avg \<le> d"
proof (rule ccontr)
  assume "\<not> (\<exists>d\<in>set ds. avg \<le> d)"
  then have "\<forall>d\<in>set ds. d \<le> avg - 1" by auto
  then have "sum_list ds \<le> int (length ds) * (avg - 1)" by (induction ds) (auto simp: algebra_simps)
  moreover have "ds \<noteq> []" using assms(1) by auto
  then have "0 < int (length ds)" by simp
  moreover have "int (length ds) * avg \<le> sum_list ds" unfolding assms(2) using mult_div_mod_eq [of "int (length ds)" "sum_list ds"]
    pos_mod_sign [of "int (length ds)" "sum_list ds"] \<open>ds \<noteq> []\<close> by (smt (verit, ccfv_SIG) length_greater_0_conv of_nat_0_less_iff)
  moreover have "0 < int (length ds)" using \<open>ds \<noteq> []\<close> by simp
  ultimately show False unfolding right_diff_distrib mult_1_right by linarith
qed

section \<open>Properties\<close>

text \<open>
  On Windows the dispatcher balances exactly when the cycles of some thread differ from the mean by more than half of it
  and some thread was below the mean; that all threads were (which the code tests) cannot be.
\<close>

theorem cycle_stop_track_balances:
  assumes "cycle_StopTrack q s = Some (b, s')" and "length (cy_tids s) \<noteq> 1"
    and "length (cy_tids s) \<le> length (cy_first s)" and "length (cy_tids s) \<le> length (cy_second s)"
  shows "\<exists>ds total avg crit. second_cycles q 0 (cy_tids s) (cy_first s) 0 = Some (ds, total) \<and> total = sum_list ds
    \<and> 0 < total \<and> avg = total div int (length (cy_tids s)) \<and> critical avg = Some crit
    \<and> (b \<longleftrightarrow> (\<exists>d\<in>set ds. crit < \<bar>d - avg\<bar>) \<and> (\<exists>d\<in>set ds. starves (relief avg d)))"
proof -
  let ?n = "length (cy_tids s)"
  have c: "\<not> (?n = 1 \<or> length (cy_second s) < ?n \<or> length (cy_first s) < ?n)" using assms(2-4) by simp
  obtain ds total where 1: "second_cycles q 0 (cy_tids s) (cy_first s) 0 = Some (ds, total)"
    using assms(1) c by (auto simp: cycle_StopTrack_def Let_def split: Option.bind_splits)
  have sum: "length ds = ?n" "total = sum_list ds" using second_cycles_sum [OF 1] by simp_all
  define avg where "avg = total div int ?n"
  obtain crit where 2: "0 < total" "critical avg = Some crit"
    using assms(1) c 1 sum(1) by (auto simp: cycle_StopTrack_def Let_def avg_def split: Option.bind_splits if_splits)
  have b: "b \<longleftrightarrow> \<not> (\<forall>d\<in>set ds. \<bar>d - avg\<bar> \<le> crit)
      \<and> length (filter (\<lambda>d. starves (relief avg d)) ds) \<noteq> 0 \<and> length (filter (\<lambda>d. starves (relief avg d)) ds) \<noteq> ?n"
    using assms(1) c 1 2 by (auto simp: cycle_StopTrack_def Let_def avg_def split: Option.bind_splits if_splits)
  have "0 \<le> avg" using 2(1) unfolding avg_def by (simp add: div_int_pos_iff)
  moreover obtain d where d: "d \<in> set ds" "avg \<le> d" using some_at_mean [of ds avg] 2(1) sum avg_def by auto
  ultimately have ns: "\<not> starves (relief avg d)" by (intro not_starved)
  have "length (filter (\<lambda>d. starves (relief avg d)) ds) < length ds"
    using length_filter_less [of d ds "\<lambda>d. starves (relief avg d)"] d(1) ns by simp
  then have "b \<longleftrightarrow> (\<exists>d\<in>set ds. crit < \<bar>d - avg\<bar>) \<and> (\<exists>d\<in>set ds. starves (relief avg d))"
    using b sum(1) by (auto simp: filter_empty_conv not_le)
  then show ?thesis using 1 2 sum avg_def by blast
qed

end
