(* ===== verification/Mem_Info.thy ===== *)
theory Mem_Info
  imports Cpu_Load
begin

text \<open>
  The parts of \<open>ThreadsPhyInfo\<close> in \<open>scheduler/ThreadPhyInfo.cpp\<close> that are compiled with \<open>OTHER_INFO\<close>: the memory, read from
  \<open>/proc/meminfo\<close> and \<open>/proc/<pid>/status\<close> by the position of the lines, and the shares of the whole processor. The
  files are parameters, as in \<open>Cpu_Load\<close>.
\<close>

section \<open>Reading \<open>/proc/meminfo\<close>\<close>

definition skip_token :: "string \<Rightarrow> string" where
  "skip_token p = dropWhile (\<lambda>c. \<not> is_space c) (dropWhile is_space p)"

text \<open>The number and the rest of the text; without a number 0 and the text itself. \<open>unsigned long\<close> has 64 bits.\<close>

definition strtoul :: "string \<Rightarrow> int \<times> string" where
  "strtoul p = (case scan_int p of
      None \<Rightarrow> (0, p)
    | Some (i, r) \<Rightarrow> (if \<bar>i\<bar> < 2 ^ 64 then i mod 2 ^ 64 else 2 ^ 64 - 1, r))"

text \<open>\<open>p = strchr(p, '\n')\<close>, where a null pointer would be read by the next statement.\<close>

definition to_newline :: "string \<Rightarrow> string option" where
  "to_newline p = map_option (\<lambda>i. drop i p) (strchr nl p)"

definition next_number :: "string \<Rightarrow> int \<times> string" where
  "next_number p = (case strtoul (skip_token p) of (v, r) \<Rightarrow> (to_int32 v, r))"

definition next_line :: "string \<Rightarrow> (int \<times> string) option" where
  "next_line p = map_option next_number (to_newline p)"

text \<open>The loop that goes \<open>n\<close> lines on; \<open>p++\<close> at the end of the text would leave it.\<close>

primrec skip_lines :: "nat \<Rightarrow> string \<Rightarrow> string option" where
  "skip_lines 0 p = Some p"
| "skip_lines (Suc n) p = do { assert_c (p \<noteq> []); p \<leftarrow> to_newline (tl p); skip_lines n p }"

record mem_info =
  Total :: int
  Used :: int
  Free :: int
  Cached :: int
  SwapTotal :: int
  SwapUsed :: int
  SwapFree :: int
  SwapCached :: int

text \<open>A file that cannot be opened fails the assertion. The differences are those of \<open>int\<close>s.\<close>

definition GetSysMem :: "(string \<Rightarrow> string option) \<Rightarrow> (int \<times> mem_info) option" where
  "GetSysMem fs = do {
     content \<leftarrow> fs ''/proc/meminfo'';
     let (tm, p) = next_number (take 4096 content);
     (fm, p) \<leftarrow> next_line p;
     (bm, p) \<leftarrow> next_line p;
     (cm, p) \<leftarrow> next_line p;
     p \<leftarrow> skip_lines 8 p;
     let (ts, p) = next_number p;
     (fs, p) \<leftarrow> next_line p;
     assert_c (in_int32 (tm - fm) \<and> in_int32 (ts - fs));
     Some (tm, \<lparr>Total = tm, Used = tm - fm, Free = fm, Cached = bm, SwapTotal = ts, SwapUsed = ts - fs, SwapFree = fs, SwapCached = cm\<rparr>) }"

section \<open>Reading \<open>/proc/<pid>/status\<close>\<close>

text \<open>The line buffer and the rest of the file: at the end of the file the buffer keeps its line.\<close>

definition fgets_into :: "nat \<Rightarrow> string \<times> string \<Rightarrow> string \<times> string" where
  "fgets_into n x = (case fgets n (snd x) of None \<Rightarrow> x | Some l \<Rightarrow> (l, drop (length l) (snd x)))"

text \<open>\<open>sscanf\<close> with \<open>%s %d\<close> into a name of 32 bytes and a number, which stays unset when a conversion fails.\<close>

definition scan_field :: "string \<Rightarrow> int option option" where
  "scan_field buf = do {
     let (w, r) = scan_word buf;
     assert_c (length w \<le> 31);
     Some (if w = [] then None else map_option (\<lambda>(i, r). to_int32 i) (scan_int r)) }"

text \<open>\<open>None\<close> when the file cannot be opened (the assertion) or when the result would be the unset variable.\<close>

definition GetPhyMem :: "(string \<Rightarrow> string option) \<Rightarrow> int \<Rightarrow> int option" where
  "GetPhyMem fs pid = do {
     content \<leftarrow> fs (''/proc/'' @ show_int pid @ ''/status'');
     let x = (fgets_into 256 ^^ 12) ([], content);
     let x = fgets_into 256 x;
     vmsize \<leftarrow> scan_field (fst x);
     let x = (fgets_into 256 ^^ 2) x;
     let x = fgets_into 256 x;
     vmrss \<leftarrow> scan_field (fst x);
     vmrss }"

section \<open>The share of a process\<close>

text \<open>All operands are integers; \<open>page\<close> is the answer of \<open>sysconf\<close> and the result a \<open>double\<close>.\<close>

definition GetPidMemUseage :: "(string \<Rightarrow> string option) \<Rightarrow> int \<Rightarrow> int \<Rightarrow> fl option" where
  "GetPidMemUseage fs page pid = do {
     let page_size = page div 1024;
     vmrss \<leftarrow> GetPhyMem fs pid;
     (tm, info) \<leftarrow> GetSysMem fs;
     assert_c (tm \<noteq> 0);
     let n = vmrss * page_size;
     assert_c (\<bar>n * 100\<bar> < 2 ^ 63);
     Some (fl_int 53 (sgn n * sgn tm * (\<bar>n\<bar> div \<bar>tm\<bar>) * 100)) }"

section \<open>The whole processor\<close>

record cpu_whole =
  UseAge :: fl
  Syage :: fl
  Niage :: fl
  Idage :: fl
  Ioage :: fl
  Irage :: fl
  Soage :: fl
  Stage :: fl

text \<open>
  The assignments to \<open>cpuWholeInfo_\<close> in \<open>StopTrack\<close>, from the counters \<open>user\<close>, \<open>nice\<close>, \<open>sys\<close>, \<open>idle\<close>, \<open>iowait\<close>, \<open>irq\<close>,
  \<open>softirq\<close>, \<open>steal\<close> of both readings: a \<open>uint32_t\<close> over a \<open>double\<close>, stored into a \<open>float\<close>.
\<close>

definition cpu_share :: "fl \<Rightarrow> uint32 \<Rightarrow> fl" where
  "cpu_share all d = fl_conv 24 (fl_div 53 (fl_int 53 (uint d)) all)"

definition cpu_shares :: "uint32 list \<Rightarrow> uint32 list \<Rightarrow> cpu_whole" where
  "cpu_shares first second =
     (let all = fl_div 53 (fl_int 53 (uint (sum_list second - sum_list first))) (fl_int 53 100);
          d = (\<lambda>i. second ! i - first ! i)
      in \<lparr>UseAge = cpu_share all (d 0 + d 1), Syage = cpu_share all (d 2 + d 5 + d 6), Niage = cpu_share all (d 3),
          Idage = cpu_share all (d 1), Ioage = cpu_share all (d 4), Irage = cpu_share all (d 5),
          Soage = cpu_share all (d 6), Stage = cpu_share all (d 7)\<rparr>)"

section \<open>Lines of a field and a number\<close>

text \<open>A line as the kernel writes it: the name of the field, white space and the number of kilobytes.\<close>

type_synonym field = "string \<times> string \<times> int"

definition field_ok :: "field \<Rightarrow> bool" where
  "field_ok f \<longleftrightarrow> (case f of (name, sp, v) \<Rightarrow> name \<noteq> [] \<and> (\<forall>c\<in>set name. \<not> is_space c)
     \<and> sp \<noteq> [] \<and> (\<forall>c\<in>set sp. is_space c \<and> c \<noteq> nl) \<and> 0 \<le> v \<and> v < 2 ^ 31)"

definition field_head :: "field \<Rightarrow> string" where
  "field_head f = (case f of (name, sp, v) \<Rightarrow> name @ sp @ show_int v)"

definition field_text :: "field list \<Rightarrow> string" where
  "field_text fs = concat (map (\<lambda>f. field_head f @ '' kB'' @ [nl]) fs)"

definition field_val :: "field \<Rightarrow> int" where
  "field_val f = snd (snd f)"

lemma field_text_simps [simp]:
  "field_text [] = []"
  "field_text (f # fs) = field_head f @ '' kB'' @ nl # field_text fs"
  by (simp_all add: field_text_def)

lemma field_text_append: "field_text (fs @ gs) = field_text fs @ field_text gs"
  by (simp add: field_text_def)

lemma nl_space: "is_space nl"
  by (simp add: is_space_def)

lemma field_no_nl: "field_ok f \<Longrightarrow> nl \<notin> set (field_head f @ '' kB'')"
  using nl_space by (auto simp: field_ok_def field_head_def show_int_chars split: prod.splits)

lemma kb_no_digit: "no_digit_first ('' kB'' @ r)"
  by (simp add: no_digit_first_def is_digit_def)

lemma scan_word_field:
  assumes "field_ok (name, sp, v)" "\<forall>c\<in>set ws. is_space c"
  shows "scan_word (ws @ field_head (name, sp, v) @ r) = (name, sp @ show_int v @ r)"
proof -
  have "dropWhile is_space (ws @ name @ sp @ show_int v @ r) = name @ sp @ show_int v @ r"
    using assms by (cases name) (auto simp: field_ok_def dropWhile_append)
  moreover obtain c cs where "sp = c # cs" "is_space c" using assms(1) by (cases sp) (auto simp: field_ok_def)
  ultimately show ?thesis using assms(1)
    by (simp add: scan_word_def field_head_def field_ok_def takeWhile_append dropWhile_append Let_def)
qed

lemma next_number_field:
  assumes "field_ok f" "\<forall>c\<in>set ws. is_space c"
  shows "next_number (ws @ field_head f @ '' kB'' @ r) = (field_val f, '' kB'' @ r)"
proof -
  obtain name sp v where f: "f = (name, sp, v)" by (cases f)
  note ok = assms(1) [unfolded f field_ok_def prod.case]
  have "skip_token (ws @ field_head f @ '' kB'' @ r) = sp @ show_int v @ '' kB'' @ r"
    using scan_word_field [OF assms(1) [unfolded f] assms(2)] by (simp add: scan_word_def skip_token_def Let_def f)
  moreover have "scan_int (sp @ show_int v @ '' kB'' @ r) = Some (v, '' kB'' @ r)"
    by (rule scan_int_show [OF _ kb_no_digit]) (use ok in blast)
  ultimately show ?thesis using ok by (simp add: next_number_def strtoul_def field_val_def f to_int32_small)
qed

lemma to_newline_line: "nl \<notin> set l \<Longrightarrow> to_newline (l @ nl # r) = Some (nl # r)"
  by (simp add: to_newline_def strchr_first)

lemma skip_lines_field:
  assumes "field_ok f"
  shows "skip_lines (Suc n) (nl # field_head f @ '' kB'' @ nl # r) = skip_lines n (nl # r)"
  using to_newline_line [OF field_no_nl [OF assms], of r] by simp

lemma skip_lines_fields:
  "\<forall>f\<in>set fs. field_ok f \<Longrightarrow> skip_lines (length fs) (nl # field_text fs @ r) = Some (nl # r)"
proof (induction fs)
  case (Cons f fs)
  then show ?case using skip_lines_field [of f "length fs" "field_text fs @ r"] by simp
qed simp

lemma next_line_field:
  assumes "field_ok f"
  shows "next_line ('' kB'' @ nl # field_head f @ '' kB'' @ r) = Some (field_val f, '' kB'' @ r)"
proof -
  have "to_newline ('' kB'' @ nl # field_head f @ '' kB'' @ r) = Some (nl # field_head f @ '' kB'' @ r)"
    by (rule to_newline_line) simp
  then show ?thesis using next_number_field [OF assms, of "[nl]" r] by (simp add: next_line_def nl_space)
qed

lemma kb_skip: "skip_lines (Suc n) ('' kB'' @ nl # r) = skip_lines n (nl # r)"
  using to_newline_line [of "''kB''" r] by simp

section \<open>Properties\<close>

lemma four_lines:
  assumes "field_ok a" "field_ok b" "field_ok c" "field_ok d"
  shows "(let (tm, p) = next_number (field_text [a, b, c, d] @ r) in do {
       (fm, p) \<leftarrow> next_line p; (bm, p) \<leftarrow> next_line p; (cm, p) \<leftarrow> next_line p; g tm fm bm cm p })
     = g (field_val a) (field_val b) (field_val c) (field_val d) ('' kB'' @ nl # r)"
  using next_number_field [OF assms(1), of "[]" "nl # field_text [b, c, d] @ r"] next_line_field [OF assms(2), of "nl # field_text [c, d] @ r"]
    next_line_field [OF assms(3), of "nl # field_text [d] @ r"] next_line_field [OF assms(4), of "nl # r"]
  by simp

lemma last_lines:
  assumes "field_ok a" "field_ok b"
  shows "(let (ts, p) = next_number (nl # field_text [a, b] @ r) in do { (fs, p) \<leftarrow> next_line p; g ts fs })
    = g (field_val a) (field_val b)"
  using next_number_field [OF assms(1), of "[nl]" "nl # field_text [b] @ r"] next_line_field [OF assms(2), of "nl # r"]
  by (simp add: nl_space)

text \<open>
  \<open>GetSysMem\<close> returns the numbers of the lines 1 to 4, 12 and 13 of \<open>/proc/meminfo\<close>, whatever the names of the
  fields in these lines are.
\<close>

theorem get_sys_mem_reads_by_position:
  assumes "fs ''/proc/meminfo'' = Some (field_text ls @ rest)" "length ls = 13" "\<forall>f\<in>set ls. field_ok f"
    and "length (field_text ls) \<le> 4096"
  shows "GetSysMem fs = Some (field_val (ls ! 0),
    \<lparr>Total = field_val (ls ! 0), Used = field_val (ls ! 0) - field_val (ls ! 1), Free = field_val (ls ! 1),
     Cached = field_val (ls ! 2), SwapTotal = field_val (ls ! 11), SwapUsed = field_val (ls ! 11) - field_val (ls ! 12),
     SwapFree = field_val (ls ! 12), SwapCached = field_val (ls ! 3)\<rparr>)"
proof -
  obtain a b c d ms x y where ls: "ls = [a, b, c, d] @ ms @ [x, y]" "length ms = 7"
  proof -
    have "ls = take 4 ls @ take 7 (drop 4 ls) @ drop 11 ls" by (simp add: take_drop [symmetric] add.commute flip: append.assoc take_add)
    moreover obtain a b c d where "take 4 ls = [a, b, c, d]" using assms(2) by (auto simp: numeral_eq_Suc length_Suc_conv)
    moreover obtain x y where "drop 11 ls = [x, y]" using assms(2) by (auto simp: numeral_eq_Suc length_Suc_conv)
    moreover have "length (take 7 (drop 4 ls)) = 7" using assms(2) by simp
    ultimately show ?thesis using that by metis
  qed
  let ?r = "take (4096 - length (field_text ls)) rest"
  have t: "take 4096 (field_text ls @ rest) = field_text [a, b, c, d] @ field_text ms @ field_text [x, y] @ ?r"
    using assms(4) by (simp only: take_append take_all) (simp add: ls field_text_append)
  have ok: "field_ok a" "field_ok b" "field_ok c" "field_ok d" "field_ok x" "field_ok y" "\<forall>f\<in>set ms. field_ok f"
    using assms(3) by (auto simp: ls)
  have vs: "in_int32 (field_val a - field_val b)" "in_int32 (field_val x - field_val y)"
    using ok by (auto simp: field_ok_def field_val_def in_int32_def split: prod.splits)
  have m: "skip_lines 8 ('' kB'' @ nl # field_text ms @ r) = Some (nl # r)" for r
    using skip_lines_fields [OF ok(7), of r] kb_skip [of 7 "field_text ms @ r"] ls(2) by (simp add: eval_nat_numeral)
  have n: "ls ! 0 = a" "ls ! 1 = b" "ls ! 2 = c" "ls ! 3 = d" "ls ! 11 = x" "ls ! 12 = y"
    using ls by (simp_all add: nth_append numeral_eq_Suc)
  show ?thesis
    unfolding GetSysMem_def assms(1) Option.bind.simps t four_lines [OF ok(1-4)] m last_lines [OF ok(5,6)] n
    using vs by simp
qed

lemma fgets_into_line:
  "nl \<notin> set l \<Longrightarrow> length l + 1 < n \<Longrightarrow> fgets_into n (b, l @ nl # r) = (l @ [nl], r)"
  by (simp add: fgets_into_def fgets_line)

lemma fgets_into_lines:
  assumes "\<forall>l\<in>set ls. nl \<notin> set l \<and> length l < 255" "ls \<noteq> []"
  shows "(fgets_into 256 ^^ length ls) (b, concat (map (\<lambda>l. l @ [nl]) ls) @ r) = (last ls @ [nl], r)"
  using assms
proof (induction ls arbitrary: b)
  case (Cons l ls)
  then show ?case using fgets_into_line [of l 256 b] by (cases "ls = []") (simp_all add: funpow_swap1)
qed simp

text \<open>
  \<open>GetPhyMem\<close> returns the number of the 16th line of \<open>/proc/<pid>/status\<close>, although the comment beside it says that
  \<open>VmRSS\<close> is the 15th; line 13 is only scanned.
\<close>

theorem get_phy_mem_reads_line_16:
  assumes "fs (''/proc/'' @ show_int pid @ ''/status'') = Some (concat (map (\<lambda>l. l @ [nl]) ls) @ field_text [f] @ rest)"
    and "length ls = 15" "\<forall>l\<in>set ls. nl \<notin> set l \<and> length l < 255"
    and "length (fst (scan_word (ls ! 12 @ [nl]))) \<le> 31"
    and "field_ok f" "length (fst f) \<le> 31" "length (field_head f @ '' kB'') < 255"
  shows "GetPhyMem fs pid = Some (field_val f)"
proof -
  let ?lines = "\<lambda>ls. concat (map (\<lambda>l. l @ [nl]) ls)"
  obtain name sp v where f: "f = (name, sp, v)" by (cases f)
  have ls: "?lines ls @ q = ?lines (take 13 ls) @ ?lines (drop 13 ls) @ q" for q
    by (metis append.assoc append_take_drop_id concat_append map_append)
  have l13: "last (take 13 ls) = ls ! 12" using assms(2) by (subst last_conv_nth) auto
  have a: "fgets_into 256 ((fgets_into 256 ^^ 12) ([], ?lines (take 13 ls) @ q)) = (ls ! 12 @ [nl], q)" for q
  proof -
    have "ls \<noteq> []" "\<forall>l\<in>set (take 13 ls). nl \<notin> set l \<and> length l < 255" using assms(2,3) by (auto dest: in_set_takeD)
    then have "(fgets_into 256 ^^ Suc 12) ([], ?lines (take 13 ls) @ q) = (ls ! 12 @ [nl], q)"
      using fgets_into_lines [of "take 13 ls" "[]" q] assms(2) l13 by simp
    then show ?thesis by (simp only: funpow.simps o_apply)
  qed
  have b: "(fgets_into 256 ^^ 2) (x, ?lines (drop 13 ls) @ q) = (last ls @ [nl], q)" for x q
    using fgets_into_lines [of "drop 13 ls" x q] assms(2,3) by (auto dest: in_set_dropD)
  have c: "fgets_into 256 (x, field_text [f] @ rest) = (field_head f @ '' kB'' @ [nl], rest)" for x
    using fgets_into_line [OF field_no_nl [OF assms(5)], of 256 x rest] assms(7) by simp
  have ok: "0 \<le> v" "v < 2 ^ 31" "\<forall>c\<in>set sp. is_space c" "name \<noteq> []" using assms(5) by (auto simp: f field_ok_def)
  have d: "scan_field (field_head f @ '' kB'' @ [nl]) = Some (Some v)"
    using scan_word_field [OF assms(5) [unfolded f], of "[]" "'' kB'' @ [nl]"] scan_int_show [OF ok(3) kb_no_digit [of "[nl]"], of v] ok assms(6)
    by (simp add: scan_field_def f to_int32_small)
  obtain z where e: "scan_field (ls ! 12 @ [nl]) = Some z"
    using assms(4) by (cases "scan_word (ls ! 12 @ [nl])") (auto simp: scan_field_def)
  show ?thesis unfolding GetPhyMem_def assms(1) Option.bind.simps Let_def ls a b c fst_conv d e by (simp add: f field_val_def)
qed

text \<open>
  The share of a process is 0 as long as the product of the number of kilobytes and the page size in kilobytes is
  smaller than the memory: the division is one of integers and comes before the multiplication by 100.
\<close>

theorem mem_usage_rounds_to_zero:
  assumes "GetPhyMem fs pid = Some rss" "GetSysMem fs = Some (tm, info)" "0 \<le> rss" "0 \<le> page" "rss * (page div 1024) < tm" "tm < 2 ^ 31"
  shows "GetPidMemUseage fs page pid = Some (Fin 0)"
proof -
  let ?n = "rss * (page div 1024)"
  have n: "0 \<le> ?n" using assms(3,4) by simp
  then have "tm \<noteq> 0" "\<bar>?n * 100\<bar> < 2 ^ 63" "\<bar>?n\<bar> div \<bar>tm\<bar> = 0" using assms(5,6) by (simp_all add: abs_of_nonneg)
  then show ?thesis by (simp only: GetPidMemUseage_def Let_def assms(1,2) Option.bind.simps prod.case assert_c_bind) (simp add: fl_int_def)
qed

lemma sum_list_update_diff: "i < length a \<Longrightarrow> sum_list (a[i := a ! i + x]) - sum_list a = (x :: 'a :: ring)"
proof (induction a arbitrary: i)
  case (Cons y ys)
  then show ?case by (cases i) (auto simp: algebra_simps)
qed simp

text \<open>
  The shares of \<open>nice\<close> and \<open>idle\<close> are exchanged: on a processor that was idle for the whole time the first is 100 and
  the second 0.
\<close>

theorem cpu_shares_exchange_nice_and_idle:
  assumes "length a = 8" "0 < k" "100 * k < 2 ^ 32"
  shows "Niage (cpu_shares a (a[3 := a ! 3 + word_of_int (100 * k)])) = Fin 100
    \<and> Idage (cpu_shares a (a[3 := a ! 3 + word_of_int (100 * k)])) = Fin 0"
proof -
  define w where "w = (word_of_int (100 * k) :: uint32)"
  have u: "uint w = 100 * k" unfolding w_def using assms(2,3)
    by (simp only: uint_word_of_int) (simp add: take_bit_int_eq_self)
  have r: "rnd 53 (of_int (100 * k)) = of_int (100 * k)" "rnd 53 (of_int k) = of_int k"
    using rnd_int_exact [of "100 * k" 53] rnd_int_exact [of k 53] assms(2,3) by simp_all
  have "fl_int 53 (100 * k) = Fin (of_int (100 * k))" using r(1) by (simp only: fl_int_def)
  then have f: "fl_int 53 (uint w) = Fin (100 * of_int k)" by (simp only: u) simp
  have s: "sum_list (a[3 := a ! 3 + w]) - sum_list a = w" using assms(1) by (intro sum_list_update_diff) simp
  have "cpu_share (Fin (of_int k)) w = Fin 100" "cpu_share (Fin (of_int k)) 0 = Fin 0"
    using assms(2) by (simp_all add: cpu_share_def f) (simp_all add: fl_int_def)
  moreover have "fl_div 53 (Fin (100 * of_int k)) (fl_int 53 100) = Fin (of_int k)" using r by (simp add: fl_int_def)
  ultimately show ?thesis using assms(1) unfolding w_def [symmetric] cpu_shares_def Let_def s f by simp
qed

lemma cpu_shares_exchange_nice_and_idle_witness:
  "Niage (cpu_shares [9, 9, 9, 50, 9, 9, 9, 9] [9, 9, 9, 350, 9, 9, 9, 9]) = Fin 100"
  using cpu_shares_exchange_nice_and_idle [of "[9, 9, 9, 50, 9, 9, 9, 9]" 3] by simp

text \<open>The files of a kernel of today, shortened in their numbers.\<close>

definition demo_meminfo :: "field list" where
  "demo_meminfo = map (\<lambda>(name, v). (name @ '':'', ''     '', v))
    [(''MemTotal'', 9), (''MemFree'', 3), (''MemAvailable'', 7), (''Buffers'', 1), (''Cached'', 4), (''SwapCached'', 0),
     (''Active'', 2), (''Inactive'', 2), (''Active(anon)'', 1), (''Inactive(anon)'', 1), (''Active(file)'', 1),
     (''Inactive(file)'', 6), (''Unevictable'', 5), (''Mlocked'', 0), (''SwapTotal'', 8), (''SwapFree'', 8)]"

lemma show_int_digit: "0 \<le> i \<Longrightarrow> i < 10 \<Longrightarrow> show_int i = [digit (nat i)]"
  by (simp add: show_int_def show_nat.simps [of "nat i"] nat_less_iff)

lemma get_sys_mem_reads_by_position_witness:
  "GetSysMem (\<lambda>path. Some (field_text demo_meminfo))
    = Some (9, \<lparr>Total = 9, Used = 6, Free = 3, Cached = 7, SwapTotal = 6, SwapUsed = 1, SwapFree = 5, SwapCached = 1\<rparr>)"
proof -
  let ?ls = "take 13 demo_meminfo"
  have "field_text demo_meminfo = field_text ?ls @ field_text (drop 13 demo_meminfo)"
    by (simp flip: field_text_append)
  moreover have "\<forall>f\<in>set ?ls. field_ok f" by (simp add: demo_meminfo_def field_ok_def is_space_def)
  moreover have "length (field_text ?ls) \<le> 4096" by (simp add: demo_meminfo_def field_head_def show_int_digit)
  ultimately show ?thesis
    using get_sys_mem_reads_by_position [of "\<lambda>path. Some (field_text demo_meminfo)" ?ls "field_text (drop 13 demo_meminfo)"]
    by (simp add: demo_meminfo_def field_val_def)
qed

definition demo_status :: "string list" where
  "demo_status = ''Name: a'' # replicate 14 ''Line: 1''"

lemma get_phy_mem_reads_line_16_witness:
  "GetPhyMem (\<lambda>path. Some (concat (map (\<lambda>l. l @ [nl]) demo_status) @ field_text [(''VmRSS:'', ''  '', 8)] @ [])) 7 = Some 8"
  by (subst get_phy_mem_reads_line_16 [of _ 7 demo_status "(''VmRSS:'', ''  '', 8)" "[]", OF refl])
    (auto simp: demo_status_def field_ok_def field_head_def field_val_def is_space_def show_int_digit scan_word_def Let_def numeral_eq_Suc
      split: if_splits)

end
