(* ===== verification/Debug_Line.thy ===== *)
theory Debug_Line
  imports Common "HOL-Library.Char_ord" "HOL-Library.List_Lexorder"
begin

text \<open>
  The line that the macro \<open>DebugPrint\<close> of \<open>common/config.h\<close> writes, with \<open>GetCurrentTimeStr\<close> and
  \<open>GetCurrentProcessID\<close> of \<open>common/config.cpp\<close>. What \<open>gettimeofday\<close>, \<open>localtime_r\<close> and \<open>getpid\<close> return are arguments.
\<close>

section \<open>Numbers with leading zeros\<close>

text \<open>The conversion \<open>%0nd\<close>.\<close>

definition pad0 :: "nat \<Rightarrow> int \<Rightarrow> string" where
  "pad0 n i = (let d = show_nat (nat \<bar>i\<bar>) in
     if i < 0 then CHR ''-'' # replicate (n - 1 - length d) CHR ''0'' @ d else replicate (n - length d) CHR ''0'' @ d)"

section \<open>The time\<close>

record local_time =
  tm_year :: int
  tm_mon :: int
  tm_mday :: int
  tm_hour :: int
  tm_min :: int
  tm_sec :: int
  tv_usec :: int

text \<open>Printed into a buffer of 128 characters; outside Unix the string is empty.\<close>

definition GetCurrentTimeStr :: "bool \<Rightarrow> local_time \<Rightarrow> string" where
  "GetCurrentTimeStr unix t =
     (if unix then take 127 (pad0 4 (tm_year t + 1900) @ ''-'' @ pad0 2 (tm_mon t + 1) @ ''-'' @ pad0 2 (tm_mday t) @ '' ''
        @ pad0 2 (tm_hour t) @ '':'' @ pad0 2 (tm_min t) @ '':'' @ pad0 2 (tm_sec t) @ ''.'' @ pad0 6 (to_int32 (tv_usec t)))
      else [])"

definition GetCurrentProcessID :: "bool \<Rightarrow> int \<Rightarrow> int" where
  "GetCurrentProcessID unix pid = (if unix then pid else 0)"

definition P_empty :: string where
  "P_empty = newline"

section \<open>The line\<close>

text \<open>
  \<open>tid\<close> and \<open>coro\<close> are the results of \<open>GetCurrentThreadID\<close> and \<open>GetCurrentCoroID\<close>, \<open>file\<close>, \<open>line\<close> and \<open>func\<close> say where the macro
  is used, and \<open>msg\<close> is the formatted message. \<open>%06d\<close> reads the unsigned \<open>coro\<close> as a signed number.
\<close>

definition debug_line :: "bool \<Rightarrow> local_time \<Rightarrow> int \<Rightarrow> int \<Rightarrow> uint32 \<Rightarrow> string \<Rightarrow> int \<Rightarrow> string \<Rightarrow> string \<Rightarrow> string" where
  "debug_line unix t pid tid coro file line func msg =
     ''['' @ GetCurrentTimeStr unix t @ ''][''  @ pad0 5 (GetCurrentProcessID unix pid) @ ''][''
       @ pad0 4 tid @ ''][''  @ pad0 6 (sint coro) @ '']'' @ BaseFile file @ '':'' @ show_int line @ '':('' @ func @ '')''
       @ [char_of (9::nat)] @ '' '' @ msg @ newline"

section \<open>Numbers of a fixed width\<close>

primrec fixed :: "nat \<Rightarrow> nat \<Rightarrow> string" where
  "fixed 0 k = []"
| "fixed (Suc n) k = fixed n (k div 10) @ [digit (k mod 10)]"

lemma length_fixed [simp]: "length (fixed n k) = n"
  by (induction n arbitrary: k) auto

lemma fixed_0: "fixed n 0 = replicate n CHR ''0''"
  by (induction n) (auto simp: digit_def replicate_append_same)

lemma show_nat_fixed: "k < 10 ^ n \<Longrightarrow> 0 < n \<Longrightarrow> length (show_nat k) \<le> n \<and> replicate (n - length (show_nat k)) CHR ''0'' @ show_nat k = fixed n k"
proof (induction n arbitrary: k)
  case (Suc n)
  show ?case
  proof (cases "k < 10")
    case True
    then show ?thesis by (simp add: show_nat.simps [of k] fixed_0)
  next
    case False
    then have "0 < n" "k div 10 < 10 ^ n" using Suc.prems by (cases n; simp add: less_mult_imp_div_less)+
    then show ?thesis using Suc.IH [of "k div 10"] False by (simp add: show_nat.simps [of k])
  qed
qed simp

lemma pad0_fixed: "0 \<le> i \<Longrightarrow> i < 10 ^ n \<Longrightarrow> 0 < n \<Longrightarrow> pad0 n i = fixed n (nat i)"
  using show_nat_fixed [of "nat i" n] by (simp add: pad0_def Let_def nat_less_iff)

lemma append_less_append:
  "length u = length v \<Longrightarrow> u @ x < v @ y \<longleftrightarrow> u < v \<or> u = v \<and> x < (y :: 'a :: linorder list)"
  by (induction u v rule: list_induct2) auto

lemma digit_less: "d < 10 \<Longrightarrow> e < 10 \<Longrightarrow> digit d < digit e \<longleftrightarrow> d < e"
  by (simp add: less_char_def of_char_digit)

lemma digit_eq: "d < 10 \<Longrightarrow> e < 10 \<Longrightarrow> digit d = digit e \<longleftrightarrow> d = e"
  by (metis digit_val_digit)

lemma div_mod_less:
  "(k div 10 < l div 10 \<or> k div 10 = l div 10 \<and> k mod 10 < l mod 10) \<longleftrightarrow> k < (l :: nat)"
  "k div 10 = l div 10 \<and> k mod 10 = l mod 10 \<longleftrightarrow> k = l"
proof -
  have "(a < b \<or> a = b \<and> c < d) \<longleftrightarrow> 10 * a + c < 10 * b + d" "a = b \<and> c = d \<longleftrightarrow> 10 * a + c = 10 * b + d"
    if "c < 10" "d < 10" for a b c d :: nat
    using that by presburger+
  from this [of "k mod 10" "l mod 10" "k div 10" "l div 10"]
  show "(k div 10 < l div 10 \<or> k div 10 = l div 10 \<and> k mod 10 < l mod 10) \<longleftrightarrow> k < l"
    "k div 10 = l div 10 \<and> k mod 10 = l mod 10 \<longleftrightarrow> k = l"
    by (simp_all only: mult_div_mod_eq mod_less_divisor zero_less_numeral)
qed

lemma fixed_order:
  "k < 10 ^ n \<Longrightarrow> l < 10 ^ n \<Longrightarrow> (fixed n k < fixed n l \<longleftrightarrow> k < l) \<and> (fixed n k = fixed n l \<longleftrightarrow> k = l)"
proof (induction n arbitrary: k l)
  case (Suc n)
  have d: "k div 10 < 10 ^ n" "l div 10 < 10 ^ n" using Suc.prems by (simp_all add: less_mult_imp_div_less)
  note I = Suc.IH [OF d]
  have "fixed (Suc n) k < fixed (Suc n) l \<longleftrightarrow> k div 10 < l div 10 \<or> k div 10 = l div 10 \<and> k mod 10 < l mod 10"
    unfolding fixed.simps append_less_append [OF length_fixed [THEN trans, OF length_fixed [symmetric]]]
    by (simp only: I Cons_less_Cons digit_less mod_less_divisor zero_less_numeral) simp
  moreover have "fixed (Suc n) k = fixed (Suc n) l \<longleftrightarrow> k div 10 = l div 10 \<and> k mod 10 = l mod 10"
    by (simp only: fixed.simps append1_eq_conv I digit_eq mod_less_divisor zero_less_numeral)
  ultimately show ?case unfolding div_mod_less by blast
qed simp

lemma fixed_numeral: "fixed (numeral w) k = fixed (pred_numeral w) (k div 10) @ [digit (k mod 10)]"
  using fixed.simps(2) [of "pred_numeral w" k] by (simp only: numeral_eq_Suc [of w])

section \<open>Properties\<close>

definition time_ok :: "local_time \<Rightarrow> bool" where
  "time_ok t \<longleftrightarrow> 0 \<le> tm_year t + 1900 \<and> tm_year t + 1900 < 10000 \<and> 0 \<le> tm_mon t \<and> tm_mon t < 12
     \<and> 1 \<le> tm_mday t \<and> tm_mday t \<le> 31 \<and> 0 \<le> tm_hour t \<and> tm_hour t < 24 \<and> 0 \<le> tm_min t \<and> tm_min t < 60
     \<and> 0 \<le> tm_sec t \<and> tm_sec t \<le> 60 \<and> 0 \<le> tv_usec t \<and> tv_usec t < 1000000"

definition time_fields :: "local_time \<Rightarrow> int list" where
  "time_fields t = [tm_year t, tm_mon t, tm_mday t, tm_hour t, tm_min t, tm_sec t, tv_usec t]"

lemma time_str_fixed:
  "time_ok t \<Longrightarrow> GetCurrentTimeStr True t = fixed 4 (nat (tm_year t + 1900)) @ CHR ''-'' # fixed 2 (nat (tm_mon t + 1)) @ CHR ''-''
     # fixed 2 (nat (tm_mday t)) @ CHR '' '' # fixed 2 (nat (tm_hour t)) @ CHR '':'' # fixed 2 (nat (tm_min t)) @ CHR '':''
     # fixed 2 (nat (tm_sec t)) @ CHR ''.'' # fixed 6 (nat (tv_usec t))"
  by (simp add: GetCurrentTimeStr_def time_ok_def pad0_fixed to_int32_small)

text \<open>
  The time strings of the debug output have the same length of 26 characters and sort like the times: comparing two
  of them character by character compares year, month, day, hour, minute, second and microsecond.
\<close>

theorem time_str_sorts:
  assumes "time_ok a" "time_ok b"
  shows "length (GetCurrentTimeStr True a) = 26
    \<and> (GetCurrentTimeStr True a < GetCurrentTimeStr True b \<longleftrightarrow> time_fields a < time_fields b)
    \<and> (GetCurrentTimeStr True a = GetCurrentTimeStr True b \<longleftrightarrow> a = b)"
proof -
  have f: "(fixed n (nat i) < fixed n (nat j) \<longleftrightarrow> i < j) \<and> (fixed n (nat i) = fixed n (nat j) \<longleftrightarrow> i = j)"
    if "0 \<le> i" "0 \<le> j" "i < 10 ^ n" "j < 10 ^ n" for n i j
    using fixed_order [of "nat i" n "nat j"] that by (auto simp: nat_less_iff)
  note A = assms [unfolded time_ok_def]
  have y: "(fixed 4 (nat (tm_year a + 1900)) < fixed 4 (nat (tm_year b + 1900)) \<longleftrightarrow> tm_year a < tm_year b)
      \<and> (fixed 4 (nat (tm_year a + 1900)) = fixed 4 (nat (tm_year b + 1900)) \<longleftrightarrow> tm_year a = tm_year b)"
    using f [of "tm_year a + 1900" "tm_year b + 1900" 4] A by simp
  have mo: "(fixed 2 (nat (tm_mon a + 1)) < fixed 2 (nat (tm_mon b + 1)) \<longleftrightarrow> tm_mon a < tm_mon b)
      \<and> (fixed 2 (nat (tm_mon a + 1)) = fixed 2 (nat (tm_mon b + 1)) \<longleftrightarrow> tm_mon a = tm_mon b)"
    using f [of "tm_mon a + 1" "tm_mon b + 1" 2] A by (simp add: add1_zle_eq)
  have d: "(fixed 2 (nat (tm_mday a)) < fixed 2 (nat (tm_mday b)) \<longleftrightarrow> tm_mday a < tm_mday b)
      \<and> (fixed 2 (nat (tm_mday a)) = fixed 2 (nat (tm_mday b)) \<longleftrightarrow> tm_mday a = tm_mday b)"
    using f [of "tm_mday a" "tm_mday b" 2] A by simp
  have h: "(fixed 2 (nat (tm_hour a)) < fixed 2 (nat (tm_hour b)) \<longleftrightarrow> tm_hour a < tm_hour b)
      \<and> (fixed 2 (nat (tm_hour a)) = fixed 2 (nat (tm_hour b)) \<longleftrightarrow> tm_hour a = tm_hour b)"
    using f [of "tm_hour a" "tm_hour b" 2] A by simp
  have mi: "(fixed 2 (nat (tm_min a)) < fixed 2 (nat (tm_min b)) \<longleftrightarrow> tm_min a < tm_min b)
      \<and> (fixed 2 (nat (tm_min a)) = fixed 2 (nat (tm_min b)) \<longleftrightarrow> tm_min a = tm_min b)"
    using f [of "tm_min a" "tm_min b" 2] A by simp
  have s: "(fixed 2 (nat (tm_sec a)) < fixed 2 (nat (tm_sec b)) \<longleftrightarrow> tm_sec a < tm_sec b)
      \<and> (fixed 2 (nat (tm_sec a)) = fixed 2 (nat (tm_sec b)) \<longleftrightarrow> tm_sec a = tm_sec b)"
    using f [of "tm_sec a" "tm_sec b" 2] A by simp
  have u: "(fixed 6 (nat (tv_usec a)) < fixed 6 (nat (tv_usec b)) \<longleftrightarrow> tv_usec a < tv_usec b)
      \<and> (fixed 6 (nat (tv_usec a)) = fixed 6 (nat (tv_usec b)) \<longleftrightarrow> tv_usec a = tv_usec b)"
    using f [of "tv_usec a" "tv_usec b" 6] A by simp
  have eq: "a = b \<longleftrightarrow> tm_year a = tm_year b \<and> tm_mon a = tm_mon b \<and> tm_mday a = tm_mday b \<and> tm_hour a = tm_hour b
      \<and> tm_min a = tm_min b \<and> tm_sec a = tm_sec b \<and> tv_usec a = tv_usec b"
    by (cases a; cases b) simp
  show ?thesis
    unfolding time_str_fixed [OF assms(1)] time_str_fixed [OF assms(2)] time_fields_def eq
    by (simp add: append_less_append y mo d h mi s u)
qed

lemma time_str_sorts_witness:
  "GetCurrentTimeStr True \<lparr>tm_year = 120, tm_mon = 1, tm_mday = 9, tm_hour = 8, tm_min = 7, tm_sec = 6, tv_usec = 45\<rparr>
     = ''2020-02-09 08:07:06.000045''
   \<and> GetCurrentTimeStr True \<lparr>tm_year = 120, tm_mon = 1, tm_mday = 9, tm_hour = 8, tm_min = 7, tm_sec = 6, tv_usec = 45\<rparr>
     < GetCurrentTimeStr True \<lparr>tm_year = 120, tm_mon = 9, tm_mday = 1, tm_hour = 0, tm_min = 0, tm_sec = 0, tv_usec = 0\<rparr>"
proof
  let ?a = "\<lparr>tm_year = 120, tm_mon = 1, tm_mday = 9, tm_hour = 8, tm_min = 7, tm_sec = 6, tv_usec = 45\<rparr>"
  let ?b = "\<lparr>tm_year = 120, tm_mon = 9, tm_mday = 1, tm_hour = 0, tm_min = 0, tm_sec = 0, tv_usec = 0\<rparr>"
  have ok: "time_ok ?a" "time_ok ?b" by (simp_all add: time_ok_def)
  show "GetCurrentTimeStr True ?a = ''2020-02-09 08:07:06.000045''"
    unfolding time_str_fixed [OF ok(1)] by (simp add: fixed_numeral digit_def)
  show "GetCurrentTimeStr True ?a < GetCurrentTimeStr True ?b"
    using time_str_sorts [OF ok] by (simp add: time_fields_def)
qed

end
