(* ===== verification/Ring_Buffer.thy ===== *)
theory Ring_Buffer
  imports Prelude
begin

text \<open>
  \<open>RingBuffer\<close> of \<open>sync/ringbuffer.h\<close>: the storage of a bounded channel. \<open>write_\<close> and \<open>read_\<close>
  count the elements ever stored and taken, in \<open>size_t\<close>; a slot is reached modulo
  \<open>capacity_ + 1\<close>. Slots are \<open>Some\<close> when they hold a constructed element and \<open>None\<close> when they are
  raw memory. \<open>malloc\<close> is taken to succeed.
\<close>

section \<open>State and operations\<close>

record 'a ringbuffer =
  buf :: "'a option list"
  capacity :: size_t
  write_i :: size_t
  read_i :: size_t

definition ring_new :: "size_t \<Rightarrow> 'a ringbuffer" where
  "ring_new cap = \<lparr>buf = replicate (unat (cap + 1)) None, capacity = cap, write_i = 0, read_i = 0\<rparr>"

definition ring_size :: "'a ringbuffer \<Rightarrow> size_t" where
  "ring_size r = write_i r - read_i r"

definition ring_empty :: "'a ringbuffer \<Rightarrow> bool" where
  "ring_empty r \<longleftrightarrow> ring_size r = 0"

definition ring_full :: "'a ringbuffer \<Rightarrow> bool" where
  "ring_full r \<longleftrightarrow> ring_size r = capacity r"

definition pwrite :: "'a ringbuffer \<Rightarrow> size_t" where
  "pwrite r = write_i r mod (capacity r + 1)"

definition pread :: "'a ringbuffer \<Rightarrow> size_t" where
  "pread r = read_i r mod (capacity r + 1)"

text \<open>
  \<open>push\<close> constructs in the slot at \<open>pwrite\<close>; when \<open>++write_\<close> wraps to 0 both counters are moved
  to keep \<open>write_ - read_\<close>. A slot outside the buffer has no result.
\<close>

definition ring_push :: "'a \<Rightarrow> 'a ringbuffer \<Rightarrow> (bool \<times> 'a ringbuffer) option" where
  "ring_push x r =
     (if ring_full r then Some (False, r)
      else do {
        assert_c (capacity r + 1 \<noteq> 0);
        assert_c (unat (pwrite r) < length (buf r));
        let r = r\<lparr>buf := (buf r)[unat (pwrite r) := Some x]\<rparr>;
        let r = r\<lparr>write_i := write_i r + 1\<rparr>;
        let r = (if write_i r = 0
                 then r\<lparr>write_i := capacity r + 1, read_i := read_i r + (capacity r + 1)\<rparr>
                 else r);
        Some (True, r) })"

text \<open>\<open>pop\<close> moves the element out and destroys the slot; reading raw memory has no result.\<close>

definition ring_pop :: "'a ringbuffer \<Rightarrow> ('a option \<times> 'a ringbuffer) option" where
  "ring_pop r =
     (if ring_empty r then Some (None, r)
      else do {
        assert_c (capacity r + 1 \<noteq> 0);
        assert_c (unat (pread r) < length (buf r));
        x \<leftarrow> buf r ! unat (pread r);
        let r = r\<lparr>buf := (buf r)[unat (pread r) := None]\<rparr>;
        Some (Some x, r\<lparr>read_i := read_i r + 1\<rparr>) })"

text \<open>The destructor pops until the buffer is empty: the elements it destroys, in order.\<close>

partial_function (option) ring_destroy :: "'a ringbuffer \<Rightarrow> 'a list option" where
  "ring_destroy r =
     Option.bind (ring_pop r) (\<lambda>p. case fst p of
        None \<Rightarrow> Some []
      | Some x \<Rightarrow> Option.bind (ring_destroy (snd p)) (\<lambda>xs. Some (x # xs)))"

section \<open>What a buffer represents\<close>

text \<open>The physical slot of the \<open>i\<close>-th element.\<close>

definition slot :: "'a ringbuffer \<Rightarrow> nat \<Rightarrow> nat" where
  "slot r i = (unat (read_i r) + i) mod (unat (capacity r) + 1)"

definition ring_ok :: "'a ringbuffer \<Rightarrow> 'a list \<Rightarrow> bool" where
  "ring_ok r xs \<longleftrightarrow>
     capacity r + 1 \<noteq> 0 \<and> length (buf r) = unat (capacity r) + 1
     \<and> length xs \<le> unat (capacity r) \<and> unat (write_i r) = unat (read_i r) + length xs
     \<and> (\<forall>i<length xs. buf r ! slot r i = Some (xs ! i))"

lemma unat_cap_Suc: "capacity r + 1 \<noteq> 0 \<Longrightarrow> unat (capacity r + 1) = unat (capacity r) + 1"
  by (simp add: unatSuc add.commute)

lemma ring_ok_new: "cap + 1 \<noteq> 0 \<Longrightarrow> ring_ok (ring_new cap) []"
  using unat_cap_Suc [of "ring_new cap"] by (simp add: ring_ok_def ring_new_def)

lemma ring_ok_size: "ring_ok r xs \<Longrightarrow> unat (ring_size r) = length xs"
  by (simp add: ring_ok_def ring_size_def unat_sub word_le_nat_alt)

lemma ring_ok_empty: "ring_ok r xs \<Longrightarrow> ring_empty r \<longleftrightarrow> xs = []"
  using ring_ok_size [of r xs] by (auto simp: ring_empty_def unat_eq_0)

lemma ring_ok_full: "ring_ok r xs \<Longrightarrow> ring_full r \<longleftrightarrow> length xs = unat (capacity r)"
  using ring_ok_size [of r xs] by (auto simp: ring_full_def word_unat_eq_iff)

lemma ring_ok_slots:
  assumes "ring_ok r xs"
  shows "unat (pwrite r) = slot r (length xs)" "unat (pread r) = slot r 0"
    "slot r i < length (buf r)"
  using assms unat_cap_Suc [of r]
  by (simp_all add: ring_ok_def pwrite_def pread_def slot_def unat_mod)

lemma slot_inj:
  assumes "i \<le> unat (capacity r)" "j \<le> unat (capacity r)" "slot r i = slot r j"
  shows "i = j"
proof -
  let ?m = "unat (capacity r) + 1"
  have *: "i = j" if "i \<le> j" "j \<le> unat (capacity r)" "slot r i = slot r j" for i j
  proof -
    have "?m dvd j - i" using that(1,3) unfolding slot_def
      by (metis add_diff_cancel_left mod_eq_dvd_iff_nat nat_add_left_cancel_le)
    moreover have "j - i < ?m" using that by simp
    ultimately show "i = j" using that(1) by (meson diff_is_0_eq dvd_imp_le le_antisym not_gr_zero not_less)
  qed
  show ?thesis using *[of i j] *[of j i] assms by (cases "i \<le> j") auto
qed

text \<open>
  A push stores at the end. When \<open>write_\<close> wraps, the slots stay in place only if \<open>capacity_ + 1\<close>
  divides \<open>2 ^ 64\<close>.
\<close>

definition wrap_safe :: "'a ringbuffer \<Rightarrow> bool" where
  "wrap_safe r \<longleftrightarrow> write_i r + 1 \<noteq> 0 \<or> (unat (capacity r) + 1) dvd 2 ^ 64"

lemma ring_push_full: "ring_ok r xs \<Longrightarrow> length xs = unat (capacity r) \<Longrightarrow> ring_push x r = Some (False, r)"
  by (simp add: ring_push_def ring_ok_full)

lemma ring_push_ok:
  assumes ok: "ring_ok r xs" and room: "length xs < unat (capacity r)" and safe: "wrap_safe r"
  shows "\<exists>r'. ring_push x r = Some (True, r') \<and> ring_ok r' (xs @ [x]) \<and> capacity r' = capacity r
    \<and> (write_i r + 1 \<noteq> 0 \<longrightarrow> write_i r' = write_i r + 1)"
proof -
  note S = ring_ok_slots [OF ok]
  have O: "capacity r + 1 \<noteq> 0" "length (buf r) = unat (capacity r) + 1"
    "unat (write_i r) = unat (read_i r) + length xs"
    "\<And>i. i < length xs \<Longrightarrow> buf r ! slot r i = Some (xs ! i)"
    using ok by (auto simp: ring_ok_def)
  have nf: "\<not> ring_full r" using ring_ok_full [OF ok] room by simp
  let ?b = "(buf r)[slot r (length xs) := Some x]"
  have b: "?b ! slot r i = Some ((xs @ [x]) ! i)" if "i < Suc (length xs)" for i
  proof (cases "i = length xs")
    case True
    then show ?thesis using S(3) by simp
  next
    case False
    then have "slot r i \<noteq> slot r (length xs)" using slot_inj [of i r "length xs"] that room by auto
    then show ?thesis using O(4) that False by (simp add: nth_append)
  qed
  show ?thesis
  proof (cases "write_i r + 1 = 0")
    case False
    define r' where "r' = r\<lparr>buf := ?b, write_i := write_i r + 1\<rparr>"
    have "ring_push x r = Some (True, r')"
      using nf O S False by (simp add: ring_push_def r'_def Let_def)
    moreover have "unat (write_i r + 1) = unat (write_i r) + 1" using False by (simp add: unatSuc add.commute)
    then have "ring_ok r' (xs @ [x])"
      using O room b by (simp add: ring_ok_def r'_def slot_def)
    ultimately show ?thesis using False by (auto simp: r'_def)
  next
    case True
    let ?m = "unat (capacity r) + 1"
    have dvd: "?m dvd 2 ^ 64" using safe True by (simp add: wrap_safe_def)
    define r' where "r' = r\<lparr>buf := ?b, write_i := capacity r + 1, read_i := read_i r + (capacity r + 1)\<rparr>"
    have "ring_push x r = Some (True, r')"
      using nf O S True by (simp add: ring_push_def r'_def Let_def)
    moreover have "ring_ok r' (xs @ [x])"
    proof -
      have "write_i r = - 1" using True by (simp add: eq_neg_iff_add_eq_0)
      then have w: "unat (write_i r) + 1 = 2 ^ 64" by (simp add: unsigned_minus_1_eq_mask mask_eq_exp_minus_1)
      have rd: "unat (read_i r) + (length xs + 1) = 2 ^ 64" using O(3) w by simp
      have c64: "?m < 2 ^ 64" using unat_cap_Suc [OF O(1)] unat_lt_64 [of "capacity r + 1"] by simp
      have rd': "unat (read_i r + (capacity r + 1)) = unat (read_i r) + ?m - 2 ^ 64"
        using unat_cap_Suc [OF O(1)] rd c64 room by (simp add: unat_word_ariths mod_if)
      have "slot r' i = slot r i" for i
      proof -
        have "(unat (read_i r) + ?m - 2 ^ 64 + i) mod ?m = (unat (read_i r) + i) mod ?m"
        proof -
          obtain k where k: "2 ^ 64 = ?m * k" using dvd by (rule dvdE)
          have "unat (read_i r) + ?m - 2 ^ 64 + i + 2 ^ 64 = unat (read_i r) + i + ?m"
            using rd room by simp
          then have "(unat (read_i r) + ?m - 2 ^ 64 + i + ?m * k) mod ?m = (unat (read_i r) + i + ?m) mod ?m"
            by (simp only: k)
          then show ?thesis by (simp only: mod_mult_self2 mod_add_self2)
        qed
        then show ?thesis using rd' by (simp add: slot_def r'_def)
      qed
      then show ?thesis
        using O room b rd rd' unat_cap_Suc [OF O(1)] by (simp add: ring_ok_def r'_def)
    qed
    ultimately show ?thesis using True by (auto simp: r'_def)
  qed
qed

lemma ring_pop_empty: "ring_ok r [] \<Longrightarrow> ring_pop r = Some (None, r)"
  by (simp add: ring_pop_def ring_ok_empty)

lemma ring_pop_ok:
  assumes ok: "ring_ok r (x # xs)"
  shows "\<exists>r'. ring_pop r = Some (Some x, r') \<and> ring_ok r' xs \<and> capacity r' = capacity r
    \<and> write_i r' = write_i r"
proof -
  note S = ring_ok_slots [OF ok]
  have O: "capacity r + 1 \<noteq> 0" "length (buf r) = unat (capacity r) + 1"
    "unat (write_i r) = unat (read_i r) + length (x # xs)" "length (x # xs) \<le> unat (capacity r)"
    "\<And>i. i < length (x # xs) \<Longrightarrow> buf r ! slot r i = Some ((x # xs) ! i)"
    using ok by (auto simp: ring_ok_def)
  define r' where "r' = r\<lparr>buf := (buf r)[slot r 0 := None], read_i := read_i r + 1\<rparr>"
  have "\<not> ring_empty r" using ring_ok_empty [OF ok] by simp
  then have "ring_pop r = Some (Some x, r')"
    using O(1) O(5) [of 0] S by (simp add: ring_pop_def r'_def Let_def)
  moreover have "read_i r < write_i r" using O(3) by (simp add: word_less_nat_alt)
  then have rd: "unat (read_i r + 1) = Suc (unat (read_i r))" by (rule word_Suc_unat)
  have "ring_ok r' xs"
  proof -
    have "slot r' i = slot r (Suc i)" for i using rd by (simp add: slot_def r'_def)
    moreover have "(buf r)[slot r 0 := None] ! slot r (Suc i) = Some (xs ! i)" if "i < length xs" for i
      using slot_inj [of "Suc i" r 0] that O(4) O(5) [of "Suc i"]
      by (subst nth_list_update_neq) auto
    ultimately show ?thesis using O rd by (simp add: ring_ok_def r'_def)
  qed
  ultimately show ?thesis by (auto simp: r'_def)
qed

lemma ring_destroy_ok: "ring_ok r xs \<Longrightarrow> ring_destroy r = Some xs"
proof (induction xs arbitrary: r)
  case Nil
  then show ?case by (subst ring_destroy.simps) (simp add: ring_pop_empty)
next
  case (Cons x xs)
  obtain r' where "ring_pop r = Some (Some x, r')" "ring_ok r' xs" using ring_pop_ok [OF Cons.prems] by auto
  then show ?case using Cons.IH by (subst ring_destroy.simps) simp
qed


section \<open>Refinement: the buffer is a bounded FIFO list\<close>

text \<open>
  The specification holds the capacity, the elements and the number of pushes before \<open>write_\<close>
  would wrap (\<open>None\<close> once they are used up).
\<close>

datatype 'a rop = RPush 'a | RPop | RCount | RFull

datatype 'a rres = RTook "'a option" | RStored bool | RHas size_t

fun rstep :: "'a rop \<Rightarrow> 'a ringbuffer \<Rightarrow> ('a rres \<times> 'a ringbuffer) option" where
  "rstep (RPush x) r = map_option (apfst RStored) (ring_push x r)"
| "rstep RPop r = map_option (apfst RTook) (ring_pop r)"
| "rstep RCount r = Some (RHas (ring_size r), r)"
| "rstep RFull r = Some (RStored (ring_full r), r)"

fun rspec :: "'a rop \<Rightarrow> nat \<times> 'a list \<times> nat \<Rightarrow> ('a rres \<times> nat \<times> 'a list \<times> nat) option" where
  "rspec (RPush x) (c, xs, n) =
     (if length xs = c then Some (RStored False, c, xs, n)
      else case n of 0 \<Rightarrow> None | Suc m \<Rightarrow> Some (RStored True, c, xs @ [x], m))"
| "rspec RPop (c, [], n) = Some (RTook None, c, [], n)"
| "rspec RPop (c, x # xs, n) = Some (RTook (Some x), c, xs, n)"
| "rspec RCount (c, xs, n) = Some (RHas (of_nat (length xs)), c, xs, n)"
| "rspec RFull (c, xs, n) = Some (RStored (length xs = c), c, xs, n)"

definition ring_rep :: "'a ringbuffer \<Rightarrow> nat \<times> 'a list \<times> nat \<Rightarrow> bool" where
  "ring_rep r a \<longleftrightarrow> (case a of (c, xs, n) \<Rightarrow>
     ring_ok r xs \<and> unat (capacity r) = c \<and> unat (write_i r) + n < 2 ^ 64)"

lemma no_wrap:
  assumes "unat (w :: size_t) + Suc n < 2 ^ 64"
  shows "w + 1 \<noteq> 0 \<and> unat (w + 1) = Suc (unat w)"
proof -
  have "unat (w + 1) = Suc (unat w)" using assms by (simp add: unat_word_ariths)
  then show ?thesis by (metis nat.distinct(1) unat_0)
qed

lemma ring_rep_push:
  assumes "ring_rep r (c, xs, Suc n)" "length xs \<noteq> c"
  shows "\<exists>r'. ring_push x r = Some (True, r') \<and> ring_rep r' (c, xs @ [x], n)"
proof -
  have R: "ring_ok r xs" "unat (capacity r) = c" "unat (write_i r) + Suc n < 2 ^ 64"
    using assms(1) by (auto simp: ring_rep_def)
  have "length xs < unat (capacity r)" using R assms(2) by (simp add: ring_ok_def)
  moreover have "wrap_safe r" using no_wrap [OF R(3)] by (simp add: wrap_safe_def)
  ultimately obtain r' where "ring_push x r = Some (True, r')" "ring_ok r' (xs @ [x])"
    "capacity r' = capacity r" "write_i r' = write_i r + 1"
    using ring_push_ok [OF R(1)] no_wrap [OF R(3)] by blast
  then show ?thesis using R no_wrap [OF R(3)] by (auto simp: ring_rep_def)
qed

lemma ring_rep_pop:
  assumes "ring_rep r (c, x # xs, n)"
  shows "\<exists>r'. ring_pop r = Some (Some x, r') \<and> ring_rep r' (c, xs, n)"
  using assms ring_pop_ok [of r x xs] by (auto simp: ring_rep_def)

lemma ring_rep_size: "ring_rep r (c, xs, n) \<Longrightarrow> ring_size r = of_nat (length xs)"
  using ring_ok_size [of r xs] by (auto simp: ring_rep_def) (metis of_nat_unat ucast_id)

lemma ring_sim:
  assumes "ring_rep r a" "rspec x a = Some (res, a')"
  shows "\<exists>r'. rstep x r = Some (res, r') \<and> ring_rep r' a'"
proof -
  obtain c xs n where a: "a = (c, xs, n)" by (cases a)
  have ok: "ring_ok r xs" "unat (capacity r) = c" using assms(1) by (simp_all add: a ring_rep_def)
  show ?thesis
  proof (cases x)
    case (RPush y)
    then show ?thesis using assms ok ring_push_full [OF ok(1), of y] ring_rep_push [of r c xs _ y]
      by (cases n) (fastforce simp: a split: if_splits)+
  next
    case RPop
    then show ?thesis using assms ok ring_pop_empty [of r] ring_rep_pop [of r c _ _ n]
      by (cases xs) (fastforce simp: a)+
  qed (use assms ok ring_rep_size [of r c xs n] ring_ok_full [OF ok(1)] in \<open>auto simp: a\<close>)
qed

interpretation ring: data_refinement ring_rep rstep rspec
  by unfold_locales (rule ring_sim)

section \<open>Properties\<close>

text \<open>
  C22: A ring buffer of capacity \<open>c\<close> behaves as a FIFO list of at most \<open>c\<close> elements over every
  sequence of \<open>push\<close>, \<open>pop\<close>, \<open>size\<close> and \<open>full\<close> calls (up to \<open>2 ^ 64 - 1\<close> pushes): \<open>push\<close> fails
  exactly when \<open>c\<close> elements are stored, \<open>pop\<close> returns them in the order they were pushed and
  fails exactly on the empty buffer, and no call reads raw memory or leaves the buffer.
\<close>

theorem ring_buffer_refines_fifo:
  assumes "ring_rep r (c, xs, n)" and "run rspec ops (c, xs, n) = Some (rs, c', ys, m)"
  shows "\<exists>r'. run rstep ops r = Some (rs, r') \<and> ring_rep r' (c', ys, m)"
  using ring.run_sim [OF assms] .

lemma ring_buffer_refines_fifo_witness:
  "\<exists>r'. run rstep [RPush 5, RPush 6, RPush 7, RPop, RPush 7, RPop, RPop, RPop] (ring_new 2 :: nat ringbuffer)
     = Some ([RStored True, RStored True, RStored False, RTook (Some 5), RStored True,
              RTook (Some 6), RTook (Some 7), RTook None], r')
     \<and> ring_rep r' (2, [], 2)"
proof -
  have "ring_rep (ring_new 2 :: nat ringbuffer) (2, [], 5)"
    using ring_ok_new [of 2, where 'a = nat] by (simp add: ring_rep_def ring_new_def)
  then show ?thesis by (rule ring_buffer_refines_fifo) (simp add: eval_nat_numeral)
qed

text \<open>
  When the 64 bit write counter wraps, the buffer keeps its contents and stores the new
  element correctly if \<open>capacity_ + 1\<close> is a power of two.
\<close>

theorem ring_buffer_wrap_power_of_two:
  assumes "ring_ok r xs" and "length xs < unat (capacity r)" and "unat (capacity r) + 1 = 2 ^ k"
  shows "\<exists>r'. ring_push x r = Some (True, r') \<and> ring_ok r' (xs @ [x])"
proof -
  have "(2::nat) ^ k \<le> 2 ^ 64" using unat_lt_64 [of "capacity r"] assms(3) by linarith
  then have "k \<le> 64" by (rule power_le_imp_le_exp [rotated]) simp
  then have "unat (capacity r) + 1 dvd 2 ^ 64" unfolding assms(3) by (rule le_imp_power_dvd)
  then have "wrap_safe r" by (simp add: wrap_safe_def)
  from ring_push_ok [OF assms(1,2) this] show ?thesis by blast
qed

definition ring_at_wrap :: "nat ringbuffer" where
  "ring_at_wrap = \<lparr>buf = [None, None, Some 7, None], capacity = 3,
     write_i = 2 ^ 64 - 1, read_i = 2 ^ 64 - 2\<rparr>"

lemma ring_buffer_wrap_power_of_two_witness:
  "\<exists>r'. ring_push 8 ring_at_wrap = Some (True, r') \<and> ring_ok r' [7, 8]"
  using ring_buffer_wrap_power_of_two [of ring_at_wrap "[7]" 2 8]
  by (simp add: ring_ok_def ring_at_wrap_def slot_def)

definition ring_at_bad_wrap :: "nat ringbuffer" where
  "ring_at_bad_wrap = \<lparr>buf = [None, None, Some 7], capacity = 2,
     write_i = 2 ^ 64 - 1, read_i = 2 ^ 64 - 2\<rparr>"

definition ring_after_bad_wrap :: "nat ringbuffer" where
  "ring_after_bad_wrap = \<lparr>buf = [Some 8, None, Some 7], capacity = 2, write_i = 3, read_i = 1\<rparr>"

text \<open>
  When \<open>capacity_ + 1\<close> is not a power of two, the adjustment at the wrap moves the read
  position to another slot: a buffer of capacity 2 that holds the one element 7 no longer
  represents its two elements after the next push, and the next \<open>pop\<close> reads raw memory.
\<close>

theorem ring_buffer_wrap_loses_element:
  "ring_ok ring_at_bad_wrap [7]
   \<and> ring_push 8 ring_at_bad_wrap = Some (True, ring_after_bad_wrap)
   \<and> ring_pop ring_after_bad_wrap = None"
  by (simp add: ring_ok_def ring_at_bad_wrap_def ring_after_bad_wrap_def slot_def ring_push_def
      ring_pop_def ring_full_def ring_empty_def ring_size_def pwrite_def pread_def Let_def)

end
