(* ===== verification/Fast_Channel.thy ===== *)
theory Fast_Channel
  imports Ring_Buffer
begin

text \<open>
  \<open>FastChannelImpl\<close> of \<open>sync/fast_channel_impl.h\<close>, the channel behind \<open>sync/channel.h\<close>: a bounded
  buffer (a ring buffer or a list) with a queue of blocked writers and one of blocked readers, which
  are lists here, as the wait queue theory shows \<open>WaitQueue1\<close> to represent. An entry of the queues is
  the task and what its \<open>value_\<close> points to: the value to write, or the variable to read into. Each
  operation runs under the lock of the channel up to the point where it returns or its task waits.
\<close>

section \<open>The buffer\<close>

record 'a chan_buffer =
  chan_capacity :: size_t
  useRingBuffer :: bool
  ringq :: "'a ringbuffer"
  listq :: "'a list"

definition buffer_size :: "'a chan_buffer \<Rightarrow> size_t" where
  "buffer_size b = (if useRingBuffer b then ring_size (ringq b) else of_nat (length (listq b)))"

definition buffer_push :: "'a \<Rightarrow> 'a chan_buffer \<Rightarrow> (bool \<times> 'a chan_buffer) option" where
  "buffer_push t b =
     (if useRingBuffer b then map_option (\<lambda>(r, q). (r, b\<lparr>ringq := q\<rparr>)) (ring_push t (ringq b))
      else if of_nat (length (listq b)) \<ge> chan_capacity b then Some (False, b)
      else Some (True, b\<lparr>listq := listq b @ [t]\<rparr>))"

definition buffer_pop :: "'a chan_buffer \<Rightarrow> ('a option \<times> 'a chan_buffer) option" where
  "buffer_pop b =
     (if useRingBuffer b then map_option (\<lambda>(r, q). (r, b\<lparr>ringq := q\<rparr>)) (ring_pop (ringq b))
      else (case listq b of
              [] \<Rightarrow> Some (None, b)
            | x # xs \<Rightarrow> Some (Some x, b\<lparr>listq := xs\<rparr>)))"

section \<open>State and results\<close>

record 'a chan =
  c_buffer :: "'a chan_buffer"
  closed :: bool
  wq :: "(addr \<times> 'a) list"
  rq :: "addr list"

definition chan_new :: "size_t \<Rightarrow> bool \<Rightarrow> 'a chan option" where
  "chan_new cap useRing = do {
     assert_c (cap < - 1);
     Some \<lparr>c_buffer = \<lparr>chan_capacity = cap, useRingBuffer = useRing, ringq = ring_new (if useRing then cap else 1), listq = []\<rparr>,
       closed = False, wq = [], rq = []\<rparr> }"

text \<open>\<open>Channel\<close> picks the ring buffer below its \<open>choose2\<close>.\<close>

definition Channel_new :: "size_t \<Rightarrow> size_t \<Rightarrow> 'a chan option" where
  "Channel_new cap choose2 = chan_new cap (cap < choose2)"

text \<open>
  A waiting task that is woken: its \<open>success_\<close> and, for a reader, what was written to its variable.
  An operation returns, or its task waits.
\<close>

datatype 'a wake = Wake addr bool "'a option"

datatype 'a chan_result = Returns bool "'a option" | Waits

definition chan_Size :: "'a chan \<Rightarrow> size_t" where
  "chan_Size c = buffer_size (c_buffer c)"

definition chan_Empty :: "'a chan \<Rightarrow> bool" where
  "chan_Empty c \<longleftrightarrow> chan_Size c = 0"

definition chan_push :: "'a \<Rightarrow> 'a chan \<Rightarrow> (bool \<times> 'a chan) option" where
  "chan_push t c = map_option (\<lambda>(r, b). (r, c\<lparr>c_buffer := b\<rparr>)) (buffer_push t (c_buffer c))"

definition chan_pop :: "'a chan \<Rightarrow> ('a option \<times> 'a chan) option" where
  "chan_pop c = map_option (\<lambda>(r, b). (r, c\<lparr>c_buffer := b\<rparr>)) (buffer_pop (c_buffer c))"

section \<open>Notifying\<close>

text \<open>\<open>func\<close> gets the value of the first waiting writer, or yields what is written for the reader.\<close>

definition ReadNotifyOne ::
  "('a chan \<Rightarrow> ('a option \<times> 'a chan) option) option \<Rightarrow> 'a chan \<Rightarrow> (bool \<times> 'a wake list \<times> 'a chan) option" where
  "ReadNotifyOne func c =
     (case rq c of
        [] \<Rightarrow> Some (False, [], c)
      | tk # rs \<Rightarrow>
          (let c = c\<lparr>rq := rs\<rparr>
           in case func of
                Some f \<Rightarrow> map_option (\<lambda>(v, c). (True, [Wake tk True v], c)) (f c)
              | None \<Rightarrow> Some (True, [Wake tk False None], c)))"

definition WriteNotifyOne ::
  "('a \<Rightarrow> 'a chan \<Rightarrow> ('b \<times> 'a chan) option) option \<Rightarrow> 'a chan \<Rightarrow> (bool \<times> 'b option \<times> 'a wake list \<times> 'a chan) option" where
  "WriteNotifyOne func c =
     (case wq c of
        [] \<Rightarrow> Some (False, None, [], c)
      | (tk, p) # ws \<Rightarrow>
          (let c = c\<lparr>wq := ws\<rparr>
           in case func of
                Some f \<Rightarrow> map_option (\<lambda>(v, c). (True, Some v, [Wake tk True None], c)) (f p c)
              | None \<Rightarrow> Some (True, None, [Wake tk False None], c)))"

section \<open>Push and Pop\<close>

definition WriteWaite :: "addr \<Rightarrow> 'a \<Rightarrow> 'a chan \<Rightarrow> 'a chan" where
  "WriteWaite tk t c = c\<lparr>wq := wq c @ [(tk, t)]\<rparr>"

definition ReadWaite :: "addr \<Rightarrow> 'a chan \<Rightarrow> 'a chan" where
  "ReadWaite tk c = c\<lparr>rq := rq c @ [tk]\<rparr>"

definition Push :: "addr \<Rightarrow> 'a \<Rightarrow> int \<Rightarrow> 'a chan \<Rightarrow> ('a chan_result \<times> 'a wake list \<times> 'a chan) option" where
  "Push tk t timeout c =
     (if closed c then Some (Returns False None, [], c)
      else do {
        (done, ws, c) \<leftarrow>
          (if chan_capacity (c_buffer c) = 0 then ReadNotifyOne (Some (\<lambda>c. Some (Some t, c))) c
           else do {
             (ok, c) \<leftarrow> chan_push t c;
             if ok then
               if chan_Size c = 1 then map_option (\<lambda>(b, ws, c). (True, ws, c)) (ReadNotifyOne (Some chan_pop) c)
               else Some (True, [], c)
             else Some (False, [], c) });
        if done then Some (Returns True None, ws, c)
        else if timeout = 0 then Some (Returns False None, [], c)
        else Some (Waits, [], WriteWaite tk t c) })"

definition Pop :: "addr \<Rightarrow> int \<Rightarrow> 'a chan \<Rightarrow> ('a chan_result \<times> 'a wake list \<times> 'a chan) option" where
  "Pop tk timeout c =
     (if closed c then Some (Returns False None, [], c)
      else do {
        (done, v, ws, c) \<leftarrow>
          (if chan_capacity (c_buffer c) > 0 then do {
             (v, c) \<leftarrow> chan_pop c;
             if v \<noteq> None then
               if chan_Size c = chan_capacity (c_buffer c) - 1
               then map_option (\<lambda>(b, u, ws, c). (True, v, ws, c)) (WriteNotifyOne (Some chan_push) c)
               else Some (True, v, [], c)
             else Some (False, None, [], c) }
           else WriteNotifyOne (Some (\<lambda>p c. Some (p, c))) c);
        if done then Some (Returns True v, ws, c)
        else if timeout = 0 then Some (Returns False None, [], c)
        else Some (Waits, [], ReadWaite tk c) })"

text \<open>What the waiting call returns once its task runs again, and whether it stops its timer.\<close>

definition after_waite :: "bool \<Rightarrow> bool \<Rightarrow> bool \<Rightarrow> bool \<times> bool" where
  "after_waite timer isTimeOut success =
     (if timer then if \<not> isTimeOut then (success, True) else (False, False) else (success, False))"

section \<open>Close\<close>

primrec notify_readers :: "nat \<Rightarrow> 'a chan \<Rightarrow> ('a wake list \<times> 'a chan) option" where
  "notify_readers 0 c = None"
| "notify_readers (Suc n) c = do {
     (b, ws, c) \<leftarrow> ReadNotifyOne None c;
     if b then map_option (\<lambda>(us, c). (ws @ us, c)) (notify_readers n c) else Some ([], c) }"

primrec notify_writers :: "nat \<Rightarrow> 'a chan \<Rightarrow> ('a wake list \<times> 'a chan) option" where
  "notify_writers 0 c = None"
| "notify_writers (Suc n) c = do {
     (b, u :: unit option, ws, c) \<leftarrow> WriteNotifyOne None c;
     if b then map_option (\<lambda>(us, c). (ws @ us, c)) (notify_writers n c) else Some ([], c) }"

text \<open>The loops of \<open>NotifyAll\<close> end once the queues are empty: one turn more than they are long.\<close>

definition NotifyAll :: "'a chan \<Rightarrow> ('a wake list \<times> 'a chan) option" where
  "NotifyAll c = do {
     (us, c) \<leftarrow> notify_readers (Suc (length (rq c))) c;
     (ws, c) \<leftarrow> notify_writers (Suc (length (wq c))) c;
     Some (us @ ws, c) }"

definition Close :: "'a chan \<Rightarrow> ('a wake list \<times> 'a chan) option" where
  "Close c = (if closed c then Some ([], c) else NotifyAll (c\<lparr>closed := True\<rparr>))"


section \<open>The contract of the buffer\<close>

text \<open>
  A bounded store of values; \<open>n\<close> counts the pushes it is still good for (the ring buffer's counters
  must not wrap).
\<close>

locale bounded_store =
  fixes rep :: "'s \<Rightarrow> 'a list \<Rightarrow> nat \<Rightarrow> bool"
    and cap :: "'s \<Rightarrow> size_t"
    and push :: "'a \<Rightarrow> 's \<Rightarrow> (bool \<times> 's) option"
    and pop :: "'s \<Rightarrow> ('a option \<times> 's) option"
    and count :: "'s \<Rightarrow> size_t"
  assumes push_room: "rep s xs (Suc n) \<Longrightarrow> length xs < unat (cap s) \<Longrightarrow>
      \<exists>s'. push x s = Some (True, s') \<and> rep s' (xs @ [x]) n \<and> cap s' = cap s"
    and push_full: "rep s xs n \<Longrightarrow> length xs = unat (cap s) \<Longrightarrow> push x s = Some (False, s)"
    and pop_some: "rep s (x # xs) n \<Longrightarrow> \<exists>s'. pop s = Some (Some x, s') \<and> rep s' xs n \<and> cap s' = cap s"
    and pop_none: "rep s [] n \<Longrightarrow> pop s = Some (None, s)"
    and count_rep: "rep s xs n \<Longrightarrow> count s = of_nat (length xs)"
    and rep_bound: "rep s xs n \<Longrightarrow> length xs \<le> unat (cap s)"
begin

lemma unat_count: "rep s xs n \<Longrightarrow> unat (count s) = length xs"
  using count_rep rep_bound [of s xs n] unat_lt_64 [of "cap s"] by (simp add: unat_of_nat_64)

text \<open>The conditions on the size that the channel tests after a push and after a pop.\<close>

lemma count_1_iff: "rep s (xs @ [x]) n \<Longrightarrow> count s = 1 \<longleftrightarrow> xs = []"
  using unat_count [of s "xs @ [x]" n] by (auto simp: word_unat_eq_iff)

lemma count_full_iff:
  assumes "rep s xs n" "length xs < unat (cap s)"
  shows "count s = cap s - 1 \<longleftrightarrow> length xs = unat (cap s) - 1"
proof -
  have "unat (cap s - 1) = unat (cap s) - 1" by (rule unat_minus_one) (use assms(2) in auto)
  then show ?thesis using unat_count [OF assms(1)] by (metis word_unat_eq_iff)
qed

text \<open>Handing a value through the empty store, and refilling a full one.\<close>

lemma push_pop:
  assumes "rep s [] (Suc n)" "cap s \<noteq> 0"
  shows "\<exists>s1 s2. push x s = Some (True, s1) \<and> count s1 = 1 \<and> pop s1 = Some (Some x, s2) \<and> rep s2 [] n \<and> cap s2 = cap s"
proof -
  have "0 < unat (cap s)" using assms(2) by (simp add: unat_gt_0)
  then obtain s1 where 1: "push x s = Some (True, s1)" "rep s1 ([] @ [x]) n" "cap s1 = cap s"
    using push_room [OF assms(1)] by auto
  then show ?thesis using pop_some [of s1 x "[]" n] count_1_iff [OF 1(2)] by auto
qed

end

definition buffer_rep :: "'a chan_buffer \<Rightarrow> 'a list \<Rightarrow> nat \<Rightarrow> bool" where
  "buffer_rep b xs n \<longleftrightarrow> length xs \<le> unat (chan_capacity b) \<and>
     (if useRingBuffer b then ring_rep (ringq b) (unat (chan_capacity b), xs, n) else listq b = xs)"

lemma ring_rep_bound: "ring_rep r (c, xs, n) \<Longrightarrow> length xs \<le> c"
  by (auto simp: ring_rep_def ring_ok_def)

lemma list_size_le:
  "length xs \<le> unat (c :: size_t) \<Longrightarrow> of_nat (length xs) \<ge> c \<longleftrightarrow> length xs = unat c"
  using unat_lt_64 [of c] by (auto simp: word_le_nat_alt unat_of_nat_64)

interpretation store: bounded_store buffer_rep chan_capacity buffer_push buffer_pop buffer_size
proof
  fix b :: "'a chan_buffer" and xs n x
  assume b: "buffer_rep b xs (Suc n)" "length xs < unat (chan_capacity b)"
  show "\<exists>b'. buffer_push x b = Some (True, b') \<and> buffer_rep b' (xs @ [x]) n \<and> chan_capacity b' = chan_capacity b"
  proof (cases "useRingBuffer b")
    case True
    then obtain r' where "ring_push x (ringq b) = Some (True, r')" "ring_rep r' (unat (chan_capacity b), xs @ [x], n)"
      using ring_rep_push [of "ringq b" "unat (chan_capacity b)" xs n x] b by (auto simp: buffer_rep_def)
    then show ?thesis using True b(2) by (auto simp: buffer_push_def buffer_rep_def)
  next
    case False
    then show ?thesis using b list_size_le [of xs "chan_capacity b"] by (auto simp: buffer_push_def buffer_rep_def)
  qed
next
  fix b :: "'a chan_buffer" and xs n x
  assume b: "buffer_rep b xs n" "length xs = unat (chan_capacity b)"
  show "buffer_push x b = Some (False, b)"
  proof (cases "useRingBuffer b")
    case True
    have "ring_push x (ringq b) = Some (False, ringq b)"
      by (rule ring_push_full) (use True b in \<open>auto simp: buffer_rep_def ring_rep_def\<close>)
    then show ?thesis using True by (simp add: buffer_push_def del: map_option_eq_Some)
  next
    case False
    then show ?thesis using b list_size_le [of xs "chan_capacity b"] by (simp add: buffer_push_def buffer_rep_def)
  qed
next
  fix b :: "'a chan_buffer" and xs n x
  assume b: "buffer_rep b (x # xs) n"
  then show "\<exists>b'. buffer_pop b = Some (Some x, b') \<and> buffer_rep b' xs n \<and> chan_capacity b' = chan_capacity b"
    using ring_rep_pop [of "ringq b" "unat (chan_capacity b)" x xs n]
    by (cases "useRingBuffer b") (auto simp: buffer_pop_def buffer_rep_def)
next
  fix b :: "'a chan_buffer" and n
  assume "buffer_rep b [] n"
  then show "buffer_pop b = Some (None, b)"
    by (auto simp: buffer_pop_def buffer_rep_def ring_rep_def ring_pop_empty)
next
  fix b :: "'a chan_buffer" and xs n
  assume "buffer_rep b xs n"
  then show "buffer_size b = of_nat (length xs)" "length xs \<le> unat (chan_capacity b)"
    by (auto simp: buffer_size_def buffer_rep_def dest: ring_rep_size)
qed

section \<open>What a channel represents\<close>

text \<open>
  The values sent and not yet received: those in the buffer, then those of the waiting writers.
  Readers wait only when there are none; writers wait only when the buffer is full.
\<close>

definition chan_rep :: "'a chan \<Rightarrow> 'a list \<Rightarrow> nat \<Rightarrow> bool" where
  "chan_rep c pending n \<longleftrightarrow> \<not> closed c \<and>
     (\<exists>xs. buffer_rep (c_buffer c) xs n \<and> pending = xs @ map snd (wq c)
        \<and> (rq c \<noteq> [] \<longrightarrow> pending = []) \<and> (wq c \<noteq> [] \<longrightarrow> length xs = unat (chan_capacity (c_buffer c))))"

abbreviation chan_cap :: "'a chan \<Rightarrow> nat" where
  "chan_cap c \<equiv> unat (chan_capacity (c_buffer c))"

lemma chan_new_rep:
  fixes c :: "'a chan"
  shows "cap < - 1 \<Longrightarrow> chan_new cap ring = Some c \<Longrightarrow> chan_rep c [] (2 ^ 64 - 1)"
proof -
  assume a: "cap < - 1" and c: "chan_new cap ring = Some c"
  then have "cap \<noteq> - 1" by auto
  then have "cap + 1 \<noteq> 0" by (metis add.right_inverse add_right_cancel add.commute)
  then have r: "ring_ok (ring_new cap :: 'a ringbuffer) []" by (rule ring_ok_new)
  have "c = \<lparr>c_buffer = \<lparr>chan_capacity = cap, useRingBuffer = ring, ringq = ring_new (if ring then cap else 1), listq = []\<rparr>,
       closed = False, wq = [], rq = []\<rparr>" using a c by (simp add: chan_new_def)
  then show ?thesis using r
    by (simp add: chan_rep_def buffer_rep_def ring_rep_def) (simp add: ring_new_def)
qed


section \<open>One operation\<close>

text \<open>
  \<open>Push\<close> hands the value to the first waiting reader, or appends it to the pending values: in the
  buffer if there is room, else with its task among the waiting writers. A \<open>TryPush\<close> (timeout 0)
  without room changes nothing.
\<close>

lemma Push_reader:
  assumes rep: "chan_rep c pending (Suc n)" and r: "rq c = r # rs"
  shows "\<exists>c'. Push tk t timeout c = Some (Returns True None, [Wake r True (Some t)], c')
    \<and> chan_rep c' [] n \<and> rq c' = rs \<and> wq c' = wq c \<and> chan_cap c' = chan_cap c"
proof -
  have C: "\<not> closed c" "pending = []" "wq c = []" "buffer_rep (c_buffer c) [] (Suc n)"
    using rep r by (auto simp: chan_rep_def)
  show ?thesis
  proof (cases "chan_capacity (c_buffer c) = 0")
    case True
    have "buffer_rep (c_buffer c) [] n" using C(4) by (auto simp: buffer_rep_def ring_rep_def)
    then show ?thesis using True C r by (auto simp: Push_def ReadNotifyOne_def chan_rep_def)
  next
    case False
    obtain b1 b2 where b: "buffer_push t (c_buffer c) = Some (True, b1)" "buffer_size b1 = 1"
      "buffer_pop b1 = Some (Some t, b2)" "buffer_rep b2 [] n" "chan_capacity b2 = chan_capacity (c_buffer c)"
      using store.push_pop [OF C(4) False, of t] by blast
    have "Push tk t timeout c = Some (Returns True None, [Wake r True (Some t)], c\<lparr>c_buffer := b2, rq := rs\<rparr>)"
      using False C(1) r b(1,2,3)
      by (simp add: Push_def chan_push_def chan_Size_def ReadNotifyOne_def chan_pop_def)
    then show ?thesis using b C by (auto simp: chan_rep_def)
  qed
qed

lemma Push_room:
  assumes rep: "chan_rep c pending (Suc n)" and r: "rq c = []" and room: "length pending < chan_cap c"
  shows "\<exists>c'. Push tk t timeout c = Some (Returns True None, [], c')
    \<and> chan_rep c' (pending @ [t]) n \<and> rq c' = [] \<and> wq c' = [] \<and> chan_cap c' = chan_cap c"
proof -
  obtain xs where C: "\<not> closed c" "pending = xs @ map snd (wq c)" "buffer_rep (c_buffer c) xs (Suc n)"
    "wq c \<noteq> [] \<longrightarrow> length xs = chan_cap c"
    using rep by (auto simp: chan_rep_def)
  have w: "wq c = []" using C(2,4) room by auto
  obtain b1 where b: "buffer_push t (c_buffer c) = Some (True, b1)" "buffer_rep b1 (xs @ [t]) n"
    "chan_capacity b1 = chan_capacity (c_buffer c)"
    using store.push_room [OF C(3), of t] room C(2) w by auto
  have "chan_capacity (c_buffer c) \<noteq> 0" using room by auto
  then have "Push tk t timeout c = Some (Returns True None, [], c\<lparr>c_buffer := b1\<rparr>)"
    using C(1) b(1) r by (simp add: Push_def chan_push_def chan_Size_def ReadNotifyOne_def)
  then show ?thesis using b C w r by (auto simp: chan_rep_def)
qed

lemma Push_full:
  assumes rep: "chan_rep c pending n" and r: "rq c = []" and full: "chan_cap c \<le> length pending"
  shows "Push tk t 0 c = Some (Returns False None, [], c)"
    and "timeout \<noteq> 0 \<Longrightarrow> \<exists>c'. Push tk t timeout c = Some (Waits, [], c')
      \<and> chan_rep c' (pending @ [t]) n \<and> rq c' = [] \<and> wq c' = wq c @ [(tk, t)] \<and> chan_cap c' = chan_cap c"
proof -
  obtain xs where C: "\<not> closed c" "pending = xs @ map snd (wq c)" "buffer_rep (c_buffer c) xs n"
    "wq c \<noteq> [] \<longrightarrow> length xs = chan_cap c"
    using rep by (auto simp: chan_rep_def)
  have len: "length xs = chan_cap c"
    using C(2,4) full store.rep_bound [OF C(3)] by (cases "wq c") auto
  have "buffer_push t (c_buffer c) = Some (False, c_buffer c)" using store.push_full [OF C(3) len] .
  then have P: "chan_push t c = Some (False, c)" by (simp add: chan_push_def)
  then show "Push tk t 0 c = Some (Returns False None, [], c)"
    using C(1) r by (simp add: Push_def ReadNotifyOne_def)
  assume "timeout \<noteq> 0"
  then have "Push tk t timeout c = Some (Waits, [], WriteWaite tk t c)"
    using C(1) r P by (simp add: Push_def ReadNotifyOne_def)
  then show "\<exists>c'. Push tk t timeout c = Some (Waits, [], c')
      \<and> chan_rep c' (pending @ [t]) n \<and> rq c' = [] \<and> wq c' = wq c @ [(tk, t)] \<and> chan_cap c' = chan_cap c"
    using C len r by (auto simp: chan_rep_def WriteWaite_def)
qed

text \<open>
  \<open>Pop\<close> takes the oldest pending value; the writer whose value enters the buffer (or is taken) is
  woken. With nothing pending the reader waits, or gives up at once.
\<close>

lemma Pop_value:
  assumes rep: "chan_rep c (v # pending) (Suc n)"
  shows "\<exists>c' m. Pop tk timeout c = Some (Returns True (Some v),
      (case wq c of [] \<Rightarrow> [] | w # ws \<Rightarrow> [Wake (fst w) True None]), c')
    \<and> n \<le> m \<and> chan_rep c' pending m \<and> rq c' = [] \<and> wq c' = tl (wq c) \<and> chan_cap c' = chan_cap c"
proof -
  obtain xs where C: "\<not> closed c" "v # pending = xs @ map snd (wq c)" "buffer_rep (c_buffer c) xs (Suc n)"
    "wq c \<noteq> [] \<longrightarrow> length xs = chan_cap c" "rq c = []"
    using rep by (auto simp: chan_rep_def)
  show ?thesis
  proof (cases "chan_capacity (c_buffer c) = 0")
    case True
    then have xs: "xs = []" using store.rep_bound [OF C(3)] by simp
    then obtain w ws where w: "wq c = (w, v) # ws" "pending = map snd ws" using C(2) by (cases "wq c") auto
    then show ?thesis using True C xs
      by (auto simp: Pop_def WriteNotifyOne_def chan_rep_def intro!: exI [of _ "Suc n"])
  next
    case False
    then have pos: "0 < chan_cap c" "chan_capacity (c_buffer c) > 0" by (auto simp: unat_gt_0 word_gt_0)
    obtain xs' where xs: "xs = v # xs'" "pending = xs' @ map snd (wq c)"
      using C(2,4) pos by (cases xs) auto
    obtain b1 where b: "buffer_pop (c_buffer c) = Some (Some v, b1)" "buffer_rep b1 xs' (Suc n)"
      "chan_capacity b1 = chan_capacity (c_buffer c)"
      using store.pop_some [of "c_buffer c" v xs' "Suc n"] C(3) xs by auto
    have lt: "length xs' < unat (chan_capacity b1)" using store.rep_bound [OF C(3)] xs b(3) by simp
    note full = store.count_full_iff [OF b(2) lt]
    show ?thesis
    proof (cases "wq c")
      case Nil
      then have "Pop tk timeout c = Some (Returns True (Some v), [], c\<lparr>c_buffer := b1\<rparr>)"
        using C(1) b(1,3) pos by (simp add: Pop_def chan_pop_def chan_Size_def WriteNotifyOne_def)
      then show ?thesis using Nil b C xs by (auto simp: chan_rep_def intro!: exI [of _ "Suc n"])
    next
      case (Cons w ws)
      obtain a u where w: "w = (a, u)" by (cases w)
      have len: "length xs' = unat (chan_capacity b1) - 1" using C(4) Cons xs b(3) by simp
      obtain b2 where b2: "buffer_push u b1 = Some (True, b2)" "buffer_rep b2 (xs' @ [u]) n"
        "chan_capacity b2 = chan_capacity (c_buffer c)"
        using store.push_room [OF b(2) lt, of u] b(3) by auto
      have "Pop tk timeout c = Some (Returns True (Some v), [Wake a True None], c\<lparr>c_buffer := b2, wq := ws\<rparr>)"
        using C(1) b(1,3) pos full len Cons w b2(1)
        by (simp add: Pop_def chan_pop_def chan_Size_def WriteNotifyOne_def chan_push_def)
      then show ?thesis using b2 C xs Cons w len b(3) pos by (auto simp: chan_rep_def)
    qed
  qed
qed

lemma Pop_empty:
  assumes rep: "chan_rep c [] n"
  shows "Pop tk 0 c = Some (Returns False None, [], c)"
    and "timeout \<noteq> 0 \<Longrightarrow> \<exists>c'. Pop tk timeout c = Some (Waits, [], c')
      \<and> chan_rep c' [] n \<and> rq c' = rq c @ [tk] \<and> wq c' = [] \<and> chan_cap c' = chan_cap c"
proof -
  have C: "\<not> closed c" "buffer_rep (c_buffer c) [] n" "wq c = []" using rep by (auto simp: chan_rep_def)
  have P: "chan_pop c = Some (None, c)" using store.pop_none [OF C(2)] by (simp add: chan_pop_def)
  then show "Pop tk 0 c = Some (Returns False None, [], c)"
    using C by (simp add: Pop_def WriteNotifyOne_def)
  assume "timeout \<noteq> 0"
  then have "Pop tk timeout c = Some (Waits, [], ReadWaite tk c)"
    using C P by (simp add: Pop_def WriteNotifyOne_def)
  then show "\<exists>c'. Pop tk timeout c = Some (Waits, [], c')
      \<and> chan_rep c' [] n \<and> rq c' = rq c @ [tk] \<and> wq c' = [] \<and> chan_cap c' = chan_cap c"
    using C by (auto simp: chan_rep_def ReadWaite_def)
qed


section \<open>Sequences of operations\<close>

datatype 'a chan_op = OPush addr 'a int | OPop addr int

primrec chan_step :: "'a chan_op \<Rightarrow> 'a chan \<Rightarrow> (('a chan_op \<times> 'a chan_result \<times> 'a wake list) \<times> 'a chan) option" where
  "chan_step (OPush tk t timeout) c =
     map_option (\<lambda>(r, ws, c). ((OPush tk t timeout, r, ws), c)) (Push tk t timeout c)"
| "chan_step (OPop tk timeout) c = map_option (\<lambda>(r, ws, c). ((OPop tk timeout, r, ws), c)) (Pop tk timeout c)"

text \<open>The value an event accepts, and the values it delivers: returned, or written for a reader.\<close>

fun sent :: "'a chan_op \<times> 'a chan_result \<times> 'a wake list \<Rightarrow> 'a list" where
  "sent (OPush tk t timeout, Returns b v, ws) = (if b then [t] else [])"
| "sent (OPush tk t timeout, Waits, ws) = [t]"
| "sent (OPop tk timeout, r, ws) = []"

fun delivered :: "'a wake \<Rightarrow> 'a list" where
  "delivered (Wake tk b (Some v)) = (if b then [v] else [])"
| "delivered (Wake tk b None) = []"

fun received :: "'a chan_op \<times> 'a chan_result \<times> 'a wake list \<Rightarrow> 'a list" where
  "received (op, Returns b (Some v), ws) = (if b then [v] else []) @ concat (map delivered ws)"
| "received (op, r, ws) = concat (map delivered ws)"

lemma chan_rep_less: "chan_rep c pending n \<Longrightarrow> m \<le> n \<Longrightarrow> chan_rep c pending m"
  by (auto simp: chan_rep_def buffer_rep_def ring_rep_def)

lemma chan_step_ok:
  assumes rep: "chan_rep c pending (Suc n)"
  shows "\<exists>e c' pending'. chan_step op c = Some (e, c') \<and> chan_rep c' pending' n
    \<and> chan_cap c' = chan_cap c \<and> pending @ sent e = received e @ pending'"
proof (cases op)
  case (OPush tk t timeout)
  note P = Push_full [OF rep] Push_room [OF rep] Push_reader [OF rep]
  consider r rs where "rq c = r # rs" | "rq c = []" "length pending < chan_cap c"
    | "rq c = []" "chan_cap c \<le> length pending" "timeout = 0" | "rq c = []" "chan_cap c \<le> length pending" "timeout \<noteq> 0"
    by (cases "rq c"; cases "length pending < chan_cap c"; cases "timeout = 0") (auto simp: not_less)
  then show ?thesis
  proof cases
    case 1
    have "pending = []" using rep 1 by (auto simp: chan_rep_def)
    then show ?thesis using P(4) [OF 1, of tk t timeout] OPush by fastforce
  next
    case 2
    then show ?thesis using P(3) [OF 2, of tk t timeout] OPush by fastforce
  next
    case 3
    then show ?thesis using P(1) [OF 3(1,2), of tk t] OPush chan_rep_less [OF rep, of n] by fastforce
  next
    case 4
    from P(2) [OF 4, of tk t] obtain c' where "Push tk t timeout c = Some (Waits, [], c')"
      "chan_rep c' (pending @ [t]) (Suc n)" "chan_cap c' = chan_cap c" by blast
    then show ?thesis using OPush chan_rep_less [of c' "pending @ [t]" "Suc n" n] by fastforce
  qed
next
  case (OPop tk timeout)
  show ?thesis
  proof (cases pending)
    case Nil
    then have rep0: "chan_rep c [] (Suc n)" using rep by simp
    show ?thesis
    proof (cases "timeout = 0")
      case True
      then show ?thesis using Pop_empty(1) [OF rep0, of tk] OPop Nil chan_rep_less [OF rep0, of n] by fastforce
    next
      case False
      from Pop_empty(2) [OF rep0 False, of tk] obtain c' where "Pop tk timeout c = Some (Waits, [], c')"
        "chan_rep c' [] (Suc n)" "chan_cap c' = chan_cap c" by blast
      then show ?thesis using OPop Nil chan_rep_less [of c' "[]" "Suc n" n] by fastforce
    qed
  next
    case (Cons v pending')
    from Pop_value [OF rep [unfolded Cons], of tk timeout] obtain c' m where P: "Pop tk timeout c = Some (Returns True (Some v),
      (case wq c of [] \<Rightarrow> [] | w # ws \<Rightarrow> [Wake (fst w) True None]), c')"
      "n \<le> m" "chan_rep c' pending' m" "chan_cap c' = chan_cap c" by blast
    then show ?thesis using OPop Cons chan_rep_less [OF P(3,2)] by (fastforce split: list.splits)
  qed
qed

section \<open>Properties\<close>

text \<open>
  C6: The channel is a FIFO, with or without a buffer and for both kinds of buffer: over every
  sequence of \<open>Push\<close> and \<open>Pop\<close> calls of any tasks (before it is closed and while no timer fires, for
  as many calls as the ring buffer's counters allow), no call reads or writes outside the buffer,
  and the values received, by return or through a reader that waited, followed by those still in the
  channel are exactly the values sent, each once and in order. Values that \<open>TryPush\<close> refused are not
  among them.
\<close>

theorem channel_fifo:
  assumes "chan_rep c pending n" and "length ops \<le> n"
  shows "\<exists>es c' pending'. run chan_step ops c = Some (es, c') \<and> chan_rep c' pending' (n - length ops)
    \<and> pending @ concat (map sent es) = concat (map received es) @ pending'"
  using assms
proof (induction ops arbitrary: c pending n)
  case Nil
  then show ?case by simp
next
  case (Cons op ops)
  obtain k where n: "n = Suc k" using Cons.prems(2) by (cases n) auto
  obtain e c1 p1 where 1: "chan_step op c = Some (e, c1)" "chan_rep c1 p1 k" "pending @ sent e = received e @ p1"
    using chan_step_ok [OF Cons.prems(1) [unfolded n]] by blast
  obtain es c' p' where 2: "run chan_step ops c1 = Some (es, c')" "chan_rep c' p' (k - length ops)"
    "p1 @ concat (map sent es) = concat (map received es) @ p'"
    using Cons.IH [OF 1(2)] Cons.prems(2) n by auto
  have "pending @ concat (map sent (e # es)) = (received e @ p1) @ concat (map sent es)" using 1(3) by simp
  also have "\<dots> = concat (map received (e # es)) @ p'" using 2(3) by simp
  finally show ?case using 1(1) 2(1,2) n by auto
qed

lemma channel_fifo_witness:
  "\<exists>c es c' pending'. chan_new 2 True = Some c
    \<and> run chan_step [OPop 1 (- 1), OPush 2 10 (- 1), OPush 2 11 (- 1), OPush 2 12 (- 1), OPush 2 13 (- 1), OPop 1 0] c
      = Some (es, c' :: nat chan)
    \<and> concat (map sent es) = concat (map received es) @ pending'"
proof -
  obtain c :: "nat chan" where c: "chan_new 2 True = Some c" by (simp add: chan_new_def)
  have "chan_rep c [] (2 ^ 64 - 1)" by (rule chan_new_rep [OF _ c]) simp
  from channel_fifo [OF this, of "[OPop 1 (- 1), OPush 2 10 (- 1), OPush 2 11 (- 1), OPush 2 12 (- 1), OPush 2 13 (- 1), OPop 1 0]"]
  show ?thesis using c by auto
qed

text \<open>
  C28: \<open>Close\<close> wakes every waiting reader and writer, in order, with failure, and leaves both queues
  empty; from then on every \<open>Push\<close> and \<open>Pop\<close> fails, also while values are left in the buffer.
\<close>

theorem channel_close:
  assumes "\<not> closed c"
  shows "\<exists>c'. Close c = Some (map (\<lambda>r. Wake r False None) (rq c) @ map (\<lambda>w. Wake (fst w) False None) (wq c), c')
    \<and> closed c' \<and> rq c' = [] \<and> wq c' = [] \<and> c_buffer c' = c_buffer c
    \<and> Push tk t timeout c' = Some (Returns False None, [], c') \<and> Pop tk timeout c' = Some (Returns False None, [], c')"
proof -
  have r: "notify_readers (Suc (length (rq c))) c = Some (map (\<lambda>r. Wake r False None) (rq c), c\<lparr>rq := []\<rparr>)"
    for c :: "'a chan"
  proof (induction "rq c" arbitrary: c)
    case (Cons x xs)
    have e: "rq c = x # xs" using Cons.hyps(2) by simp
    show ?case using Cons.hyps(1) [of "c\<lparr>rq := xs\<rparr>"] by (simp add: e ReadNotifyOne_def)
  qed (simp add: ReadNotifyOne_def)
  have w: "notify_writers (Suc (length (wq c))) c = Some (map (\<lambda>w. Wake (fst w) False None) (wq c), c\<lparr>wq := []\<rparr>)"
    for c :: "'a chan"
  proof (induction "wq c" arbitrary: c)
    case (Cons x xs)
    have e: "wq c = x # xs" using Cons.hyps(2) by simp
    show ?case using Cons.hyps(1) [of "c\<lparr>wq := xs\<rparr>"] by (cases x) (simp add: e WriteNotifyOne_def)
  qed (simp add: WriteNotifyOne_def)
  show ?thesis using assms r [of "c\<lparr>closed := True\<rparr>"] w [of "c\<lparr>closed := True, rq := []\<rparr>"]
    by (simp add: Close_def NotifyAll_def Push_def Pop_def del: notify_readers.simps notify_writers.simps)
qed

lemma channel_close_witness:
  "\<exists>c c'. Close ((c :: nat chan)\<lparr>closed := False, rq := [], wq := [(4, 5)]\<rparr>) = Some ([Wake 4 False None], c')
     \<and> Pop 1 0 c' = Some (Returns False None, [], c')"
  using channel_close [of "undefined\<lparr>closed := False, rq := [], wq := [(4, 5)]\<rparr>" 1 7 0] by auto



end
