(* ===== verification/Channel_Tasks.thy ===== *)
theory Channel_Tasks
  imports Processer Fast_Channel
begin

text \<open>
  Tasks that talk through a channel, on the run loop of one \<open>Processer\<close>: the composition of \<open>Fast_Channel\<close>, whose
  calls return the tasks to wake or ask the caller to wait, with \<open>Processer\<close>, whose tasks wake others
  (\<open>WakeupBySelfIO\<close>) and suspend themselves (\<open>SuspendBySelfIO\<close>). A task's function is a list of channel calls
  and yields; whatever these are, the behaviour of the run loop is that of \<open>process_turn\<close>.
\<close>

section \<open>A task's function\<close>

datatype 'a prog_op = Do_Push 'a | Do_Pop | Do_Yield

text \<open>
  The channel; the calls each task has still to make; the entry of a waiting task once it was notified (\<open>success_\<close>
  and what was written to its variable); what its calls returned; and, to state what the channel delivers, the
  values in the order they were sent and received, with their tasks.
\<close>

record 'a chan_prog =
  ch :: "'a chan"
  todo :: "addr \<Rightarrow> 'a prog_op list"
  notified :: "addr \<rightharpoonup> bool \<times> 'a option"
  got :: "addr \<Rightarrow> (bool \<times> 'a option) list"
  sent_log :: "(addr \<times> 'a) list"
  recv_log :: "(addr \<times> 'a) list"
  returned :: "addr set"
  bytes :: nat

definition chan_prog_new :: "'a chan \<Rightarrow> (addr \<Rightarrow> 'a prog_op list) \<Rightarrow> 'a chan_prog" where
  "chan_prog_new c prog = \<lparr>ch = c, todo = prog, notified = (\<lambda>t. None), got = (\<lambda>t. []), sent_log = [], recv_log = [],
     returned = {}, bytes = 0\<rparr>"

definition logged :: "addr \<Rightarrow> 'a option \<Rightarrow> (addr \<times> 'a) list" where
  "logged t v = (case v of None \<Rightarrow> [] | Some x \<Rightarrow> [(t, x)])"

text \<open>
  What \<open>ReadNotifyOne\<close> and \<open>WriteNotifyOne\<close> do to the entries of the tasks they wake. Each also sends a byte to the
  processer's interrupter, and asserts that it was taken; \<open>room\<close> is the number of bytes the connection holds, which
  are read only when the processer has nothing to run.
\<close>

primrec notify :: "nat \<Rightarrow> 'a wake \<Rightarrow> 'a chan_prog \<Rightarrow> 'a chan_prog option" where
  "notify room (Wake t b v) s = do {
     assert_c (bytes s < room);
     Some (s\<lparr>notified := (notified s)(t \<mapsto> (b, v)), recv_log := recv_log s @ logged t v, bytes := bytes s + 1\<rparr>) }"

primrec notify_all :: "nat \<Rightarrow> 'a wake list \<Rightarrow> 'a chan_prog \<Rightarrow> 'a chan_prog option" where
  "notify_all room [] s = Some s"
| "notify_all room (x # xs) s = Option.bind (notify room x s) (notify_all room xs)"

primrec woken :: "'a wake \<Rightarrow> addr" where
  "woken (Wake t b v) = t"

text \<open>
  One call without a time limit: whether the task waits, the tasks it wakes, and the state. A call that returns
  appends its result.
\<close>

definition add_result :: "addr \<Rightarrow> bool \<Rightarrow> 'a option \<Rightarrow> 'a chan_prog \<Rightarrow> 'a chan_prog" where
  "add_result tk b v s = s\<lparr>got := (got s)(tk := got s tk @ [(b, v)])\<rparr>"

definition after_call ::
  "nat \<Rightarrow> addr \<Rightarrow> 'a chan_result \<times> 'a wake list \<times> 'a chan \<Rightarrow> 'a chan_prog \<Rightarrow> (bool \<times> addr list \<times> 'a chan_prog) option" where
  "after_call room tk r s = (case r of (res, ws, c) \<Rightarrow> do {
     s \<leftarrow> notify_all room ws (s\<lparr>ch := c\<rparr>);
     Some (case res of
        Waits \<Rightarrow> (True, map woken ws, s)
      | chan_result.Returns b v \<Rightarrow> (False, map woken ws, add_result tk b v (s\<lparr>recv_log := recv_log s @ logged tk v\<rparr>))) })"

definition call_Push :: "nat \<Rightarrow> addr \<Rightarrow> 'a \<Rightarrow> 'a chan_prog \<Rightarrow> (bool \<times> addr list \<times> 'a chan_prog) option" where
  "call_Push room tk v s = do {
     r \<leftarrow> Push tk v (- 1) (ch s);
     after_call room tk r (if fst r = chan_result.Returns False None then s else s\<lparr>sent_log := sent_log s @ [(tk, v)]\<rparr>) }"

definition call_Pop :: "nat \<Rightarrow> addr \<Rightarrow> 'a chan_prog \<Rightarrow> (bool \<times> addr list \<times> 'a chan_prog) option" where
  "call_Pop room tk s = Option.bind (Pop tk (- 1) (ch s)) (\<lambda>r. after_call room tk r s)"

text \<open>A slice of the task: its calls up to one that waits, a yield, or its end.\<close>

primrec exec_ops :: "nat \<Rightarrow> addr \<Rightarrow> 'a prog_op list \<Rightarrow> 'a chan_prog \<Rightarrow> (addr list \<times> slice_end \<times> 'a chan_prog) option" where
  "exec_ops room tk [] s = Some ([], slice_end.Returns, s\<lparr>returned := insert tk (returned s)\<rparr>)"
| "exec_ops room tk (x # xs) s =
     (let s = s\<lparr>todo := (todo s)(tk := xs)\<rparr> in
      case x of
        Do_Yield \<Rightarrow> Some ([], Yields, s)
      | _ \<Rightarrow> do {
          (waits, ws, s) \<leftarrow> (case x of Do_Push v \<Rightarrow> call_Push room tk v s | _ \<Rightarrow> call_Pop room tk s);
          if waits then Some (ws, Suspends, s)
          else map_option (\<lambda>(us, k, s). (ws @ us, k, s)) (exec_ops room tk xs s) })"

text \<open>A task that was woken returns from the call it waited in.\<close>

definition resume :: "addr \<Rightarrow> 'a chan_prog \<Rightarrow> 'a chan_prog" where
  "resume tk s = (case notified s tk of
      None \<Rightarrow> s
    | Some (b, v) \<Rightarrow> add_result tk (fst (after_waite False False b)) v (s\<lparr>notified := (notified s)(tk := None)\<rparr>))"

text \<open>As the program of the tasks of a processer; \<open>None\<close> when a call had no result.\<close>

definition chan_slice :: "nat \<Rightarrow> addr \<Rightarrow> 'a chan_prog option \<Rightarrow> 'f slice \<times> 'a chan_prog option" where
  "chan_slice room tk r = (case Option.bind r (\<lambda>s. exec_ops room tk (todo s tk) (resume tk s)) of
      None \<Rightarrow> (([], slice_end.Returns), None)
    | Some (ws, k, s) \<Rightarrow> ((map Call_Wake ws, k), Some s))"

section \<open>The tasks and the channel\<close>

fun push_vals :: "'a prog_op list \<Rightarrow> 'a list" where
  "push_vals [] = []"
| "push_vals (Do_Push v # xs) = v # push_vals xs"
| "push_vals (x # xs) = push_vals xs"

fun pop_count :: "'a prog_op list \<Rightarrow> nat" where
  "pop_count [] = 0"
| "pop_count (Do_Pop # xs) = Suc (pop_count xs)"
| "pop_count (x # xs) = pop_count xs"

text \<open>A producer or a consumer.\<close>

definition one_sided :: "'a prog_op list \<Rightarrow> bool" where
  "one_sided xs \<longleftrightarrow> push_vals xs = [] \<or> pop_count xs = 0"

definition waiting :: "'a chan_prog \<Rightarrow> addr set" where
  "waiting s = set (rq (ch s)) \<union> fst ` set (wq (ch s))"

definition of_task :: "addr \<Rightarrow> (addr \<times> 'a) list \<Rightarrow> 'a list" where
  "of_task t xs = map snd (filter (\<lambda>x. fst x = t) xs)"

definition vals_of :: "(bool \<times> 'a option) list \<Rightarrow> 'a list" where
  "vals_of rs = concat (map (\<lambda>r. case snd r of None \<Rightarrow> [] | Some v \<Rightarrow> [v]) rs)"

lemma of_task_simps [simp]:
  "of_task t [] = []" "of_task t (xs @ ys) = of_task t xs @ of_task t ys"
  "of_task t ((a, v) # xs) = (if a = t then v # of_task t xs else of_task t xs)"
  by (auto simp: of_task_def)

lemma vals_of_simps [simp]:
  "vals_of [] = []" "vals_of (xs @ ys) = vals_of xs @ vals_of ys" "vals_of ((b, None) # xs) = vals_of xs"
  "vals_of ((b, Some v) # xs) = v # vals_of xs"
  by (auto simp: vals_of_def)

lemma logged_simps [simp]: "logged t None = []" "logged t (Some v) = [(t, v)]"
  by (simp_all add: logged_def)

text \<open>The results of a task with those of the call it is about to return from.\<close>

definition results :: "'a chan_prog \<Rightarrow> addr \<Rightarrow> (bool \<times> 'a option) list" where
  "results s t = got s t @ (case notified s t of None \<Rightarrow> [] | Some r \<Rightarrow> [r])"

text \<open>Two facts per task, three about the waiting tasks, and three about all tasks together.\<close>

definition task_ok :: "(addr \<Rightarrow> 'a prog_op list) \<Rightarrow> 'a chan_prog \<Rightarrow> addr \<Rightarrow> bool" where
  "task_ok prog s t \<longleftrightarrow> one_sided (todo s t) \<and> of_task t (sent_log s) @ push_vals (todo s t) = push_vals (prog t)
     \<and> vals_of (results s t) = of_task t (recv_log s) \<and> (\<forall>r\<in>set (results s t). fst r)
     \<and> length (results s t) + (if t \<in> waiting s then 1 else 0) + length (push_vals (todo s t)) + pop_count (todo s t)
       = length (push_vals (prog t)) + pop_count (prog t)"

definition waits_ok :: "addr set \<Rightarrow> 'a chan_prog \<Rightarrow> bool" where
  "waits_ok T s \<longleftrightarrow> distinct (rq (ch s) @ map fst (wq (ch s))) \<and> waiting s \<subseteq> T - returned s
     \<and> (\<forall>t\<in>waiting s. notified s t = None) \<and> (\<forall>t\<in>returned s. notified s t = None \<and> todo s t = [])
     \<and> (\<forall>t\<in>set (rq (ch s)). push_vals (todo s t) = []) \<and> (\<forall>t\<in>fst ` set (wq (ch s)). pop_count (todo s t) = 0)"

definition all_ok :: "nat \<Rightarrow> addr set \<Rightarrow> 'a chan_prog \<Rightarrow> bool" where
  "all_ok room T s \<longleftrightarrow> (\<exists>pending n. chan_rep (ch s) pending n
     \<and> (\<Sum>t\<in>T. length (push_vals (todo s t)) + pop_count (todo s t)) \<le> n
     \<and> bytes s + (\<Sum>t\<in>T. length (push_vals (todo s t)) + pop_count (todo s t)) \<le> room
     \<and> (\<Sum>t\<in>T. length (push_vals (todo s t))) + length pending = (\<Sum>t\<in>T. pop_count (todo s t)) + length (rq (ch s))
     \<and> map snd (sent_log s) = map snd (recv_log s) @ pending)"

definition comm_ok :: "nat \<Rightarrow> addr set \<Rightarrow> (addr \<Rightarrow> 'a prog_op list) \<Rightarrow> 'a chan_prog \<Rightarrow> bool" where
  "comm_ok room T prog s \<longleftrightarrow> finite T \<and> returned s \<subseteq> T \<and> (\<forall>t\<in>T. task_ok prog s t) \<and> waits_ok T s \<and> all_ok room T s"


lemma sum_upd:
  fixes f :: "'b \<Rightarrow> nat"
  assumes "finite T" "tk \<in> T"
  shows "(\<Sum>t\<in>T. f ((g(tk := y)) t)) + f (g tk) = (\<Sum>t\<in>T. f (g t)) + f y"
proof -
  have "(\<Sum>t\<in>T - {tk}. f ((g(tk := y)) t)) = (\<Sum>t\<in>T - {tk}. f (g t))" by (rule sum.cong) auto
  then show ?thesis using assms by (simp add: sum.remove [of T tk])
qed

text \<open>What the three forms of \<open>Push\<close> and of \<open>Pop\<close> leave.\<close>

lemma call_cases [consumes 1, case_names reader room full]:
  assumes "chan_rep c pending (Suc n)"
  obtains (reader) r rs c' where "rq c = r # rs" "pending = []" "wq c = []"
      "Push tk v (- 1) c = Some (chan_result.Returns True None, [Wake r True (Some v)], c')"
      "chan_rep c' [] n" "rq c' = rs" "wq c' = []"
  | (room) c' where "rq c = []" "wq c = []" "Push tk v (- 1) c = Some (chan_result.Returns True None, [], c')"
      "chan_rep c' (pending @ [v]) n" "rq c' = []" "wq c' = []"
  | (full) c' where "rq c = []" "Push tk v (- 1) c = Some (Waits, [], c')"
      "chan_rep c' (pending @ [v]) (Suc n)" "rq c' = []" "wq c' = wq c @ [(tk, v)]"
proof -
  consider r rs where "rq c = r # rs" | "rq c = []" "length pending < chan_cap c" | "rq c = []" "chan_cap c \<le> length pending"
    by (cases "rq c"; cases "length pending < chan_cap c") (auto simp: not_less)
  then show thesis
  proof cases
    case 1
    then have "pending = []" "wq c = []" using assms by (auto simp: chan_rep_def)
    then show thesis using Push_reader [OF assms 1, of tk v "- 1"] 1 reader by metis
  next
    case 2
    have "wq c = []" using assms 2 by (auto simp: chan_rep_def)
    then show thesis using Push_room [OF assms 2, of tk v "- 1"] 2 room by blast
  next
    case 3
    have "(- 1 :: int) \<noteq> 0" by simp
    from Push_full(2) [OF assms 3 this, of tk v] 3 full show thesis by blast
  qed
qed


definition call_made :: "nat \<Rightarrow> addr set \<Rightarrow> (addr \<Rightarrow> 'a prog_op list) \<Rightarrow> addr \<Rightarrow> 'a chan_prog \<Rightarrow> bool \<times> addr list \<times> 'a chan_prog \<Rightarrow> bool" where
  "call_made room T prog tk s r \<longleftrightarrow> (case r of (waits, ws, s') \<Rightarrow> comm_ok room T prog s' \<and> distinct ws \<and> set ws \<subseteq> waiting s
     \<and> waiting s' = waiting s - set ws \<union> (if waits then {tk} else {}) \<and> todo s' = todo s \<and> returned s' = returned s
     \<and> dom (notified s') = dom (notified s) \<union> set ws)"

text \<open>A task that may make its next call.\<close>

definition ready :: "addr set \<Rightarrow> addr \<Rightarrow> 'a chan_prog \<Rightarrow> bool" where
  "ready T tk s \<longleftrightarrow> tk \<in> T \<and> tk \<notin> waiting s \<and> tk \<notin> returned s \<and> notified s tk = None"

lemmas comm_defs = comm_ok_def task_ok_def waits_ok_def results_def ready_def

text \<open>When a waiting task was taken out of its queue, the others wait as before.\<close>

lemma waits_ok_wake:
  assumes wo: "waits_ok T s" and r: "ready T tk s"
    and w: "waiting t = waiting s - {a}" "set (rq (ch t)) \<subseteq> set (rq (ch s))" "set (wq (ch t)) \<subseteq> set (wq (ch s))"
    and d: "distinct (rq (ch t) @ map fst (wq (ch t)))" and a: "a \<in> waiting s"
    and f: "returned t = returned s" "\<And>x. x \<noteq> tk \<Longrightarrow> todo t x = todo s x" "\<And>x. x \<noteq> a \<Longrightarrow> notified t x = notified s x"
  shows "waits_ok T t"
proof -
  have S: "waiting s \<subseteq> T - returned s" "\<And>x. x \<in> waiting s \<Longrightarrow> notified s x = None"
    "\<And>x. x \<in> returned s \<Longrightarrow> notified s x = None \<and> todo s x = []"
    "\<And>x. x \<in> set (rq (ch s)) \<Longrightarrow> push_vals (todo s x) = []" "\<And>y. y \<in> set (wq (ch s)) \<Longrightarrow> pop_count (todo s (fst y)) = 0"
    using wo by (simp_all add: waits_ok_def)
  have tk: "tk \<notin> set (rq (ch s))" "tk \<notin> fst ` set (wq (ch s))" "tk \<notin> returned s"
    using r unfolding ready_def waiting_def by blast+
  have na: "a \<notin> returned s" using a S(1) by blast
  have "waiting t \<subseteq> T - returned t" using S(1) unfolding w(1) f(1) by blast
  moreover have "\<forall>x\<in>waiting t. notified t x = None" using S(2) f(3) unfolding w(1) by auto
  moreover have "\<forall>x\<in>returned t. notified t x = None \<and> todo t x = []"
    using S(3) f(2,3) na tk(3) unfolding f(1) by metis
  moreover have "\<forall>x\<in>set (rq (ch t)). push_vals (todo t x) = []" using S(4) f(2) w(2) tk(1) by (metis subsetD)
  moreover have "\<forall>x\<in>fst ` set (wq (ch t)). pop_count (todo t x) = 0"
  proof
    fix x
    assume "x \<in> fst ` set (wq (ch t))"
    then obtain y where "y \<in> set (wq (ch s))" "x = fst y" using w(3) by blast
    moreover from this have "x \<noteq> tk" using tk(2) by blast
    ultimately show "pop_count (todo t x) = 0" using S(5) f(2) by simp
  qed
  ultimately show ?thesis using d by (simp add: waits_ok_def)
qed

lemma pop_count_step:
  assumes "finite T" "tk \<in> T" "todo s tk = x # xs"
  shows "(\<Sum>t\<in>T. pop_count (((todo s)(tk := xs)) t)) + pop_count [x] = (\<Sum>t\<in>T. pop_count (todo s t))"
    and "(\<Sum>t\<in>T. length (push_vals (((todo s)(tk := xs)) t))) + length (push_vals [x]) = (\<Sum>t\<in>T. length (push_vals (todo s t)))"
  using sum_upd [OF assms(1,2), of pop_count "todo s" xs] sum_upd [OF assms(1,2), of "length \<circ> push_vals" "todo s" xs] assms(3)
  by (cases x; simp)+

lemma call_Push_ok:
  assumes ok: "comm_ok room T prog s" and r: "ready T tk s" and x: "todo s tk = Do_Push v # xs"
  shows "\<exists>r. call_Push room tk v (s\<lparr>todo := (todo s)(tk := xs)\<rparr>) = Some r \<and> call_made room T prog tk (s\<lparr>todo := (todo s)(tk := xs)\<rparr>) r"
proof -
  let ?s = "s\<lparr>todo := (todo s)(tk := xs)\<rparr>"
  have T: "finite T" "tk \<in> T" using ok r by (auto simp: comm_defs)
  note sums = pop_count_step [OF T x]
  obtain pending m where all: "chan_rep (ch s) pending m"
    "(\<Sum>t\<in>T. length (push_vals (todo s t)) + pop_count (todo s t)) \<le> m"
    "bytes s + (\<Sum>t\<in>T. length (push_vals (todo s t)) + pop_count (todo s t)) \<le> room"
    "(\<Sum>t\<in>T. length (push_vals (todo s t))) + length pending = (\<Sum>t\<in>T. pop_count (todo s t)) + length (rq (ch s))"
    "map snd (sent_log s) = map snd (recv_log s) @ pending"
    using ok unfolding comm_ok_def all_ok_def by blast
  have "m \<noteq> 0" using all(2) sums by (auto simp: sum.distrib)
  then obtain n where m: "m = Suc n" by (cases m) auto
  have b: "bytes s < room" using all(3) sums by (auto simp: sum.distrib)
  have side: "pop_count xs = 0" using ok T x by (auto simp: comm_defs one_sided_def)
  have wo: "waits_ok T s" using ok by (simp add: comm_ok_def)
  have tko: "task_ok prog s t" if "t \<in> T" for t using ok that by (simp add: comm_ok_def)
  from all(1) [unfolded m] show ?thesis
  proof (cases rule: call_cases [where tk = tk and v = v])
    case (reader r rs c')
    let ?t = "?s\<lparr>ch := c', notified := (notified s)(r \<mapsto> (True, Some v)), bytes := bytes s + 1, sent_log := sent_log s @ [(tk, v)],
      recv_log := recv_log s @ [(r, v)], got := (got s)(tk := got s tk @ [(True, None)])\<rparr>"
    have c: "call_Push room tk v ?s = Some (False, [r], ?t)"
      using reader(4) b by (simp add: call_Push_def after_call_def add_result_def)
    have "r \<noteq> tk" using reader(1) assms by (auto simp: comm_defs waiting_def)
    have w: "waiting s = insert r (set rs)" "waiting ?t = set rs" "r \<notin> set rs"
      using reader ok by (auto simp: waiting_def comm_defs)
    have tkn: "tk \<notin> waiting s" "notified s tk = None" using r by (simp_all add: ready_def)
    have nr: "notified s r = None" "r \<in> waiting s" using wo w by (simp_all add: waits_ok_def)
    define u where "u = ?t"
    have f: "todo u = (todo s)(tk := xs)" "notified u = (notified s)(r \<mapsto> (True, Some v))" "sent_log u = sent_log s @ [(tk, v)]"
      "recv_log u = recv_log s @ [(r, v)]" "got u = (got s)(tk := got s tk @ [(True, None)])" by (simp_all add: u_def)
    have wu: "t \<in> waiting u \<longleftrightarrow> t \<in> waiting s \<and> t \<noteq> r" for t unfolding u_def w using w(3) by auto
    have "task_ok prog u t" if "t \<in> T" for t
      using tko [OF that] \<open>r \<noteq> tk\<close> x tkn nr
      by (cases "t = tk"; cases "t = r") (simp_all add: task_ok_def results_def one_sided_def f wu)
    then have "task_ok prog ?t t" if "t \<in> T" for t using that unfolding u_def .
    moreover have "distinct rs" using wo reader by (simp add: waits_ok_def)
    then have "waits_ok T ?t"
      by (intro waits_ok_wake [OF wo r, where a = r]) (use reader w in \<open>auto simp: waiting_def\<close>)
    moreover have "all_ok room T ?t"
      unfolding all_ok_def using reader all sums m by (intro exI [of _ "[]"] exI [of _ n]) (simp add: sum.distrib)
    ultimately have "call_made room T prog tk ?s (False, [r], ?t)"
      using ok w by (auto simp: call_made_def comm_ok_def waiting_def)
    then show ?thesis using c by blast
  next
    case (room c')
    let ?t = "?s\<lparr>ch := c', sent_log := sent_log s @ [(tk, v)], got := (got s)(tk := got s tk @ [(True, None)])\<rparr>"
    have c: "call_Push room tk v ?s = Some (False, [], ?t)"
      using room b by (simp add: call_Push_def after_call_def add_result_def)
    have w: "waiting s = {}" "waiting ?t = {}" using room by (auto simp: waiting_def)
    have "task_ok prog ?t t" if "t \<in> T" for t
      using tko [OF that] w x r by (auto simp: comm_defs one_sided_def)
    moreover have "waits_ok T ?t" using ok room w r by (auto simp: comm_defs)
    moreover have "all_ok room T ?t"
      unfolding all_ok_def using room all sums m by (intro exI [of _ "pending @ [v]"] exI [of _ n]) (simp add: sum.distrib)
    ultimately have "call_made room T prog tk ?s (False, [], ?t)"
      using ok w by (auto simp: call_made_def comm_ok_def waiting_def)
    then show ?thesis using c by blast
  next
    case (full c')
    let ?t = "?s\<lparr>ch := c', sent_log := sent_log s @ [(tk, v)]\<rparr>"
    have c: "call_Push room tk v ?s = Some (True, [], ?t)"
      using full by (simp add: call_Push_def after_call_def)
    have w: "waiting ?t = insert tk (waiting s)" using full by (auto simp: waiting_def)
    have "task_ok prog ?t t" if "t \<in> T" for t
      using tko [OF that] w x r by (auto simp: comm_defs one_sided_def)
    moreover have "waits_ok T ?t" using ok full w r side by (auto simp: comm_defs waiting_def)
    moreover have "all_ok room T ?t"
      unfolding all_ok_def using full all sums m by (intro exI [of _ "pending @ [v]"] exI [of _ "Suc n"]) (simp add: sum.distrib)
    ultimately have "call_made room T prog tk ?s (True, [], ?t)"
      using ok w by (auto simp: call_made_def comm_ok_def waiting_def)
    then show ?thesis using c by blast
  qed
qed


lemma call_Pop_ok:
  assumes ok: "comm_ok room T prog s" and r: "ready T tk s" and x: "todo s tk = Do_Pop # xs"
  shows "\<exists>r. call_Pop room tk (s\<lparr>todo := (todo s)(tk := xs)\<rparr>) = Some r \<and> call_made room T prog tk (s\<lparr>todo := (todo s)(tk := xs)\<rparr>) r"
proof -
  let ?s = "s\<lparr>todo := (todo s)(tk := xs)\<rparr>"
  have T: "finite T" "tk \<in> T" using ok r by (auto simp: comm_defs)
  note sums = pop_count_step [OF T x]
  obtain pending m where all: "chan_rep (ch s) pending m"
    "(\<Sum>t\<in>T. length (push_vals (todo s t)) + pop_count (todo s t)) \<le> m"
    "bytes s + (\<Sum>t\<in>T. length (push_vals (todo s t)) + pop_count (todo s t)) \<le> room"
    "(\<Sum>t\<in>T. length (push_vals (todo s t))) + length pending = (\<Sum>t\<in>T. pop_count (todo s t)) + length (rq (ch s))"
    "map snd (sent_log s) = map snd (recv_log s) @ pending"
    using ok unfolding comm_ok_def all_ok_def by blast
  have "m \<noteq> 0" using all(2) sums by (auto simp: sum.distrib)
  then obtain n where m: "m = Suc n" by (cases m) auto
  have b: "bytes s < room" using all(3) sums by (auto simp: sum.distrib)
  have side: "push_vals xs = []" using ok T x by (auto simp: comm_defs one_sided_def)
  have wo: "waits_ok T s" using ok by (simp add: comm_ok_def)
  have tko: "task_ok prog s t" if "t \<in> T" for t using ok that by (simp add: comm_ok_def)
  show ?thesis
  proof (cases pending)
    case Nil
    have "(- 1 :: int) \<noteq> 0" by simp
    from Pop_empty(2) [OF all(1) [unfolded Nil] this, of tk] obtain c' where empty: "Pop tk (- 1) (ch s) = Some (Waits, [], c')"
      "chan_rep c' [] m" "rq c' = rq (ch s) @ [tk]" "wq c' = []" by blast
    have "wq (ch s) = []" using all(1) Nil by (auto simp: chan_rep_def)
    let ?t = "?s\<lparr>ch := c'\<rparr>"
    have c: "call_Pop room tk ?s = Some (True, [], ?t)" using empty by (simp add: call_Pop_def after_call_def)
    have w: "waiting ?t = insert tk (waiting s)" using empty \<open>wq (ch s) = []\<close> by (auto simp: waiting_def)
    have "task_ok prog ?t t" if "t \<in> T" for t
      using tko [OF that] w x r by (auto simp: comm_defs one_sided_def)
    moreover have "waits_ok T ?t" using ok empty w r side \<open>wq (ch s) = []\<close> by (auto simp: comm_defs waiting_def)
    moreover have "all_ok room T ?t"
      unfolding all_ok_def using empty all sums Nil by (intro exI [of _ "[]"] exI [of _ m]) (simp add: sum.distrib)
    ultimately have "call_made room T prog tk ?s (True, [], ?t)"
      using ok w by (auto simp: call_made_def comm_ok_def waiting_def)
    then show ?thesis using c by blast
  next
    case (Cons v p)
    from Pop_value [OF all(1) [unfolded m Cons], of tk "- 1"] obtain c' k where val: "Pop tk (- 1) (ch s)
        = Some (chan_result.Returns True (Some v), case wq (ch s) of [] \<Rightarrow> [] | w # ws \<Rightarrow> [Wake (fst w) True None], c')"
      "n \<le> k" "chan_rep c' p k" "rq c' = []" "wq c' = tl (wq (ch s))" by blast
    have rq: "rq (ch s) = []" using all(1) Cons by (auto simp: chan_rep_def)
    show ?thesis
    proof (cases "wq (ch s)")
      case Nil
      let ?t = "?s\<lparr>ch := c', recv_log := recv_log s @ [(tk, v)], got := (got s)(tk := got s tk @ [(True, Some v)])\<rparr>"
      have c: "call_Pop room tk ?s = Some (False, [], ?t)"
        using val Nil b by (simp add: call_Pop_def after_call_def add_result_def)
      have w: "waiting s = {}" "waiting ?t = {}" using Nil rq val by (auto simp: waiting_def)
      have "task_ok prog ?t t" if "t \<in> T" for t
        using tko [OF that] w x r by (auto simp: comm_defs one_sided_def)
      moreover have "waits_ok T ?t" using ok Nil val w r by (auto simp: comm_defs)
      moreover have "all_ok room T ?t"
        unfolding all_ok_def using val all sums m Cons rq by (intro exI [of _ p] exI [of _ k]) (simp add: sum.distrib)
      ultimately have "call_made room T prog tk ?s (False, [], ?t)"
        using ok w by (auto simp: call_made_def comm_ok_def waiting_def)
      then show ?thesis using c by blast
    next
      case (Cons u us)
      obtain a y where u: "u = (a, y)" by (cases u)
      let ?t = "?s\<lparr>ch := c', notified := (notified s)(a \<mapsto> (True, None)), bytes := bytes s + 1, recv_log := recv_log s @ [(tk, v)],
        got := (got s)(tk := got s tk @ [(True, Some v)])\<rparr>"
      have c: "call_Pop room tk ?s = Some (False, [a], ?t)"
        using val Cons u b by (simp add: call_Pop_def after_call_def add_result_def)
      have "a \<noteq> tk" using Cons u assms by (auto simp: comm_defs waiting_def)
      have w: "waiting s = insert a (fst ` set us)" "waiting ?t = fst ` set us" "a \<notin> fst ` set us"
        using Cons u rq val ok by (auto simp: waiting_def comm_defs)
      have tkn: "tk \<notin> waiting s" "notified s tk = None" using r by (simp_all add: ready_def)
      have na: "notified s a = None" "a \<in> waiting s" using wo w by (simp_all add: waits_ok_def)
      define u where "u = ?t"
      have f: "todo u = (todo s)(tk := xs)" "notified u = (notified s)(a \<mapsto> (True, None))" "sent_log u = sent_log s"
        "recv_log u = recv_log s @ [(tk, v)]" "got u = (got s)(tk := got s tk @ [(True, Some v)])" by (simp_all add: u_def)
      have wu: "t \<in> waiting u \<longleftrightarrow> t \<in> waiting s \<and> t \<noteq> a" for t unfolding u_def w using w(3) by auto
      have "task_ok prog u t" if "t \<in> T" for t
        using tko [OF that] \<open>a \<noteq> tk\<close> x tkn na
        by (cases "t = tk"; cases "t = a") (simp_all add: task_ok_def results_def one_sided_def f wu)
      then have "task_ok prog ?t t" if "t \<in> T" for t using that unfolding u_def .
      moreover have "distinct (map fst us)" using wo Cons by (simp add: waits_ok_def)
      then have "waits_ok T ?t"
        by (intro waits_ok_wake [OF wo r, where a = a]) (use Cons u rq val(4,5) w in \<open>auto simp: waiting_def\<close>)
      moreover have "all_ok room T ?t"
        unfolding all_ok_def using val all sums m \<open>pending = v # p\<close> rq by (intro exI [of _ p] exI [of _ k]) (simp add: sum.distrib)
      ultimately have "call_made room T prog tk ?s (False, [a], ?t)"
        using ok w by (auto simp: call_made_def comm_ok_def waiting_def)
      then show ?thesis using c by blast
    qed
  qed
qed


lemma yield_ok:
  assumes ok: "comm_ok room T prog s" and r: "ready T tk s" and x: "todo s tk = Do_Yield # xs"
  shows "comm_ok room T prog (s\<lparr>todo := (todo s)(tk := xs)\<rparr>)"
proof -
  let ?t = "s\<lparr>todo := (todo s)(tk := xs)\<rparr>"
  have T: "finite T" "tk \<in> T" using ok r by (auto simp: comm_defs)
  note sums = pop_count_step [OF T x]
  have w: "waiting ?t = waiting s" by (simp add: waiting_def)
  have "task_ok prog ?t t" if "t \<in> T" for t
    using ok that w x by (auto simp: comm_ok_def task_ok_def results_def one_sided_def)
  moreover have "waits_ok T ?t" using ok w x r by (auto simp: comm_defs waiting_def)
  moreover have "all_ok room T ?t" using ok sums by (simp add: comm_ok_def all_ok_def sum.distrib)
  ultimately show ?thesis using ok by (simp add: comm_ok_def)
qed

lemma returned_ok:
  assumes ok: "comm_ok room T prog s" and r: "ready T tk s" and x: "todo s tk = []"
  shows "comm_ok room T prog (s\<lparr>returned := insert tk (returned s)\<rparr>)"
proof -
  let ?t = "s\<lparr>returned := insert tk (returned s)\<rparr>"
  have w: "waiting ?t = waiting s" by (simp add: waiting_def)
  have "task_ok prog ?t t" if "t \<in> T" for t using ok that w by (simp add: comm_ok_def task_ok_def results_def)
  moreover have "waits_ok T ?t" using ok w r x unfolding comm_ok_def waits_ok_def ready_def by auto
  moreover have "all_ok room T ?t" using ok by (simp add: comm_ok_def all_ok_def)
  ultimately show ?thesis using ok r by (simp add: comm_ok_def ready_def)
qed

text \<open>What a slice of a ready task leaves.\<close>

definition slice_made :: "nat \<Rightarrow> addr set \<Rightarrow> (addr \<Rightarrow> 'a prog_op list) \<Rightarrow> addr \<Rightarrow> 'a chan_prog \<Rightarrow> addr list \<Rightarrow> slice_end \<Rightarrow> 'a chan_prog \<Rightarrow> bool" where
  "slice_made room T prog tk s ws k s' \<longleftrightarrow> comm_ok room T prog s' \<and> distinct ws \<and> set ws \<subseteq> waiting s
     \<and> waiting s' = waiting s - set ws \<union> (if k = Suspends then {tk} else {})
     \<and> returned s' = returned s \<union> (if k = slice_end.Returns then {tk} else {})
     \<and> k \<in> {slice_end.Returns, Yields, Suspends} \<and> (\<forall>t. t \<noteq> tk \<longrightarrow> todo s' t = todo s t)
     \<and> (if k = slice_end.Returns then todo s' tk = [] else length (todo s' tk) < length (todo s tk))"

lemma exec_ops_ok:
  assumes "comm_ok room T prog s" "ready T tk s" "todo s tk = xs"
  shows "\<exists>ws k s'. exec_ops room tk xs s = Some (ws, k, s') \<and> slice_made room T prog tk s ws k s'"
  using assms
proof (induction xs arbitrary: s)
  case Nil
  then show ?case using returned_ok [OF Nil.prems] by (auto simp: slice_made_def waiting_def)
next
  case (Cons x xs)
  let ?s = "s\<lparr>todo := (todo s)(tk := xs)\<rparr>"
  note ok = Cons.prems(1) and r = Cons.prems(2) and x = Cons.prems(3)
  have "tk \<in> T" using r by (simp add: ready_def)
  have ws: "waiting ?s = waiting s" by (simp add: waiting_def)
  show ?case
  proof (cases "x = Do_Yield")
    case True
    then show ?thesis using yield_ok [OF ok r] x ws by (auto simp: slice_made_def)
  next
    case False
    define call where "call = (case x of Do_Push v \<Rightarrow> call_Push room tk v ?s | _ \<Rightarrow> call_Pop room tk ?s)"
    obtain waits ws1 s1 where c: "call = Some (waits, ws1, s1)" "call_made room T prog tk ?s (waits, ws1, s1)"
      using call_Push_ok [OF ok r] call_Pop_ok [OF ok r] x False
      by (cases x) (auto simp: call_def)
    have e: "exec_ops room tk (x # xs) s = (if waits then Some (ws1, Suspends, s1)
        else map_option (\<lambda>(us, k, s). (ws1 @ us, k, s)) (exec_ops room tk xs s1))"
      using False c(1) by (cases x) (simp_all add: call_def Let_def)
    have m: "comm_ok room T prog s1" "distinct ws1" "set ws1 \<subseteq> waiting s"
      "waiting s1 = waiting s - set ws1 \<union> (if waits then {tk} else {})" "todo s1 = (todo s)(tk := xs)"
      "returned s1 = returned s" "dom (notified s1) = dom (notified s) \<union> set ws1"
      using c(2) ws by (simp_all add: call_made_def)
    show ?thesis
    proof (cases waits)
      case True
      then show ?thesis using e m x by (auto simp: slice_made_def)
    next
      case False
      have "tk \<notin> set ws1" "tk \<notin> dom (notified s)" using m(3) r by (auto simp: ready_def)
      then have "notified s1 tk = None" using m(7) by auto
      then have "ready T tk s1" using r m False by (simp add: ready_def)
      then obtain us k s2 where 2: "exec_ops room tk xs s1 = Some (us, k, s2)" "slice_made room T prog tk s1 us k s2"
        using Cons.IH [OF m(1)] m(5) by auto
      then have "slice_made room T prog tk s (ws1 @ us) k s2"
        using m x False by (auto simp: slice_made_def)
      then show ?thesis using e False 2(1) by simp
    qed
  qed
qed

lemma resume_ok:
  assumes "comm_ok room T prog s" "tk \<in> T" "tk \<notin> waiting s" "tk \<notin> returned s"
  shows "comm_ok room T prog (resume tk s) \<and> ready T tk (resume tk s) \<and> waiting (resume tk s) = waiting s
    \<and> todo (resume tk s) = todo s \<and> returned (resume tk s) = returned s"
proof (cases "notified s tk")
  case None
  then show ?thesis using assms by (simp add: resume_def ready_def)
next
  case (Some r)
  have f: "waiting (resume tk s) = waiting s" "todo (resume tk s) = todo s" "returned (resume tk s) = returned s"
    "ch (resume tk s) = ch s" "sent_log (resume tk s) = sent_log s" "recv_log (resume tk s) = recv_log s"
    "notified (resume tk s) = (notified s)(tk := None)" "results (resume tk s) t = results s t"
    "bytes (resume tk s) = bytes s" for t
    using Some by (auto simp: resume_def waiting_def add_result_def results_def after_waite_def split: prod.splits)
  then have "comm_ok room T prog (resume tk s)"
    using assms by (auto simp: comm_ok_def task_ok_def waits_ok_def all_ok_def)
  then show ?thesis using f assms by (simp add: ready_def)
qed


section \<open>The tasks on the run loop\<close>

lemma do_wakes:
  "set ws \<subseteq> dom (tasks w) \<Longrightarrow> do_task_calls e (map Call_Wake ws) p w
     = Some (p\<lparr>runnableQueue := runnableQueue p @ ws\<rparr>, awake (set ws) w)"
proof (induction ws arbitrary: p w)
  case (Cons t ws)
  have "tasks w t \<noteq> None" "set ws \<subseteq> dom (tasks (awake {t} w))" using Cons.prems by (auto simp: awake_def)
  then show ?case using Cons.IH [of "awake {t} w"] by (simp add: wakeup_awake insert_commute)
qed simp

text \<open>Waking others first and acting on the own task afterwards is the same step.\<close>

lemma process_step_wakes:
  assumes "set ws \<subseteq> dom (tasks w)" "tk \<notin> set ws"
  shows "process_step e self (map Call_Wake ws, k) tk p w
    = process_step e self ([], k) tk (p\<lparr>runnableQueue := runnableQueue p @ ws\<rparr>) (awake (set ws) w)"
proof (cases "tasks w tk")
  case None
  then show ?thesis using assms by (simp add: process_step_def upd_task_def awake_def)
next
  case (Some t)
  let ?f = "\<lambda>k. k\<lparr>t_state := Runnable, t_proc := Some self\<rparr>"
  let ?w = "w\<lparr>tasks := (tasks w)(tk \<mapsto> ?f t)\<rparr>"
  have a: "awake (set ws) ?w = (awake (set ws) w)\<lparr>tasks := (tasks (awake (set ws) w))(tk \<mapsto> ?f t)\<rparr>"
    using assms(2) by (auto simp: awake_def fun_eq_iff)
  have d: "set ws \<subseteq> dom (tasks ?w)" using assms(1) by auto
  have r: "run_slice e (map Call_Wake ws, k) tk (q\<lparr>switchCount := c\<rparr>) ?w
      = run_slice e ([], k) tk (q\<lparr>runnableQueue := runnableQueue q @ ws, switchCount := c\<rparr>) (awake (set ws) ?w)" for q c
    by (cases q) (simp add: run_slice_def do_wakes [OF d])
  have u: "upd_task tk ?f w = Some ?w" "upd_task tk ?f (awake (set ws) w) = Some (awake (set ws) ?w)"
    using Some assms(2) unfolding a by (simp_all add: upd_task_def awake_def)
  show ?thesis by (simp add: process_step_def u r Let_def)
qed

lemma pool_ok_awake: "pool_ok w \<Longrightarrow> pool_ok (awake A w)"
proof -
  assume ok: "pool_ok w"
  have "dom (tasks (awake A w)) = dom (tasks w)" by (auto simp: awake_def dom_def)
  moreover have "free_task_map (awake A w) = free_task_map w" by (simp add: awake_def)
  moreover have "tasks (awake A w) a = Some k" if "tasks w a = Some k" "t_state k = Runnable" for a k
    using that by (cases k) (simp add: awake_def)
  ultimately show ?thesis using ok unfolding pool_ok_def by fastforce
qed

lemma in_use_awake [simp]: "in_use t (awake A w) = in_use t w"
  by (simp add: in_use_def awake_def free_tasks_def)

lemma sched_ok_awake:
  assumes "sched_ok p w" "distinct ws" "\<forall>t\<in>set ws. in_use t w \<and> t \<notin> set (runnableQueue p @ newQueue p)"
  shows "sched_ok (p\<lparr>runnableQueue := runnableQueue p @ ws\<rparr>) (awake (set ws) w)"
  using assms by (auto simp: sched_ok_def pool_ok_awake)

definition work :: "addr set \<Rightarrow> 'a chan_prog \<Rightarrow> nat" where
  "work T s = (\<Sum>t\<in>T - returned s. length (todo s t) + 1)"

text \<open>
  Every task is queued, waits in the channel, blocked, or has returned and is in the cache.
\<close>

definition joint_ok :: "nat \<Rightarrow> addr set \<Rightarrow> (addr \<Rightarrow> 'a prog_op list) \<Rightarrow> uint32 \<Rightarrow> 'a chan_prog \<Rightarrow> proc \<Rightarrow> 'f world \<Rightarrow> bool" where
  "joint_ok room T prog n s p w \<longleftrightarrow> comm_ok room T prog s \<and> sched_ok p w
     \<and> set (runnableQueue p @ newQueue p) = T - returned s - waiting s
     \<and> (\<forall>t\<in>waiting s. in_use t w \<and> task_state_of t w = Some Block) \<and> returned s \<subseteq> free_tasks w
     \<and> taskCount w + of_nat (card (returned s)) = n"

lemma work_less:
  assumes "finite T" "tk \<in> T" "tk \<notin> returned s" "slice_made room T prog tk s ws k s'"
  shows "work T s' < work T s"
proof (cases "k = slice_end.Returns")
  case True
  have "work T s' = (\<Sum>t\<in>T - returned s - {tk}. length (todo s t) + 1)"
    unfolding work_def using assms(4) True by (intro sum.cong) (auto simp: slice_made_def)
  also have "\<dots> < (\<Sum>t\<in>T - returned s. length (todo s t) + 1)"
    using assms(1-3) by (intro sum_strict_mono2 [where b = tk]) auto
  finally show ?thesis by (simp add: work_def)
next
  case False
  have "returned s' = returned s" using assms(4) False by (simp add: slice_made_def)
  moreover have "(\<Sum>t\<in>T - returned s. length (todo s' t) + 1) < (\<Sum>t\<in>T - returned s. length (todo s t) + 1)"
  proof (rule sum_strict_mono_ex1)
    have "length (todo s' t) \<le> length (todo s t)" for t
      using assms(4) False by (cases "t = tk") (auto simp: slice_made_def)
    then show "\<forall>t\<in>T - returned s. length (todo s' t) + 1 \<le> length (todo s t) + 1" by simp
    show "\<exists>t\<in>T - returned s. length (todo s' t) + 1 < length (todo s t) + 1"
      using assms False by (intro bexI [of _ tk]) (auto simp: slice_made_def)
  qed (use assms(1) in simp)
  ultimately show ?thesis by (simp add: work_def)
qed


lemma joint_step:
  fixes w :: "'f world" and s :: "'a chan_prog"
  assumes J: "joint_ok room T prog n s p w" and e: "env_ok e"
    and q: "runnableQueue p = pre @ tk # rest" "runningTask p = Some tk" "nextTask p = None"
  shows "\<exists>ws k s' p' w' pre'. (chan_slice room tk (Some s) :: 'f slice \<times> 'a chan_prog option) = ((map Call_Wake ws, k), Some s')
    \<and> process_step e self (map Call_Wake ws, k) tk p w = Some (p', w') \<and> joint_ok room T prog n s' p' w'
    \<and> work T s' < work T s \<and> runnableQueue p' = pre' @ rest @ ws \<and> runningTask p' = elem_front (rest @ ws)
    \<and> nextTask p' = None \<and> newQueue p' = newQueue p \<and> stopped w' = stopped w"
proof -
  have C: "comm_ok room T prog s" "sched_ok p w" "set (runnableQueue p @ newQueue p) = T - returned s - waiting s"
    "\<forall>t\<in>waiting s. in_use t w \<and> task_state_of t w = Some Block" "returned s \<subseteq> free_tasks w"
    "taskCount w + of_nat (card (returned s)) = n"
    using J by (auto simp: joint_ok_def)
  have fin: "finite T" "returned s \<subseteq> T" using C(1) by (auto simp: comm_ok_def)
  have tk: "tk \<in> T" "tk \<notin> returned s" "tk \<notin> waiting s" using C(3) q(1) by auto
  note R = resume_ok [OF C(1) tk(1,3,2)]
  obtain ws k s' where x: "exec_ops room tk (todo s tk) (resume tk s) = Some (ws, k, s')"
    "slice_made room T prog tk (resume tk s) ws k s'"
    using exec_ops_ok [of room T prog "resume tk s" tk "todo s tk"] R by auto
  have "todo (resume tk s) = todo s" "waiting (resume tk s) = waiting s" "returned (resume tk s) = returned s" using R by simp_all
  then have m: "slice_made room T prog tk s ws k s'"
    using x(2) by (cases "k = slice_end.Returns") (simp_all add: slice_made_def)
  have ws: "distinct ws" "set ws \<subseteq> waiting s" "tk \<notin> set ws" using m tk by (auto simp: slice_made_def)
  let ?p = "p\<lparr>runnableQueue := runnableQueue p @ ws\<rparr>" and ?w = "awake (set ws) w"
  have ok: "sched_ok ?p ?w" by (rule sched_ok_awake [OF C(2) ws(1)]) (use ws(2) C(3,4) in auto)
  have "only_new (fst ([], k))" by (simp add: only_new_def)
  from process_step_ok [OF ok e this, of pre tk "rest @ ws" self] q obtain p' w' where
    st: "process_step e self ([], k) tk ?p ?w = Some (p', w')" "sched_ok p' w'" "keeps_others {tk} ?w w'"
      "after_slice ([], k) tk w'" "newQueue p' = newQueue p" "taskCount w' = taskCount ?w - (if k = slice_end.Returns then 1 else 0)"
      "runningTask p' = elem_front (rest @ ws)" "nextTask p' = None" "free_tasks ?w \<subseteq> free_tasks w'"
      "runnableQueue p' = pre @ (if keeps k then [tk] else []) @ rest @ ws"
    by (auto simp: step_delta_def)
  have "set ws \<subseteq> dom (tasks w)" using ws(2) C(4) by (auto simp: in_use_def)
  then have step: "process_step e self (map Call_Wake ws, k) tk p w = Some (p', w')"
    using process_step_wakes [of ws w tk e self k p] ws(3) st(1) by simp
  have fr: "free_tasks ?w = free_tasks w" by (simp add: free_tasks_def awake_def)
  have k: "k \<in> {slice_end.Returns, Yields, Suspends}" and keeps: "keeps k \<longleftrightarrow> k = Yields"
    using m by (auto simp: slice_made_def keeps_def)
  have W: "waiting s' = waiting s - set ws \<union> (if k = Suspends then {tk} else {})"
    and D: "returned s' = returned s \<union> (if k = slice_end.Returns then {tk} else {})"
    using m by (simp_all add: slice_made_def)
  have "set (runnableQueue p' @ newQueue p') = T - returned s' - waiting s'"
  proof -
    have dq: "tk \<notin> set pre \<union> set rest \<union> set (newQueue p)" using C(2) q(1) by (auto simp: sched_ok_def)
    have "waiting s \<subseteq> T - returned s" using C(1) by (simp add: comm_ok_def waits_ok_def)
    moreover have "set pre \<union> {tk} \<union> set rest \<union> set (newQueue p) = T - returned s - waiting s" using C(3) q(1) by auto
    ultimately show ?thesis using st(5,10) W D k keeps ws(2) tk dq by auto
  qed
  moreover have "in_use t w' \<and> task_state_of t w' = Some Block" if t: "t \<in> waiting s'" for t
  proof (cases "t = tk")
    case True
    then have "k = Suspends" using t W tk by (auto split: if_splits)
    then show ?thesis using st(4) True by (simp add: after_slice_def keeps_def)
  next
    case False
    then have t': "t \<in> waiting s" "t \<notin> set ws" using t W by (auto split: if_splits)
    then have "in_use t ?w" "tasks ?w t = tasks w t" "task_state_of t w = Some Block" using C(4) by (auto simp: awake_def in_use_def free_tasks_def)
    then show ?thesis using keeps_othersD [OF st(3)] False by (auto simp: task_state_of_def)
  qed
  moreover have "returned s' \<subseteq> free_tasks w'"
    using C(5) st(4,9) D fr by (auto simp: after_slice_def split: if_splits)
  moreover have "taskCount w' + of_nat (card (returned s')) = n"
  proof -
    have "card (returned s') = card (returned s) + (if k = slice_end.Returns then 1 else 0)"
      using D tk fin by (simp add: finite_subset)
    moreover have "taskCount ?w = taskCount w" by (simp add: awake_def)
    ultimately show ?thesis using C(6) st(6) by auto
  qed
  moreover have "comm_ok room T prog s'" using m by (simp add: slice_made_def)
  ultimately have "joint_ok room T prog n s' p' w'" using st(2) by (simp add: joint_ok_def)
  moreover have "chan_slice room tk (Some s) = ((map Call_Wake ws, k), Some s')" using x(1) by (simp add: chan_slice_def)
  moreover have "stopped w' = stopped w" using st(3) by (simp add: keeps_others_def awake_def)
  ultimately show ?thesis using step st(5,7,8,10) work_less [OF fin(1) tk(1,2) m]
    by (intro exI [of _ ws] exI [of _ k] exI [of _ s'] exI [of _ p'] exI [of _ w'] exI [of _ "pre @ (if keeps k then [tk] else [])"]) simp
qed


text \<open>The round runs until it comes to the end of the queue, woken tasks included.\<close>

lemma joint_round:
  fixes w :: "'f world" and s :: "'a chan_prog"
  assumes "joint_ok room T prog n s p w" "env_ok e" "\<not> stopped w"
    and "runnableQueue p = pre @ rest" "runningTask p = elem_front rest" "nextTask p = None"
  shows "\<exists>ts s' p' w'. process_round e self (chan_slice room) (Some s) p w = Some (ts, Some s', p', w')
    \<and> joint_ok room T prog n s' p' w' \<and> \<not> stopped w' \<and> nextTask p' = None \<and> newQueue p' = newQueue p
    \<and> work T s' \<le> work T s \<and> (rest \<noteq> [] \<longrightarrow> work T s' < work T s)"
  using assms
proof (induction "work T s" arbitrary: s p w pre rest rule: less_induct)
  case less
  show ?case
  proof (cases rest)
    case Nil
    then have "runningTask p = None" using less.prems(5) by (simp add: elem_front_def)
    then have "process_round e self (chan_slice room) (Some s) p w = Some ([], Some s, p, w)"
      by (subst process_round.simps) simp
    then show ?thesis using less.prems Nil by blast
  next
    case (Cons tk rs)
    have run: "runningTask p = Some tk" using less.prems(5) Cons by (simp add: elem_front_def)
    obtain ws k s1 p1 w1 pre1 where 1: "(chan_slice room tk (Some s) :: 'f slice \<times> 'a chan_prog option) = ((map Call_Wake ws, k), Some s1)"
      "process_step e self (map Call_Wake ws, k) tk p w = Some (p1, w1)" "joint_ok room T prog n s1 p1 w1"
      "work T s1 < work T s" "runnableQueue p1 = pre1 @ rs @ ws" "runningTask p1 = elem_front (rs @ ws)"
      "nextTask p1 = None" "newQueue p1 = newQueue p" "stopped w1 = stopped w"
      using joint_step [OF less.prems(1,2) less.prems(4) [unfolded Cons] run less.prems(6), of self] by blast
    have "\<not> stopped w1" using 1(9) less.prems(3) by simp
    from less.hyps [OF 1(4,3) less.prems(2) this 1(5,6,7)] obtain ts s' p' w' where
      2: "process_round e self (chan_slice room) (Some s1) p1 w1 = Some (ts, Some s', p', w')" "joint_ok room T prog n s' p' w'"
        "\<not> stopped w'" "nextTask p' = None" "newQueue p' = newQueue p1" "work T s' \<le> work T s1" by blast
    have "process_round e self (chan_slice room) (Some s) p w = Some (tk # ts, Some s', p', w')"
      by (subst process_round.simps) (simp add: run less.prems(3) 1(1,2) 2(1))
    then show ?thesis using 2 1(4,8) by (intro exI [of _ "tk # ts"] exI [of _ s'] exI [of _ p'] exI [of _ w']) simp
  qed
qed

lemma joint_requeue:
  "joint_ok room T prog n s p w \<Longrightarrow> joint_ok room T prog n s (p\<lparr>runnableQueue := runnableQueue p @ newQueue p, newQueue := []\<rparr>) w"
  "joint_ok room T prog n s p w \<Longrightarrow> joint_ok room T prog n s (p\<lparr>runningTask := r\<rparr>) w"
  by (simp_all add: joint_ok_def sched_ok_def)

lemma joint_turn:
  assumes J: "joint_ok room T prog n s p w" "env_ok e" "\<not> stopped w" "nextTask p = None"
    and q: "runnableQueue p @ newQueue p \<noteq> []"
  shows "\<exists>ts s' p' w'. process_turn e self (chan_slice room) io cb now (Some s) p w = Some (ts, Some s', p', w')
    \<and> joint_ok room T prog n s' p' w' \<and> \<not> stopped w' \<and> nextTask p' = None \<and> work T s' < work T s"
proof -
  define p1 where "p1 = (if runnableQueue p = [] then p\<lparr>runnableQueue := newQueue p, newQueue := []\<rparr> else p)"
  define p2 where "p2 = p1\<lparr>runningTask := elem_front (runnableQueue p1)\<rparr>"
  have J2: "joint_ok room T prog n s p2 w"
    unfolding p2_def p1_def using joint_requeue(1) [OF J(1)] J(1) by (auto intro!: joint_requeue(2))
  have ne: "runnableQueue p2 \<noteq> []" "nextTask p2 = None" using q J(4) by (auto simp: p2_def p1_def)
  have run: "runningTask p2 = elem_front (runnableQueue p2)" by (simp add: p2_def)
  from joint_round [OF J2 J(2,3) _ run ne(2), of "[]" self] obtain ts s' p' w' where
    1: "process_round e self (chan_slice room) (Some s) p2 w = Some (ts, Some s', p', w')" "joint_ok room T prog n s' p' w'"
      "\<not> stopped w'" "nextTask p' = None" "work T s' < work T s" using ne(1) by auto
  have "process_turn e self (chan_slice room) io cb now (Some s) p w = Some (ts, Some s', snd (AddNewTasks p'), w')"
  proof (cases "runnableQueue p")
    case Nil
    then obtain x xs where x: "newQueue p = x # xs" using q by (cases "newQueue p") auto
    then have "p2 = p\<lparr>runnableQueue := x # xs, newQueue := [], runningTask := Some x\<rparr>"
      using Nil by (simp add: p2_def p1_def elem_front_def)
    moreover have "AddNewTasks (p\<lparr>runningTask := None\<rparr>)
        = (True, p\<lparr>runningTask := None, runnableQueue := x # xs, newQueue := []\<rparr>)"
      using Nil x by (simp add: AddNewTasks_def)
    ultimately show ?thesis using Nil 1(1,3) by (simp add: process_turn_def elem_front_def)
  next
    case (Cons x xs)
    then have "p2 = p\<lparr>runningTask := Some x\<rparr>" by (simp add: p2_def p1_def elem_front_def)
    then show ?thesis using Cons 1(1,3) by (simp add: process_turn_def elem_front_def)
  qed
  moreover have "joint_ok room T prog n s' (snd (AddNewTasks p')) w'" "nextTask (snd (AddNewTasks p')) = None"
    using 1(2,4) joint_requeue(1) by (auto simp: AddNewTasks_def)
  ultimately show ?thesis using 1(3,5) by blast
qed

text \<open>Several turns, with what happens while nothing is runnable (\<open>io\<close>, \<open>cb\<close>, \<open>now\<close>) the same in each.\<close>

primrec process_turns ::
  "nat \<Rightarrow> env \<Rightarrow> nat \<Rightarrow> (addr \<Rightarrow> 's \<Rightarrow> 'f slice \<times> 's) \<Rightarrow> addr list
     \<Rightarrow> (nat \<Rightarrow> ptr \<Rightarrow> proc \<times> 'f world \<Rightarrow> (proc \<times> 'f world) \<times> timer_call list) \<Rightarrow> int
     \<Rightarrow> 's \<Rightarrow> proc \<Rightarrow> 'f world \<Rightarrow> ('s \<times> proc \<times> 'f world) option" where
  "process_turns 0 e self prog io cb now s p w = Some (s, p, w)"
| "process_turns (Suc n) e self prog io cb now s p w =
     Option.bind (process_turn e self prog io cb now s p w)
       (\<lambda>(ts, s, p, w). process_turns n e self prog io cb now s p w)"

lemma joint_turns:
  assumes "joint_ok room T prog n s p w" "env_ok e" "\<not> stopped w" "nextTask p = None"
  shows "\<exists>k s' p' w'. k \<le> work T s \<and> process_turns k e self (chan_slice room) io cb now (Some s) p w = Some (Some s', p', w')
    \<and> joint_ok room T prog n s' p' w' \<and> runnableQueue p' = [] \<and> newQueue p' = []"
  using assms
proof (induction "work T s" arbitrary: s p w rule: less_induct)
  case less
  show ?case
  proof (cases "runnableQueue p @ newQueue p = []")
    case True
    then show ?thesis using less.prems(1) by (intro exI [of _ 0] exI [of _ s] exI [of _ p] exI [of _ w]) simp
  next
    case False
    from joint_turn [OF less.prems False, of self io cb now] obtain ts s1 p1 w1 where
      1: "process_turn e self (chan_slice room) io cb now (Some s) p w = Some (ts, Some s1, p1, w1)" "joint_ok room T prog n s1 p1 w1"
        "\<not> stopped w1" "nextTask p1 = None" "work T s1 < work T s" by blast
    from less.hyps [OF 1(5,2) less.prems(2) 1(3,4)] obtain k s' p' w' where
      2: "k \<le> work T s1" "process_turns k e self (chan_slice room) io cb now (Some s1) p1 w1 = Some (Some s', p', w')"
        "joint_ok room T prog n s' p' w' \<and> runnableQueue p' = [] \<and> newQueue p' = []" by blast
    then show ?thesis using 1(1,5) by (intro exI [of _ "Suc k"] exI [of _ s'] exI [of _ p'] exI [of _ w']) simp
  qed
qed


section \<open>Properties\<close>

lemma joint_new:
  assumes "sched_ok p w" "T = set (runnableQueue p @ newQueue p)" "\<forall>t\<in>T. one_sided (prog t)" "Channel_new cap choose2 = Some c"
    and "(\<Sum>t\<in>T. length (push_vals (prog t))) = (\<Sum>t\<in>T. pop_count (prog t))"
    and "(\<Sum>t\<in>T. length (push_vals (prog t)) + pop_count (prog t)) < 2 ^ 64"
    and "(\<Sum>t\<in>T. length (push_vals (prog t)) + pop_count (prog t)) \<le> room"
  shows "joint_ok room T prog (taskCount w) (chan_prog_new c prog) p w"
proof -
  let ?s = "chan_prog_new c prog"
  have "cap < - 1" using assms(4) by (auto simp: Channel_new_def chan_new_def split: Option.bind_splits)
  then have r: "chan_rep c [] (2 ^ 64 - 1)" using chan_new_rep assms(4) by (auto simp: Channel_new_def)
  have q: "rq c = []" "wq c = []" using assms(4) by (auto simp: Channel_new_def chan_new_def split: Option.bind_splits)
  then have w: "waiting ?s = {}" by (simp add: waiting_def chan_prog_new_def)
  have "all_ok room T ?s" unfolding all_ok_def
    by (intro exI [of _ "[]"] exI [of _ "2 ^ 64 - 1"]) (use r q assms(5-7) in \<open>simp add: chan_prog_new_def\<close>)
  moreover have "waits_ok T ?s" using q by (simp add: waits_ok_def waiting_def chan_prog_new_def)
  moreover have "task_ok prog ?s t" if "t \<in> T" for t
    using assms(3) that w by (simp add: task_ok_def results_def chan_prog_new_def)
  ultimately have "comm_ok room T prog ?s" using assms(2) by (simp add: comm_ok_def chan_prog_new_def)
  then show ?thesis using assms(1,2) w by (simp add: joint_ok_def chan_prog_new_def)
qed

text \<open>Once nothing is runnable nobody waits: the sums of sends and receives would differ.\<close>

lemma all_returned:
  assumes ok: "comm_ok room T prog s" and no: "T - returned s - waiting s = {}"
  shows "returned s = T \<and> map snd (sent_log s) = map snd (recv_log s)"
proof -
  obtain pending m where all: "chan_rep (ch s) pending m"
    "(\<Sum>t\<in>T. length (push_vals (todo s t))) + length pending = (\<Sum>t\<in>T. pop_count (todo s t)) + length (rq (ch s))"
    "map snd (sent_log s) = map snd (recv_log s) @ pending"
    using ok unfolding comm_ok_def all_ok_def by blast
  have sub: "returned s \<subseteq> T" "waiting s \<subseteq> T - returned s" and W: "\<forall>t\<in>returned s. todo s t = []"
    "\<forall>t\<in>set (rq (ch s)). push_vals (todo s t) = []" "\<forall>t\<in>fst ` set (wq (ch s)). pop_count (todo s t) = 0"
    using ok by (simp_all add: comm_ok_def waits_ok_def)
  have T: "T = returned s \<union> waiting s" using sub no by blast
  have "rq (ch s) = [] \<and> pending = []"
  proof (cases "rq (ch s) = []")
    case True
    then have "\<forall>t\<in>returned s \<union> waiting s. pop_count (todo s t) = 0" using W by (simp add: waiting_def ball_Un)
    then have "\<forall>t\<in>T. pop_count (todo s t) = 0" using T by simp
    then show ?thesis using all(2) True by simp
  next
    case False
    then have "pending = []" "wq (ch s) = []" using all(1) by (auto simp: chan_rep_def)
    then have "\<forall>t\<in>returned s \<union> waiting s. push_vals (todo s t) = []" using W by (simp add: waiting_def ball_Un)
    then have "\<forall>t\<in>T. push_vals (todo s t) = []" using T by simp
    then show ?thesis using all(2) \<open>pending = []\<close> by simp
  qed
  moreover from this have "wq (ch s) = []" using all(1) by (auto simp: chan_rep_def)
  ultimately show ?thesis using T all(3) by (simp add: waiting_def)
qed



definition demo_prog :: "addr \<Rightarrow> nat prog_op list" where
  "demo_prog t = (if t = 2 then [Do_Push 1, Do_Yield, Do_Push 2] else if t = 4 then [Do_Push 3, Do_Push 4]
     else if t = 5 then [Do_Pop, Do_Yield, Do_Pop] else [Do_Pop])"


text \<open>
  The bytes for the interrupter are read only when the processer has nothing to run. Once the connection is full
  (\<open>room\<close> tasks were woken since the processer was idle), the next call that wakes a task fails the assertion of
  \<open>interrupter\<close>, although every call so far was correct.
\<close>

theorem busy_wakeups_overrun_interrupter:
  assumes "chan_rep (ch s) [] (Suc n)" "rq (ch s) = r # rs" "bytes s = room"
  shows "call_Push room tk v s = None"
proof -
  obtain c' where "Push tk v (- 1) (ch s) = Some (chan_result.Returns True None, [Wake r True (Some v)], c')"
    using Push_reader [OF assms(1,2), of tk v "- 1"] by blast
  then show ?thesis using assms(3) by (simp add: call_Push_def after_call_def)
qed

text \<open>Two readers wait; the connection has room for one byte.\<close>

lemma busy_wakeups_overrun_interrupter_witness:
  "\<exists>c c1 c2. Channel_new 2 10 = Some (c :: nat chan) \<and> Pop 3 (- 1) c = Some (Waits, [], c1) \<and> Pop 4 (- 1) c1 = Some (Waits, [], c2)
     \<and> exec_ops 1 2 [Do_Push 7, Do_Push 8] (chan_prog_new c2 demo_prog) = None"
proof -
  obtain c :: "nat chan" where c: "Channel_new 2 10 = Some c" by (simp add: Channel_new_def chan_new_def)
  then have "chan_rep c [] (2 ^ 64 - 1)" "rq c = []"
    using chan_new_rep [of 2 True c] by (auto simp: Channel_new_def chan_new_def)
  then have r: "chan_rep c [] 2" using chan_rep_less by fastforce
  have nz: "(- 1 :: int) \<noteq> 0" by simp
  obtain c1 where 1: "Pop 3 (- 1) c = Some (Waits, [], c1)" "chan_rep c1 [] 2" "rq c1 = [3]"
    using Pop_empty(2) [OF r nz, of 3] \<open>rq c = []\<close> by auto
  obtain c2 where 2: "Pop 4 (- 1) c1 = Some (Waits, [], c2)" "chan_rep c2 [] 2" "rq c2 = [3, 4]"
    using Pop_empty(2) [OF 1(2) nz, of 4] 1(3) by auto
  have "chan_rep c2 [] (Suc 1)" using 2(2) by (simp add: numeral_2_eq_2)
  from Push_reader [OF this 2(3), of 2 7 "- 1"] obtain c3 where
    3: "Push 2 7 (- 1) c2 = Some (chan_result.Returns True None, [Wake 3 True (Some 7)], c3)" "chan_rep c3 [] 1" "rq c3 = [4]" by auto
  define s where "s = (chan_prog_new c2 demo_prog)\<lparr>todo := demo_prog(2 := [Do_Push 8]), sent_log := [(2, 7)], ch := c3,
    notified := [3 \<mapsto> (True, Some 7)], recv_log := [(3, 7)], bytes := 1, got := (\<lambda>t. [])(2 := [(True, None)])\<rparr>"
  have "call_Push 1 2 8 (s\<lparr>todo := (todo s)(2 := [])\<rparr>) = None"
    by (rule busy_wakeups_overrun_interrupter [of _ 0 4 "[]"]) (use 3 in \<open>simp_all add: s_def\<close>)
  then have "exec_ops 1 2 [Do_Push 7, Do_Push 8] (chan_prog_new c2 demo_prog) = None"
    by (simp add: call_Push_def [of _ _ 7] chan_prog_new_def 3(1) after_call_def add_result_def s_def)
  then show ?thesis using c 1(1) 2(1) by blast
qed

end
