(* ===== verification/Co_Mutex.thy ===== *)
theory Co_Mutex
  imports Prelude
begin

text \<open>
  \<open>CoMutex\<close> of \<open>sync/co_mutex.h\<close> and \<open>sync/co_mutex.cpp\<close>: the coroutine mutex. The spin lock
  \<open>lock_\<close> makes each of its critical sections one step; between them any other task, on any thread,
  may take its steps. A task that suspended itself is parked until \<open>WakeupBySelfIO\<close> is called for
  it. Steps that an \<open>assert\<close> forbids have no result.
\<close>

section \<open>State\<close>

text \<open>
  Where a task is: outside; switched out once before it tries again; about to suspend itself;
  suspended and about to take \<open>lock_\<close> for the last time; in \<open>waite_queue_\<close> or taken from it; holding
  the mutex; or in \<open>unlock\<close>, about to wake the task that it made the owner.
\<close>

datatype mutex_pc = Outside | Yielded | Suspending | Suspended | Queued | Holding | Waking addr

record comutex =
  owner_task :: "addr option"
  waite_queue :: "addr list"
  pc :: "addr \<Rightarrow> mutex_pc"
  parked :: "addr \<Rightarrow> bool"

definition CoMutex_new :: comutex where
  "CoMutex_new = \<lparr>owner_task = None, waite_queue = [], pc = (\<lambda>t. Outside), parked = (\<lambda>t. False)\<rparr>"

definition CoMutex_destroy :: "comutex \<Rightarrow> unit option" where
  "CoMutex_destroy m = do { assert_c (waite_queue m = []); assert_c (owner_task m = None) }"

definition is_lock :: "comutex \<Rightarrow> bool" where
  "is_lock m \<longleftrightarrow> owner_task m \<noteq> None"

section \<open>The steps of lock\<close>

definition own :: "addr \<Rightarrow> comutex \<Rightarrow> comutex" where
  "own t m = m\<lparr>owner_task := Some t, pc := (pc m)(t := Holding)\<rparr>"

definition lock_enter :: "addr \<Rightarrow> comutex \<Rightarrow> comutex option" where
  "lock_enter t m = do {
     assert_c (pc m t = Outside);
     Some (if owner_task m = None then own t m else m\<lparr>pc := (pc m)(t := Yielded)\<rparr>) }"

text \<open>Back after \<open>StaticCoYield\<close>: one \<open>try_lock\<close> of \<open>lock_\<close>, which may fail (\<open>got = False\<close>).\<close>

definition lock_retry :: "addr \<Rightarrow> bool \<Rightarrow> comutex \<Rightarrow> comutex option" where
  "lock_retry t got m = do {
     assert_c (pc m t = Yielded);
     Some (if got \<and> owner_task m = None then own t m else m\<lparr>pc := (pc m)(t := Suspending)\<rparr>) }"

definition lock_suspend :: "addr \<Rightarrow> comutex \<Rightarrow> comutex option" where
  "lock_suspend t m = do {
     assert_c (pc m t = Suspending);
     Some (m\<lparr>parked := (parked m)(t := True), pc := (pc m)(t := Suspended)\<rparr>) }"

definition lock_queue :: "addr \<Rightarrow> comutex \<Rightarrow> comutex option" where
  "lock_queue t m = do {
     assert_c (pc m t = Suspended);
     Some (if owner_task m = None then (own t m)\<lparr>parked := (parked m)(t := False)\<rparr>
           else m\<lparr>waite_queue := waite_queue m @ [t], pc := (pc m)(t := Queued)\<rparr>) }"

text \<open>The second \<open>StaticCoYield\<close> returns once the task was woken.\<close>

definition lock_resume :: "addr \<Rightarrow> comutex \<Rightarrow> comutex option" where
  "lock_resume t m = do {
     assert_c (pc m t = Queued \<and> \<not> parked m t);
     Some (m\<lparr>pc := (pc m)(t := Holding)\<rparr>) }"

section \<open>The other operations\<close>

definition mutex_try_lock :: "addr \<Rightarrow> comutex \<Rightarrow> (bool \<times> comutex) option" where
  "mutex_try_lock t m = do {
     assert_c (pc m t = Outside);
     Some (if owner_task m = None then (True, own t m) else (False, m)) }"

text \<open>
  \<open>unlock\<close>: of a free mutex it does nothing; a mutex of another task is an assertion failure. With a
  waiting task the ownership passes to it before it is woken.
\<close>

definition unlock :: "addr \<Rightarrow> comutex \<Rightarrow> comutex option" where
  "unlock t m =
     (case owner_task m of
        None \<Rightarrow> Some m
      | Some u \<Rightarrow> do {
          assert_c (t = u);
          (case waite_queue m of
             wakeup # ws \<Rightarrow>
               Some (m\<lparr>waite_queue := ws, owner_task := Some wakeup, pc := (pc m)(t := Waking wakeup)\<rparr>)
           | [] \<Rightarrow> Some (m\<lparr>owner_task := None, pc := (pc m)(t := Outside)\<rparr>)) })"

definition unlock_wake :: "addr \<Rightarrow> comutex \<Rightarrow> comutex option" where
  "unlock_wake t m =
     (case pc m t of
        Waking w \<Rightarrow> Some (m\<lparr>parked := (parked m)(w := False), pc := (pc m)(t := Outside)\<rparr>)
      | _ \<Rightarrow> None)"

section \<open>Runs\<close>

datatype mutex_ev = Enter addr | Retry addr bool | Suspend addr | Queue addr | Resume addr
  | Try addr | Unlock addr | Wake_next addr

fun mutex_event :: "mutex_ev \<Rightarrow> comutex \<Rightarrow> comutex option" where
  "mutex_event (Enter t) m = lock_enter t m"
| "mutex_event (Retry t got) m = lock_retry t got m"
| "mutex_event (Suspend t) m = lock_suspend t m"
| "mutex_event (Queue t) m = lock_queue t m"
| "mutex_event (Resume t) m = lock_resume t m"
| "mutex_event (Try t) m = map_option snd (mutex_try_lock t m)"
| "mutex_event (Unlock t) m = (if pc m t \<in> {Outside, Holding} then unlock t m else None)"
| "mutex_event (Wake_next t) m = unlock_wake t m"

definition mutex_step :: "comutex \<Rightarrow> comutex \<Rightarrow> bool" where
  "mutex_step m m' \<longleftrightarrow> (\<exists>e. mutex_event e m = Some m')"

primrec mutex_events :: "mutex_ev list \<Rightarrow> comutex \<Rightarrow> comutex option" where
  "mutex_events [] m = Some m"
| "mutex_events (e # es) m = Option.bind (mutex_event e m) (mutex_events es)"

section \<open>The invariant\<close>

text \<open>What holds of a task at each point.\<close>

definition task_ok :: "comutex \<Rightarrow> addr \<Rightarrow> bool" where
  "task_ok m t \<longleftrightarrow>
     (case pc m t of
        Suspended \<Rightarrow> parked m t \<and> t \<notin> set (waite_queue m) \<and> owner_task m \<noteq> Some t
      | Holding \<Rightarrow> \<not> parked m t \<and> t \<notin> set (waite_queue m) \<and> owner_task m = Some t
      | Queued \<Rightarrow>
          if t \<in> set (waite_queue m) then parked m t \<and> owner_task m \<noteq> Some t
          else owner_task m = Some t \<and> (parked m t \<longrightarrow> (\<exists>u. pc m u = Waking t))
      | Waking w \<Rightarrow> \<not> parked m t \<and> t \<notin> set (waite_queue m) \<and> owner_task m \<noteq> Some t
          \<and> pc m w = Queued \<and> w \<notin> set (waite_queue m) \<and> parked m w
      | _ \<Rightarrow> \<not> parked m t \<and> t \<notin> set (waite_queue m) \<and> owner_task m \<noteq> Some t)"

definition mutex_inv :: "comutex \<Rightarrow> bool" where
  "mutex_inv m \<longleftrightarrow> distinct (waite_queue m) \<and> (waite_queue m \<noteq> [] \<longrightarrow> owner_task m \<noteq> None)
     \<and> (\<forall>t. task_ok m t) \<and> (\<forall>u v t. pc m u = Waking t \<longrightarrow> pc m v = Waking t \<longrightarrow> u = v)"

lemma mutex_inv_new: "mutex_inv CoMutex_new"
  by (simp add: mutex_inv_def task_ok_def CoMutex_new_def)

lemmas mutex_step_defs = lock_enter_def lock_retry_def lock_suspend_def lock_queue_def lock_resume_def
  mutex_try_lock_def unlock_wake_def own_def

lemma mutex_invI:
  assumes "distinct (waite_queue m)" "waite_queue m \<noteq> [] \<longrightarrow> owner_task m \<noteq> None" "\<And>t. task_ok m t"
    "\<And>u v t. pc m u = Waking t \<Longrightarrow> pc m v = Waking t \<Longrightarrow> u = v"
  shows "mutex_inv m"
  using assms unfolding mutex_inv_def by blast

text \<open>A step of a task that neither owns nor frees the mutex: only its own place changes.\<close>

lemma inv_move:
  assumes inv: "mutex_inv m" and t: "\<And>w. pc m t \<noteq> Waking w" "pc m t \<noteq> Queued" "\<And>w. p \<noteq> Waking w"
    and m': "m' = m\<lparr>pc := (pc m)(t := p), parked := (parked m)(t := b)\<rparr>" and ok: "task_ok m' t"
  shows "mutex_inv m'"
proof (rule mutex_invI)
  show "distinct (waite_queue m')" "waite_queue m' \<noteq> [] \<longrightarrow> owner_task m' \<noteq> None"
    using inv by (simp_all add: mutex_inv_def m')
  show "u = v" if "pc m' u = Waking x" "pc m' v = Waking x" for u v x
    using inv that t(3) unfolding mutex_inv_def m' by (auto split: if_splits)
  show "task_ok m' x" for x
  proof (cases "x = t")
    case False
    have x: "task_ok m x" using inv by (simp add: mutex_inv_def)
    have ex: "\<exists>u. pc m' u = Waking y" if w: "\<exists>u. pc m u = Waking y" for y
    proof -
      obtain u where "pc m u = Waking y" using w by blast
      moreover from this have "u \<noteq> t" using t(1) by metis
      ultimately have "pc m' u = Waking y" by (simp add: m')
      then show ?thesis by blast
    qed
    show ?thesis using x ex [of x] t(2) False by (cases "pc m x") (auto simp: task_ok_def m')
  qed (use ok in simp)
qed

text \<open>Taking the free mutex.\<close>

lemma inv_own:
  assumes inv: "mutex_inv m" and free: "owner_task m = None"
    and t: "\<And>w. pc m t \<noteq> Waking w" "pc m t \<noteq> Queued"
    and m': "m' = m\<lparr>owner_task := Some t, pc := (pc m)(t := Holding), parked := (parked m)(t := False)\<rparr>"
  shows "mutex_inv m'"
proof (rule mutex_invI)
  have q: "waite_queue m = []" using inv free by (auto simp: mutex_inv_def)
  then show "distinct (waite_queue m')" "waite_queue m' \<noteq> [] \<longrightarrow> owner_task m' \<noteq> None" by (simp_all add: m')
  have no: "pc m x \<noteq> Queued" "pc m x \<noteq> Waking y" for x y
  proof -
    have "task_ok m x" "task_ok m y" using inv by (simp_all add: mutex_inv_def)
    then show "pc m x \<noteq> Queued" "pc m x \<noteq> Waking y" using free q by (auto simp: task_ok_def split: if_splits)
  qed
  show "u = v" if "pc m' u = Waking x" "pc m' v = Waking x" for u v x
    using that no by (auto simp: m' split: if_splits)
  show "task_ok m' x" for x
  proof -
    have "task_ok m x" using inv by (simp add: mutex_inv_def)
    then show ?thesis using no [of x] q free by (cases "pc m x") (auto simp: task_ok_def m')
  qed
qed

lemma same_pc: "m\<lparr>pc := f\<rparr> = m\<lparr>pc := f, parked := (parked m)(t := parked m t)\<rparr>"
  "m\<lparr>owner_task := x, pc := f\<rparr> = m\<lparr>owner_task := x, pc := f, parked := (parked m)(t := parked m t)\<rparr>"
  by (cases m; simp add: fun_upd_idem)+


text \<open>\<open>unlock\<close> with and without a waiting task, and the waking afterwards.\<close>

lemma inv_hand_over:
  assumes inv: "mutex_inv m" and t: "owner_task m = Some t" "pc m t = Holding" and q: "waite_queue m = w # ws"
    and m': "m' = m\<lparr>waite_queue := ws, owner_task := Some w, pc := (pc m)(t := Waking w)\<rparr>"
  shows "mutex_inv m'"
proof (rule mutex_invI)
  have I: "task_ok m x" for x using inv by (simp add: mutex_inv_def)
  have d: "distinct (w # ws)" using inv q by (simp add: mutex_inv_def)
  then show "distinct (waite_queue m')" "waite_queue m' \<noteq> [] \<longrightarrow> owner_task m' \<noteq> None" by (simp_all add: m')
  have no: "pc m x \<noteq> Waking y" for x y
    using I [of x] I [of y] t by (auto simp: task_ok_def split: if_splits)
  have w: "pc m w = Queued" "parked m w" "w \<noteq> t" "w \<notin> set ws" using I [of w] t q d by (auto simp: task_ok_def split: mutex_pc.splits)
  show "u = v" if "pc m' u = Waking x" "pc m' v = Waking x" for u v x
    using that no by (auto simp: m' split: if_splits)
  show "task_ok m' x" for x
  proof (cases "x = w \<or> x = t")
    case True
    then show ?thesis using w I [of t] t q by (auto simp: task_ok_def m')
  next
    case False
    then show ?thesis using I [of x] no [of x] t q by (cases "pc m x") (auto simp: task_ok_def m' split: if_splits)
  qed
qed

lemma inv_release:
  assumes inv: "mutex_inv m" and t: "owner_task m = Some t" "pc m t = Holding" and q: "waite_queue m = []"
    and m': "m' = m\<lparr>owner_task := None, pc := (pc m)(t := Outside)\<rparr>"
  shows "mutex_inv m'"
proof (rule mutex_invI)
  have I: "task_ok m x" for x using inv by (simp add: mutex_inv_def)
  have no: "pc m x \<noteq> Waking y" for x y
    using I [of x] I [of y] t by (auto simp: task_ok_def split: if_splits)
  show "distinct (waite_queue m')" "waite_queue m' \<noteq> [] \<longrightarrow> owner_task m' \<noteq> None" using q by (simp_all add: m')
  show "u = v" if "pc m' u = Waking x" "pc m' v = Waking x" for u v x
    using that no by (auto simp: m' split: if_splits)
  show "task_ok m' x" for x
    using I [of x] I [of t] no [of x] t q by (cases "x = t"; cases "pc m x") (auto simp: task_ok_def m')
qed

lemma inv_wake:
  assumes inv: "mutex_inv m" and u: "pc m u = Waking w"
    and m': "m' = m\<lparr>parked := (parked m)(w := False), pc := (pc m)(u := Outside)\<rparr>"
  shows "mutex_inv m'"
proof (rule mutex_invI)
  have I: "task_ok m x" for x using inv by (simp add: mutex_inv_def)
  have w: "pc m w = Queued" "w \<notin> set (waite_queue m)" "parked m w" "w \<noteq> u" "owner_task m = Some w"
    using I [of u] I [of w] u by (auto simp: task_ok_def)
  have only: "pc m x = Waking y \<Longrightarrow> x = u" for x y
  proof -
    assume x: "pc m x = Waking y"
    then have "owner_task m = Some y" using I [of x] I [of y] by (auto simp: task_ok_def)
    then show "x = u" using x u w(5) inv by (auto simp: mutex_inv_def)
  qed
  show "distinct (waite_queue m')" "waite_queue m' \<noteq> [] \<longrightarrow> owner_task m' \<noteq> None"
    using inv by (simp_all add: m' mutex_inv_def)
  show "a = b" if "pc m' a = Waking x" "pc m' b = Waking x" for a b x
    using that only by (auto simp: m' split: if_splits)
  show "task_ok m' x" for x
  proof (cases "x = w \<or> x = u")
    case True
    then show ?thesis using w I [of u] u by (auto simp: task_ok_def m')
  next
    case False
    then show ?thesis using I [of x] only [of x] w by (cases "pc m x") (auto simp: task_ok_def m' split: if_splits)
  qed
qed

lemma mutex_inv_event:
  assumes inv: "mutex_inv m" and e: "mutex_event e m = Some m'"
  shows "mutex_inv m'"
proof -
  have I: "task_ok m t" for t using inv by (simp add: mutex_inv_def)
  have moved: "mutex_inv m'" if "\<And>w. pc m t \<noteq> Waking w" "pc m t \<noteq> Queued" "\<And>w. p \<noteq> Waking w"
    "m' = m\<lparr>pc := (pc m)(t := p)\<rparr>" "task_ok m' t" for t p
    by (rule inv_move [OF inv that(1-3), of m' "parked m t"]) (use that in \<open>cases m; simp add: fun_upd_idem\<close>)+
  have owned: "mutex_inv m'" if "owner_task m = None" "\<And>w. pc m t \<noteq> Waking w" "pc m t \<noteq> Queued" "\<not> parked m t"
    "m' = own t m" for t
    by (rule inv_own [OF inv that(1-3)]) (use that in \<open>cases m; simp add: fun_upd_idem own_def\<close>)
  show ?thesis
  proof (cases e)
    case (Enter t)
    then have t: "pc m t = Outside" using e by (auto simp: lock_enter_def split: Option.bind_splits)
    show ?thesis
    proof (cases "owner_task m")
      case None
      then show ?thesis using owned [of t] t I [of t] e Enter by (simp add: lock_enter_def task_ok_def)
    next
      case (Some u)
      then have "m' = m\<lparr>pc := (pc m)(t := Yielded)\<rparr>" using e Enter t by (simp add: lock_enter_def)
      then show ?thesis using moved [of t Yielded] t I [of t] by (simp add: task_ok_def)
    qed
  next
    case (Retry t got)
    then have t: "pc m t = Yielded" using e by (auto simp: lock_retry_def split: Option.bind_splits)
    show ?thesis
    proof (cases "got \<and> owner_task m = None")
      case True
      then show ?thesis using owned [of t] t I [of t] e Retry by (simp add: lock_retry_def task_ok_def)
    next
      case False
      then have "m' = m\<lparr>pc := (pc m)(t := Suspending)\<rparr>" using e Retry t by (auto simp: lock_retry_def split: if_splits)
      then show ?thesis using moved [of t Suspending] t I [of t] by (simp add: task_ok_def)
    qed
  next
    case (Suspend t)
    then have t: "pc m t = Suspending" "m' = m\<lparr>parked := (parked m)(t := True), pc := (pc m)(t := Suspended)\<rparr>"
      using e by (auto simp: lock_suspend_def split: Option.bind_splits)
    then show ?thesis using I [of t] by (intro inv_move [OF inv, of t Suspended m' True]) (simp_all add: task_ok_def)
  next
    case (Queue t)
    then have t: "pc m t = Suspended" using e by (auto simp: lock_queue_def split: Option.bind_splits)
    show ?thesis
    proof (cases "owner_task m")
      case None
      then show ?thesis using t e Queue by (intro inv_own [OF inv, of t]) (simp_all add: lock_queue_def own_def)
    next
      case (Some u)
      then have m': "m' = m\<lparr>waite_queue := waite_queue m @ [t], pc := (pc m)(t := Queued)\<rparr>"
        using e Queue t by (simp add: lock_queue_def)
      have nw: "pc m x = Waking y \<Longrightarrow> y \<noteq> t" for x y using I [of x] t by (auto simp: task_ok_def)
      show ?thesis
      proof (rule mutex_invI)
        show "distinct (waite_queue m')" "waite_queue m' \<noteq> [] \<longrightarrow> owner_task m' \<noteq> None"
          using inv I [of t] t Some by (simp_all add: m' mutex_inv_def task_ok_def)
        show "a = b" if "pc m' a = Waking x" "pc m' b = Waking x" for a b x
          using that inv by (auto simp: m' mutex_inv_def split: if_splits)
        show "task_ok m' x" for x
        proof (cases "x = t")
          case False
          have ex: "\<exists>a. pc m' a = Waking y" if w: "\<exists>a. pc m a = Waking y" for y
          proof -
            obtain a where "pc m a = Waking y" using w by blast
            then have "pc m' a = Waking y" using t by (auto simp: m')
            then show ?thesis by blast
          qed
          then show ?thesis using I [of x] False nw [of x] by (cases "pc m x") (auto simp: task_ok_def m')
        qed (use I [of t] t Some in \<open>auto simp: task_ok_def m'\<close>)
      qed
    qed
  next
    case (Resume t)
    then have t: "pc m t = Queued" "\<not> parked m t" "m' = m\<lparr>pc := (pc m)(t := Holding)\<rparr>"
      using e by (auto simp: lock_resume_def split: Option.bind_splits)
    have o: "owner_task m = Some t" "t \<notin> set (waite_queue m)" using I [of t] t by (auto simp: task_ok_def split: if_splits)
    have nw: "pc m x \<noteq> Waking t" for x using I [of x] t by (auto simp: task_ok_def)
    have nw': "pc m x \<noteq> Waking y" for x y
      using nw [of x] I [of x] I [of y] o by (cases "y = t") (auto simp: task_ok_def)
    show ?thesis
    proof (rule mutex_invI)
      show "distinct (waite_queue m')" "waite_queue m' \<noteq> [] \<longrightarrow> owner_task m' \<noteq> None"
        using inv by (simp_all add: t(3) mutex_inv_def)
      show "a = b" if "pc m' a = Waking x" "pc m' b = Waking x" for a b x
        using that nw' by (auto simp: t(3) split: if_splits)
      show "task_ok m' x" for x
        using I [of x] nw' [of x] o t(1,2) by (cases "x = t"; cases "pc m x") (auto simp: task_ok_def t(3) split: if_splits)
    qed
  next
    case (Try t)
    then have t: "pc m t = Outside" using e by (auto simp: mutex_try_lock_def split: Option.bind_splits)
    show ?thesis
    proof (cases "owner_task m")
      case None
      then show ?thesis using owned [of t] t I [of t] e Try by (simp add: mutex_try_lock_def task_ok_def)
    next
      case (Some u)
      then show ?thesis using e Try t inv by (simp add: mutex_try_lock_def)
    qed
  next
    case (Unlock t)
    then have t: "pc m t = Outside \<or> pc m t = Holding" "unlock t m = Some m'" using e by (auto split: if_splits)
    show ?thesis
    proof (cases "owner_task m")
      case None
      then show ?thesis using t inv by (simp add: unlock_def)
    next
      case (Some u)
      then have u: "u = t" "pc m t = Holding" using t I [of t] by (auto simp: unlock_def task_ok_def split: Option.bind_splits)
      show ?thesis
      proof (cases "waite_queue m")
        case Nil
        then show ?thesis using t u Some by (intro inv_release [OF inv]) (auto simp: unlock_def)
      next
        case (Cons w ws)
        then show ?thesis using t u Some by (intro inv_hand_over [OF inv _ _ Cons]) (auto simp: unlock_def)
      qed
    qed
  next
    case (Wake_next t)
    then show ?thesis using e by (auto simp: unlock_wake_def split: mutex_pc.splits intro: inv_wake [OF inv])
  qed
qed

interpretation mutex: invariant_system "\<lambda>m. m = CoMutex_new" mutex_step mutex_inv
  by unfold_locales (auto simp: mutex_inv_new mutex_step_def intro: mutex_inv_event)


section \<open>Properties\<close>


text \<open>
  C15: No wake-up is lost: a task that queued itself waits only while another task owns the mutex, or
  it is the owner already, and then either running or about to be woken by the task that handed the
  mutex over. In particular no task waits for a free mutex.
\<close>

theorem comutex_no_lost_wakeup:
  assumes "mutex_step\<^sup>*\<^sup>* CoMutex_new m" and "pc m t = Queued"
  shows "if t \<in> set (waite_queue m)
    then \<exists>u. owner_task m = Some u \<and> u \<noteq> t \<and> (pc m u = Holding \<or> pc m u = Queued \<and> u \<notin> set (waite_queue m))
    else owner_task m = Some t \<and> (\<not> parked m t \<or> (\<exists>u. pc m u = Waking t))"
proof -
  have inv: "mutex_inv m" by (rule mutex.inv_reachable [OF refl assms(1)])
  then have I: "task_ok m x" for x by (simp add: mutex_inv_def)
  show ?thesis
  proof (cases "t \<in> set (waite_queue m)")
    case True
    then obtain u where u: "owner_task m = Some u" using inv by (cases "owner_task m") (auto simp: mutex_inv_def)
    have "u \<noteq> t" using I [of t] assms(2) True u by (auto simp: task_ok_def)
    moreover have "pc m u = Holding \<or> pc m u = Queued \<and> u \<notin> set (waite_queue m)"
      using I [of u] u by (cases "pc m u") (auto simp: task_ok_def split: if_splits)
    ultimately show ?thesis using True u by auto
  next
    case False
    then show ?thesis using I [of t] assms(2) by (auto simp: task_ok_def)
  qed
qed


definition queued_mutex :: comutex where
  "queued_mutex = the (mutex_events [Enter 1, Enter 2, Enter 3, Retry 3 True, Suspend 3, Retry 2 False, Suspend 2,
     Queue 3, Queue 2] CoMutex_new)"

lemma mutex_events_steps: "mutex_events es m = Some m' \<Longrightarrow> mutex_step\<^sup>*\<^sup>* m m'"
proof (induction es arbitrary: m)
  case (Cons e es)
  then obtain m1 where "mutex_event e m = Some m1" "mutex_events es m1 = Some m'" by (auto split: Option.bind_splits)
  then show ?case using Cons.IH by (metis converse_rtranclp_into_rtranclp mutex_step_def)
qed simp

lemma queued_mutex_reachable: "mutex_step\<^sup>*\<^sup>* CoMutex_new queued_mutex"
  by (rule mutex_events_steps [where es = "[Enter 1, Enter 2, Enter 3, Retry 3 True, Suspend 3, Retry 2 False,
      Suspend 2, Queue 3, Queue 2]"]) (simp add: queued_mutex_def CoMutex_new_def mutex_step_defs)

lemma queued_mutex_state: "pc queued_mutex 1 = Holding" "waite_queue queued_mutex = [3, 2]" "pc queued_mutex 2 = Queued"
  by (simp_all add: queued_mutex_def CoMutex_new_def mutex_step_defs)


lemma comutex_no_lost_wakeup_witness: "\<exists>u. owner_task queued_mutex = Some u \<and> u \<noteq> 2"
  using comutex_no_lost_wakeup [OF queued_mutex_reachable queued_mutex_state(3)] by (auto simp: queued_mutex_state)


end
