(* ===== verification/Co_Condvar.thy ===== *)
theory Co_Condvar
  imports Co_Mutex
begin

text \<open>
  \<open>CoConditionVariable\<close> of \<open>sync/co_condition_variable.h\<close> and \<open>sync/co_condition_variable.cpp\<close>, used
  with the coroutine mutex. \<open>cv_parked\<close> tells which tasks suspended themselves in \<open>Wait\<close> and were not
  woken since; notifying yields the tasks that \<open>WakeupBySelfIO\<close> is called for, in order.
\<close>

section \<open>State\<close>

record condvar =
  cv_queue :: "addr list"
  cv_lock :: bool
  cv_parked :: "addr \<Rightarrow> bool"

definition condvar_new :: condvar where
  "condvar_new = \<lparr>cv_queue = [], cv_lock = False, cv_parked = (\<lambda>t. False)\<rparr>"

definition cv_wakeup :: "addr \<Rightarrow> condvar \<Rightarrow> condvar" where
  "cv_wakeup t c = c\<lparr>cv_parked := (cv_parked c)(t := False)\<rparr>"

section \<open>Wait\<close>

text \<open>
  Up to the first \<open>StaticCoYield\<close>: \<open>SuspendBySelfIO\<close> (which asserts that the task is runnable), the
  entry in the queue, and \<open>mutex.unlock\<close>, whose last step wakes the next owner if there is one.
\<close>

definition cv_Wait :: "addr \<Rightarrow> int \<Rightarrow> condvar \<times> comutex \<Rightarrow> (condvar \<times> comutex) option" where
  "cv_Wait t timeout cm = do {
     assert_c (timeout \<noteq> 0);
     let c = (fst cm)\<lparr>cv_lock := True\<rparr>;
     assert_c (\<not> cv_parked c t);
     let c = c\<lparr>cv_parked := (cv_parked c)(t := True), cv_queue := cv_queue c @ [t]\<rparr>;
     m \<leftarrow> unlock t (snd cm);
     m \<leftarrow> (case pc m t of Waking w \<Rightarrow> unlock_wake t m | _ \<Rightarrow> Some m);
     Some (c, m) }"

text \<open>Once woken, the task locks the mutex again.\<close>

definition cv_Wait_relock :: "addr \<Rightarrow> condvar \<times> comutex \<Rightarrow> (condvar \<times> comutex) option" where
  "cv_Wait_relock t cm = do {
     assert_c (\<not> cv_parked (fst cm) t);
     m \<leftarrow> lock_enter t (snd cm);
     Some (fst cm, m) }"

text \<open>What \<open>Wait\<close> returns, and whether it stops its timer.\<close>

definition cv_Wait_result :: "bool \<Rightarrow> bool \<Rightarrow> bool \<times> bool" where
  "cv_Wait_result timer isTimeOut = (if timer then if \<not> isTimeOut then (True, True) else (False, False) else (True, False))"

text \<open>The callback of the timer: it wakes the task, whose entry stays in the queue.\<close>

definition cv_timeout :: "addr \<Rightarrow> condvar \<Rightarrow> condvar" where
  "cv_timeout t c = cv_wakeup t c"

section \<open>Notify\<close>

definition cv_NotifyOne :: "condvar \<Rightarrow> (addr list \<times> condvar) option" where
  "cv_NotifyOne c = do {
     assert_c (cv_lock c);
     Some (case cv_queue c of
             [] \<Rightarrow> ([], c)
           | w # ws \<Rightarrow> ([w], cv_wakeup w (c\<lparr>cv_queue := ws\<rparr>))) }"

primrec notify_loop :: "addr list \<Rightarrow> condvar \<Rightarrow> addr list \<times> condvar" where
  "notify_loop [] c = ([], c\<lparr>cv_queue := []\<rparr>)"
| "notify_loop (w # ws) c =
     (let (us, c) = notify_loop ws (cv_wakeup w (c\<lparr>cv_queue := ws\<rparr>)) in (w # us, c))"

definition cv_NotifyAll :: "condvar \<Rightarrow> addr list \<times> condvar" where
  "cv_NotifyAll c = notify_loop (cv_queue c) c"

section \<open>What a condition variable represents\<close>

text \<open>Without timers, the tasks in the queue are exactly the parked ones.\<close>

definition cv_ok :: "condvar \<Rightarrow> bool" where
  "cv_ok c \<longleftrightarrow> distinct (cv_queue c) \<and> (\<forall>t. cv_parked c t \<longleftrightarrow> t \<in> set (cv_queue c)) \<and> (cv_queue c \<noteq> [] \<longrightarrow> cv_lock c)"

lemma cv_ok_new: "cv_ok condvar_new"
  by (simp add: cv_ok_def condvar_new_def)

lemma cv_NotifyOne_ok:
  assumes "cv_ok c" "cv_queue c = w # ws"
  shows "\<exists>c'. cv_NotifyOne c = Some ([w], c') \<and> cv_ok c' \<and> cv_queue c' = ws \<and> cv_parked c w \<and> \<not> cv_parked c' w"
  using assms by (auto simp: cv_NotifyOne_def cv_ok_def cv_wakeup_def)

lemma notify_loop_ok:
  "fst (notify_loop ws c) = ws \<and> cv_queue (snd (notify_loop ws c)) = []
     \<and> cv_lock (snd (notify_loop ws c)) = cv_lock c
     \<and> cv_parked (snd (notify_loop ws c)) = (\<lambda>t. cv_parked c t \<and> t \<notin> set ws)"
  by (induction ws arbitrary: c) (auto simp: split_def cv_wakeup_def Let_def)

lemma cv_Wait_ok:
  assumes ok: "cv_ok c" and inv: "mutex_inv m" and t: "pc m t = Holding" "\<not> cv_parked c t" and to: "timeout \<noteq> 0"
  shows "\<exists>c' m'. cv_Wait t timeout (c, m) = Some (c', m') \<and> cv_ok c' \<and> cv_queue c' = cv_queue c @ [t]
    \<and> cv_parked c' t \<and> mutex_inv m' \<and> pc m' t = Outside \<and> owner_task m' \<noteq> Some t
    \<and> (case waite_queue m of [] \<Rightarrow> owner_task m' = None | w # ws \<Rightarrow> owner_task m' = Some w \<and> \<not> parked m' w)"
proof -
  have I: "task_ok m x" for x using inv by (simp add: mutex_inv_def)
  have o: "owner_task m = Some t" using I [of t] t(1) by (simp add: task_ok_def)
  define c' where "c' = c\<lparr>cv_lock := True, cv_parked := (cv_parked c)(t := True), cv_queue := cv_queue c @ [t]\<rparr>"
  have c': "cv_ok c'" using ok t(2) by (auto simp: c'_def cv_ok_def)
  show ?thesis
  proof (cases "waite_queue m")
    case Nil
    define m' where "m' = m\<lparr>owner_task := None, pc := (pc m)(t := Outside)\<rparr>"
    have "cv_Wait t timeout (c, m) = Some (c', m')"
      using o Nil to t(2) by (simp add: cv_Wait_def unlock_def c'_def m'_def)
    moreover have "mutex_inv m'" by (rule inv_release [OF inv o t(1) Nil m'_def])
    ultimately show ?thesis using c' Nil by (auto simp: c'_def m'_def)
  next
    case (Cons w ws)
    define m1 where "m1 = m\<lparr>waite_queue := ws, owner_task := Some w, pc := (pc m)(t := Waking w)\<rparr>"
    have 1: "mutex_inv m1" by (rule inv_hand_over [OF inv o t(1) Cons m1_def])
    define m' where "m' = m1\<lparr>parked := (parked m1)(w := False), pc := (pc m1)(t := Outside)\<rparr>"
    have "mutex_inv m'" by (rule inv_wake [OF 1 _ m'_def]) (simp add: m1_def)
    moreover have "w \<noteq> t" using I [of w] t(1) o Cons by (auto simp: task_ok_def split: mutex_pc.splits)
    moreover have "cv_Wait t timeout (c, m) = Some (c', m')"
      using o Cons to t(2) by (simp add: cv_Wait_def unlock_def unlock_wake_def c'_def m'_def m1_def)
    ultimately show ?thesis using c' Cons by (auto simp: c'_def m'_def m1_def)
  qed
qed

section \<open>Properties\<close>



text \<open>
  A task whose \<open>Wait\<close> timed out stays in the queue: the next \<open>NotifyOne\<close> is spent on it, although
  it is not parked any more (its \<open>Wait\<close> returns false), and the task that waits behind it is not woken.
\<close>

theorem condvar_timed_out_waiter_swallows_notify:
  assumes "cv_ok c" and "cv_queue c = [t, u]" and "t \<noteq> u"
  shows "cv_Wait_result True True = (False, False)
    \<and> (\<exists>c2. cv_NotifyOne (cv_timeout t c) = Some ([t], c2) \<and> \<not> cv_parked (cv_timeout t c) t
        \<and> cv_parked c2 u \<and> cv_queue c2 = [u])"
  using assms by (auto simp: cv_Wait_result_def cv_timeout_def cv_NotifyOne_def cv_wakeup_def cv_ok_def)

lemma condvar_timed_out_waiter_swallows_notify_witness:
  "\<exists>c2. cv_NotifyOne (cv_timeout 4 \<lparr>cv_queue = [4, 5], cv_lock = True, cv_parked = (\<lambda>t. t = 4 \<or> t = 5)\<rparr>) = Some ([4], c2)
    \<and> cv_parked c2 5"
  using condvar_timed_out_waiter_swallows_notify [of "\<lparr>cv_queue = [4, 5], cv_lock = True, cv_parked = (\<lambda>t. t = 4 \<or> t = 5)\<rparr>" 4 5]
  by (auto simp: cv_ok_def)

end
