(* ===== verification/Net_Fd.thy ===== *)
theory Net_Fd
  imports Prelude
begin

text \<open>
  \<open>NetFD\<close> of \<open>netio/inner_net/net_fd.h\<close>, with its constructors, assignment, destructor, \<open>inner_socket\<close> and
  \<open>inner_close\<close>. A shared descriptor lives in a \<open>shared_ptr<int>\<close>: \<open>cells\<close> holds its control blocks, each
  with the descriptor and the use count. The invariant says that the count is the number of living
  \<open>NetFD\<close>s that share the descriptor.
\<close>

section \<open>State\<close>

record pollfd =
  fd :: int
  events :: "16 word"
  revents :: "16 word"

record netfd =
  osfd :: pollfd
  owner :: ptr
  has_timer :: bool
  share_fd :: ptr

record netstate =
  netfds :: "addr \<Rightarrow> netfd option"
  cells :: "addr \<Rightarrow> (int \<times> nat) option"
  fresh :: addr
  closes :: "int list"

definition netstate_new :: netstate where
  "netstate_new = \<lparr>netfds = (\<lambda>a. None), cells = (\<lambda>c. None), fresh = 0, closes = []\<rparr>"

definition put :: "addr \<Rightarrow> netfd \<Rightarrow> netstate \<Rightarrow> netstate" where
  "put a x s = s\<lparr>netfds := (netfds s)(a \<mapsto> x)\<rparr>"

definition set_fd :: "int \<Rightarrow> netfd \<Rightarrow> netfd" where
  "set_fd f x = x\<lparr>osfd := (osfd x)\<lparr>fd := f\<rparr>\<rparr>"

section \<open>The shared descriptor\<close>

text \<open>
  A copy of a \<open>shared_ptr\<close> counts up. One that is destroyed or overwritten counts down, and the last one calls
  the deleter \<open>close_share_fd\<close>, which closes the socket.
\<close>

definition acquire_cell :: "addr \<Rightarrow> netstate \<Rightarrow> netstate option" where
  "acquire_cell c s = (case cells s c of
      None \<Rightarrow> None
    | Some (f, n) \<Rightarrow> Some (s\<lparr>cells := (cells s)(c \<mapsto> (f, n + 1))\<rparr>))"

definition close_share_fd :: "int \<Rightarrow> netstate \<Rightarrow> netstate" where
  "close_share_fd f s = s\<lparr>closes := closes s @ [f]\<rparr>"

definition release_cell :: "addr \<Rightarrow> netstate \<Rightarrow> netstate option" where
  "release_cell c s = (case cells s c of
      None \<Rightarrow> None
    | Some (f, n) \<Rightarrow>
        if n = 1 then Some (close_share_fd f (s\<lparr>cells := (cells s)(c := None)\<rparr>))
        else Some (s\<lparr>cells := (cells s)(c \<mapsto> (f, n - 1))\<rparr>))"

section \<open>Constructors, assignment, destructor\<close>

definition NetFD_new :: "addr \<Rightarrow> bool \<Rightarrow> netstate \<Rightarrow> netstate option" where
  "NetFD_new a share s = do {
     assert_c (netfds s a = None);
     let x = \<lparr>osfd = \<lparr>fd = - 1, events = 0, revents = 0\<rparr>, owner = None, has_timer = False, share_fd = None\<rparr>;
     Some (if share
       then put a (x\<lparr>share_fd := Some (fresh s)\<rparr>) (s\<lparr>cells := (cells s)(fresh s \<mapsto> (- 1, 1)), fresh := fresh s + 1\<rparr>)
       else put a x s) }"

definition is_valid :: "netfd \<Rightarrow> bool" where
  "is_valid x \<longleftrightarrow> \<not> fd (osfd x) < 0"

definition get_fd :: "netfd \<Rightarrow> int" where
  "get_fd x = fd (osfd x)"

definition is_shared :: "netfd \<Rightarrow> bool" where
  "is_shared x \<longleftrightarrow> share_fd x \<noteq> None"

text \<open>
  \<open>cur\<close> is the current task. Assigning an unshared \<open>NetFD\<close> keeps what \<open>this\<close> shared before; assigning a
  shared one gives up the old share after the new one is taken.
\<close>

definition NetFD_assign :: "ptr \<Rightarrow> addr \<Rightarrow> addr \<Rightarrow> netstate \<Rightarrow> netstate option" where
  "NetFD_assign cur a r s = do {
     x \<leftarrow> netfds s a;
     y \<leftarrow> netfds s r;
     case share_fd y of
       None \<Rightarrow> do {
         assert_c (\<not> (owner y \<noteq> None \<and> owner y \<noteq> cur));
         Some (put a (x\<lparr>osfd := osfd y, owner := owner y\<rparr>) s) }
     | Some c \<Rightarrow> do {
         let s = put a (x\<lparr>osfd := osfd y, owner := None, share_fd := Some c\<rparr>) s;
         s \<leftarrow> acquire_cell c s;
         case share_fd x of None \<Rightarrow> Some s | Some old \<Rightarrow> release_cell old s } }"

definition NetFD_copy :: "ptr \<Rightarrow> addr \<Rightarrow> addr \<Rightarrow> netstate \<Rightarrow> netstate option" where
  "NetFD_copy cur a r s = do {
     assert_c (netfds s a = None);
     y \<leftarrow> netfds s r;
     let x = \<lparr>osfd = osfd y, owner = None, has_timer = False, share_fd = None\<rparr>;
     case share_fd y of
       None \<Rightarrow> do {
         assert_c (\<not> (owner y \<noteq> None \<and> owner y \<noteq> cur));
         Some (put a (x\<lparr>owner := owner y\<rparr>) s) }
     | Some c \<Rightarrow> acquire_cell c (put a (x\<lparr>share_fd := Some c\<rparr>) s) }"

definition NetFD_destroy :: "addr \<Rightarrow> netstate \<Rightarrow> netstate option" where
  "NetFD_destroy a s = do {
     x \<leftarrow> netfds s a;
     let s = s\<lparr>netfds := (netfds s)(a := None)\<rparr>;
     case share_fd x of None \<Rightarrow> Some s | Some c \<Rightarrow> release_cell c s }"

section \<open>Creating and closing a socket\<close>

text \<open>\<open>inner_close\<close> does nothing to a shared descriptor: it is closed with its last \<open>NetFD\<close>.\<close>

definition inner_close :: "addr \<Rightarrow> netstate \<Rightarrow> netstate option" where
  "inner_close a s = do {
     x \<leftarrow> netfds s a;
     Some (if share_fd x = None
       then put a (set_fd (- 1) x) (s\<lparr>closes := closes s @ [fd (osfd x)]\<rparr>)
       else s) }"

text \<open>
  \<open>ret\<close> is what \<open>socket\<close> returns, \<open>nb\<close> whether the descriptor could be made non-blocking; \<open>main\<close> tells
  whether the current task is the main task.
\<close>

definition inner_socket :: "ptr \<Rightarrow> bool \<Rightarrow> addr \<Rightarrow> int \<Rightarrow> bool \<Rightarrow> bool \<Rightarrow> netstate \<Rightarrow> netstate option" where
  "inner_socket cur main a ret nb share s = do {
     s \<leftarrow> NetFD_new a share s;
     assert_c (\<not> (cur = None \<or> main));
     assert_c (\<not> ret < 0);
     x \<leftarrow> netfds s a;
     let s = put a (set_fd ret x) s;
     s \<leftarrow> (if \<not> nb then inner_close a s else Some s);
     x \<leftarrow> netfds s a;
     case share_fd x of
       None \<Rightarrow> Some s
     | Some c \<Rightarrow> (case cells s c of None \<Rightarrow> None | Some (f, n) \<Rightarrow> Some (s\<lparr>cells := (cells s)(c \<mapsto> (fd (osfd x), n))\<rparr>)) }"

text \<open>
  The calls that hand the descriptor to the system; the system call is an argument, and \<open>'k\<close> is what it changes
  in the kernel. \<open>set_tcp_no_delay\<close> ignores its result.
\<close>

definition inner_setnonblocking :: "(int \<Rightarrow> bool \<Rightarrow> 'k \<Rightarrow> bool \<times> 'k) \<Rightarrow> netfd \<Rightarrow> bool \<Rightarrow> 'k \<Rightarrow> bool \<times> 'k" where
  "inner_setnonblocking set_nb x is_nonblocking k = set_nb (fd (osfd x)) is_nonblocking k"

definition inner_listen :: "(int \<Rightarrow> int \<Rightarrow> 'k \<Rightarrow> int \<times> 'k) \<Rightarrow> netfd \<Rightarrow> int \<Rightarrow> 'k \<Rightarrow> int \<times> 'k" where
  "inner_listen listen x backlog k = listen (fd (osfd x)) backlog k"

definition inner_bind :: "(int \<Rightarrow> 'a \<Rightarrow> 'k \<Rightarrow> int \<times> 'k) \<Rightarrow> netfd \<Rightarrow> 'a \<Rightarrow> 'k \<Rightarrow> int \<times> 'k" where
  "inner_bind bind_call x address k = bind_call (fd (osfd x)) address k"

definition set_tcp_no_delay :: "(int \<Rightarrow> int \<Rightarrow> 'k \<Rightarrow> int \<times> 'k) \<Rightarrow> netfd \<Rightarrow> bool \<Rightarrow> 'k \<Rightarrow> 'k" where
  "set_tcp_no_delay setsockopt x on k = (let optval = (if on then 1 else 0) in snd (setsockopt (fd (osfd x)) optval k))"

section \<open>The invariant\<close>

datatype nf_call = New addr bool | Copy ptr addr addr | Assign ptr addr addr | Destroy addr | CloseSock addr
  | Socket ptr bool addr int bool bool

fun nf_op :: "nf_call \<Rightarrow> netstate \<Rightarrow> netstate option" where
  "nf_op (New a share) s = NetFD_new a share s"
| "nf_op (Copy cur a r) s = NetFD_copy cur a r s"
| "nf_op (Assign cur a r) s = NetFD_assign cur a r s"
| "nf_op (Destroy a) s = NetFD_destroy a s"
| "nf_op (CloseSock a) s = inner_close a s"
| "nf_op (Socket cur main a ret nb share) s = inner_socket cur main a ret nb share s"

definition nf_step :: "netstate \<Rightarrow> netstate \<Rightarrow> bool" where
  "nf_step s s' \<longleftrightarrow> (\<exists>p. nf_op p s = Some s')"

definition sharers :: "netstate \<Rightarrow> addr \<Rightarrow> addr set" where
  "sharers s c = {a. \<exists>x. netfds s a = Some x \<and> share_fd x = Some c}"

definition counts_ok :: "netstate \<Rightarrow> (addr \<Rightarrow> nat) \<Rightarrow> bool" where
  "counts_ok s N \<longleftrightarrow> (\<forall>c. map_option snd (cells s c) = (if N c = 0 then None else Some (N c)))
     \<and> (\<forall>c \<ge> fresh s. cells s c = None)"

definition share_ok :: "netstate \<Rightarrow> bool" where
  "share_ok s \<longleftrightarrow> finite (dom (netfds s)) \<and> counts_ok s (\<lambda>c. card (sharers s c))"

lemma counts_cell:
  assumes "counts_ok s N" "0 < N c"
  shows "\<exists>f. cells s c = Some (f, N c)"
proof -
  have "map_option snd (cells s c) = Some (N c)" using assms by (simp add: counts_ok_def)
  then show ?thesis by (cases "cells s c") auto
qed

lemma counts_fresh:
  assumes "counts_ok s N" "0 < N c"
  shows "c < fresh s"
proof (rule ccontr)
  assume "\<not> c < fresh s"
  then have "cells s c = None" using assms(1) by (simp add: counts_ok_def)
  then show False using counts_cell [OF assms] by simp
qed

lemma counts_put [simp]: "counts_ok (put a x s) N = counts_ok s N"
  by (simp add: counts_ok_def put_def)

lemma put_simps [simp]:
  "netfds (put a x s) = (netfds s)(a \<mapsto> x)" "cells (put a x s) = cells s"
  "fresh (put a x s) = fresh s" "closes (put a x s) = closes s"
  by (simp_all add: put_def)

lemma counts_upd:
  assumes "counts_ok s N" "c < fresh s" "cells t = (cells s)(c := (if n = 0 then None else Some (f, n)))" "fresh t = fresh s"
  shows "counts_ok t (N(c := n))"
proof -
  have "map_option snd (cells t d) = (if (N(c := n)) d = 0 then None else Some ((N(c := n)) d))" for d
    using assms(1,3) by (cases "d = c") (simp_all add: counts_ok_def)
  moreover have "cells t d = None" if "fresh t \<le> d" for d
    using assms that by (auto simp: counts_ok_def)
  ultimately show ?thesis by (simp add: counts_ok_def)
qed

lemma acquire_counts:
  assumes "counts_ok s N" "0 < N c"
  shows "\<exists>s'. acquire_cell c s = Some s' \<and> counts_ok s' (N(c := N c + 1)) \<and> netfds s' = netfds s \<and> closes s' = closes s
    \<and> (\<forall>d. map_option fst (cells s' d) = map_option fst (cells s d))"
proof -
  obtain f where f: "cells s c = Some (f, N c)" using counts_cell [OF assms] by blast
  show ?thesis
    using f counts_upd [OF assms(1) counts_fresh [OF assms], of "s\<lparr>cells := (cells s)(c \<mapsto> (f, N c + 1))\<rparr>" "N c + 1" f]
    by (auto simp: acquire_cell_def)
qed

lemma release_counts:
  assumes "counts_ok s N" "0 < N c" "cells s c = Some (f, n)"
  shows "\<exists>s'. release_cell c s = Some s' \<and> counts_ok s' (N(c := N c - 1)) \<and> netfds s' = netfds s
    \<and> closes s' = closes s @ (if N c = 1 then [f] else []) \<and> (cells s' c = None \<longleftrightarrow> N c = 1)"
proof -
  have n: "n = N c" using counts_cell [OF assms(1,2)] assms(3) by auto
  let ?s = "if n = 1 then close_share_fd f (s\<lparr>cells := (cells s)(c := None)\<rparr>) else s\<lparr>cells := (cells s)(c \<mapsto> (f, n - 1))\<rparr>"
  have "release_cell c s = Some ?s" using assms(3) by (simp add: release_cell_def)
  moreover have "counts_ok ?s (N(c := N c - 1))"
    by (rule counts_upd [OF assms(1) counts_fresh [OF assms(1,2)], where f = f]) (use n assms(2) in \<open>auto simp: close_share_fd_def\<close>)
  ultimately show ?thesis using n by (simp add: close_share_fd_def)
qed

lemma sharers_upd:
  "netfds s' = (netfds s)(a := y) \<Longrightarrow>
   sharers s' c = (if map_option share_fd y = Some (Some c) then insert a (sharers s c) else sharers s c - {a})"
  by (auto simp: sharers_def)

lemma sharers_cong: "netfds s' = netfds s \<Longrightarrow> sharers s' = sharers s"
  by (auto simp: sharers_def fun_eq_iff)

lemma finite_sharers: "finite (dom (netfds s)) \<Longrightarrow> finite (sharers s c)"
  by (rule finite_subset [of _ "dom (netfds s)"]) (auto simp: sharers_def)

lemma sharers_pos: "finite (dom (netfds s)) \<Longrightarrow> netfds s a = Some x \<Longrightarrow> share_fd x = Some c \<Longrightarrow> 0 < card (sharers s c)"
  using finite_sharers [of s c] by (auto simp: card_gt_0_iff sharers_def)

lemma counts_ok_cong: "counts_ok s N \<Longrightarrow> (\<And>c. N c = M c) \<Longrightarrow> counts_ok s M"
  by (metis ext)

text \<open>The number of sharers after the \<open>NetFD\<close> at \<open>a\<close> changed.\<close>

lemma card_sharers_upd:
  assumes "finite (dom (netfds s))" "netfds s' = (netfds s)(a := y)"
  shows "card (sharers s' c) = card (sharers s c)
     + (if map_option share_fd y = Some (Some c) then 1 else 0) - (if a \<in> sharers s c then 1 else 0)"
  unfolding sharers_upd [OF assms(2)]
  using finite_sharers [OF assms(1), of c] card_gt_0_iff [of "sharers s c"]
  by (auto simp: card_insert_if)

lemma share_ok_new: "share_ok netstate_new"
  by (simp add: share_ok_def counts_ok_def netstate_new_def sharers_def)

lemma ok_upd_same:
  assumes "share_ok s" "counts_ok s' (\<lambda>c. card (sharers s c))" "netfds s' = (netfds s)(a \<mapsto> x)"
    and "\<And>c. share_fd x = Some c \<longleftrightarrow> a \<in> sharers s c"
  shows "share_ok s'"
proof -
  have "card (sharers s' c) = card (sharers s c)" for c
    using assms(1,4) card_sharers_upd [OF _ assms(3), of c] sharers_upd [OF assms(3), of c]
    by (auto simp: share_ok_def insert_absorb)
  then show ?thesis using assms by (auto simp: share_ok_def)
qed

lemma in_sharers: "netfds s a = Some x \<Longrightarrow> a \<in> sharers s c \<longleftrightarrow> share_fd x = Some c"
  by (auto simp: sharers_def)

lemma ok_copy:
  assumes ok: "share_ok s" and c: "0 < card (sharers s c)" and a: "netfds s a = None" and x: "share_fd x = Some c"
  shows "\<exists>s'. acquire_cell c (put a x s) = Some s' \<and> share_ok s' \<and> closes s' = closes s \<and> netfds s' = (netfds s)(a \<mapsto> x)"
proof -
  have 1: "counts_ok (put a x s) (\<lambda>c. card (sharers s c))" using ok by (simp add: share_ok_def)
  from acquire_counts [OF this c] obtain s' where s': "acquire_cell c (put a x s) = Some s'"
    "counts_ok s' ((\<lambda>c. card (sharers s c))(c := card (sharers s c) + 1))" "netfds s' = (netfds s)(a \<mapsto> x)" "closes s' = closes s"
    by auto
  have "a \<notin> sharers s d" for d using a by (simp add: sharers_def)
  then have "card (sharers s' d) = ((\<lambda>c. card (sharers s c))(c := card (sharers s c) + 1)) d" for d
    using ok card_sharers_upd [OF _ s'(3), of d] x by (simp add: share_ok_def)
  then have "counts_ok s' (\<lambda>d. card (sharers s' d))" by (intro counts_ok_cong [OF s'(2)]) metis
  with s' ok show ?thesis by (auto simp: share_ok_def)
qed

lemma ok_destroy:
  assumes ok: "share_ok s" and a: "netfds s a = Some x" and x: "share_fd x = Some c"
  shows "\<exists>f n s'. cells s c = Some (f, n) \<and> NetFD_destroy a s = Some s' \<and> share_ok s'
    \<and> closes s' = closes s @ (if sharers s c = {a} then [f] else []) \<and> (cells s' c = None \<longleftrightarrow> sharers s c = {a})
    \<and> netfds s' = (netfds s)(a := None)"
proof -
  define t where "t = s\<lparr>netfds := (netfds s)(a := None)\<rparr>"
  define N where "N = (\<lambda>c. card (sharers s c))"
  have fin: "finite (dom (netfds s))" using ok by (simp add: share_ok_def)
  have 1: "counts_ok t N" using ok by (simp add: share_ok_def t_def N_def counts_ok_def)
  have 2: "0 < N c" unfolding N_def by (rule sharers_pos [OF fin a x])
  obtain f where f: "cells t c = Some (f, N c)" using counts_cell [OF 1 2] by blast
  from release_counts [OF 1 2 f] obtain s' where s': "release_cell c t = Some s'" "counts_ok s' (N(c := N c - 1))"
    "netfds s' = (netfds s)(a := None)" "closes s' = closes s @ (if N c = 1 then [f] else [])" "cells s' c = None \<longleftrightarrow> N c = 1"
    by (auto simp: t_def)
  have "card (sharers s' d) = (N(c := N c - 1)) d" for d
    using card_sharers_upd [OF fin s'(3), of d] in_sharers [OF a, of d] x by (auto simp: N_def)
  then have "counts_ok s' (\<lambda>d. card (sharers s' d))" by (intro counts_ok_cong [OF s'(2)]) metis
  then have "share_ok s'" using fin s'(3) by (auto simp: share_ok_def)
  moreover have "N c = 1 \<longleftrightarrow> sharers s c = {a}"
    using in_sharers [OF a, of c] x by (auto simp: N_def card_1_singleton_iff)
  ultimately show ?thesis using s' f a x by (auto simp: NetFD_destroy_def t_def)
qed

text \<open>Assigning a shared \<open>NetFD\<close>: both may share the same descriptor, or \<open>this\<close> gives another one up.\<close>

lemma ok_assign:
  assumes ok: "share_ok s" and a: "netfds s a = Some x" and r: "netfds s r = Some y" and c: "share_fd y = Some c"
  shows "\<exists>s'. NetFD_assign cur a r s = Some s' \<and> share_ok s'
    \<and> netfds s' = (netfds s)(a \<mapsto> x\<lparr>osfd := osfd y, owner := None, share_fd := Some c\<rparr>)
    \<and> (case share_fd x of None \<Rightarrow> closes s' = closes s
       | Some d \<Rightarrow> \<exists>f n. cells s d = Some (f, n) \<and> closes s' = closes s @ (if d \<noteq> c \<and> sharers s d = {a} then [f] else []))"
proof -
  define z where "z = x\<lparr>osfd := osfd y, owner := None, share_fd := Some c\<rparr>"
  define N where "N = (\<lambda>c. card (sharers s c))"
  have fin: "finite (dom (netfds s))" using ok by (simp add: share_ok_def)
  have 1: "counts_ok (put a z s) N" using ok by (simp add: share_ok_def N_def)
  have 2: "0 < N c" unfolding N_def by (rule sharers_pos [OF fin r c])
  define M where "M = N(c := N c + 1)"
  from acquire_counts [OF 1 2, folded M_def] obtain s1 where s1: "acquire_cell c (put a z s) = Some s1" "counts_ok s1 (M)"
    "netfds s1 = (netfds s)(a \<mapsto> z)" "closes s1 = closes s" "\<And>d. map_option fst (cells s1 d) = map_option fst (cells s d)" by auto
  have card: "card (sharers s' d) = N d + (if d = c then 1 else 0) - (if share_fd x = Some d then 1 else 0)"
    if "netfds s' = (netfds s)(a \<mapsto> z)" for s' d
    using card_sharers_upd [OF fin that, of d] in_sharers [OF a, of d] by (auto simp: N_def z_def)
  show ?thesis
  proof (cases "share_fd x")
    case None
    have "counts_ok s1 (\<lambda>d. card (sharers s1 d))" by (rule counts_ok_cong [OF s1(2)]) (use None in \<open>simp add: M_def card [OF s1(3)]\<close>)
    then show ?thesis using s1 None fin a r c by (auto simp: NetFD_assign_def z_def share_ok_def)
  next
    case (Some d)
    have p: "0 < N d" unfolding N_def by (rule sharers_pos [OF fin a Some])
    obtain f where f: "cells s d = Some (f, N d)" using counts_cell [of s N d] ok p by (auto simp: N_def share_ok_def)
    have p1: "0 < M d" using p by (simp add: M_def)
    obtain g where g: "cells s1 d = Some (g, M d)" using counts_cell [OF s1(2) p1] by blast
    have "g = f" using s1(5) [of d] f g by simp
    from release_counts [OF s1(2) p1 g] obtain s2 where s2: "release_cell d s1 = Some s2"
      "counts_ok s2 ((M)(d := M d - 1))" "netfds s2 = (netfds s)(a \<mapsto> z)"
      "closes s2 = closes s @ (if M d = 1 then [f] else [])" using s1 \<open>g = f\<close> by auto
    have "counts_ok s2 (\<lambda>e. card (sharers s2 e))"
      by (rule counts_ok_cong [OF s2(2)]) (use Some p in \<open>simp add: M_def card [OF s2(3)]\<close>)
    moreover have "M d = 1 \<longleftrightarrow> d \<noteq> c \<and> sharers s d = {a}"
      using in_sharers [OF a, of d] 2 Some by (auto simp: M_def N_def card_1_singleton_iff)
    ultimately show ?thesis using s1(1) s2 Some fin a r c f by (auto simp: NetFD_assign_def z_def share_ok_def)
  qed
qed

lemma ok_NetFD_new:
  assumes ok: "share_ok s" and s': "NetFD_new a share s = Some s'"
  shows "share_ok s'"
proof -
  have fin: "finite (dom (netfds s))" and a: "netfds s a = None" and cnt: "counts_ok s (\<lambda>c. card (sharers s c))"
    using ok s' by (auto simp: share_ok_def NetFD_new_def split: if_splits Option.bind_splits)
  have na: "a \<notin> sharers s d" for d using a by (simp add: sharers_def)
  show ?thesis
  proof (cases share)
    case False
    then have n: "netfds s' = (netfds s)(a \<mapsto> \<lparr>osfd = \<lparr>fd = - 1, events = 0, revents = 0\<rparr>, owner = None, has_timer = False, share_fd = None\<rparr>)"
      and "cells s' = cells s" "fresh s' = fresh s"
      using s' a by (auto simp: NetFD_new_def)
    then show ?thesis using cnt fin na card_sharers_upd [OF fin n] by (auto simp: share_ok_def counts_ok_def)
  next
    case True
    let ?c = "fresh s"
    have n: "netfds s' = (netfds s)(a \<mapsto> \<lparr>osfd = \<lparr>fd = - 1, events = 0, revents = 0\<rparr>, owner = None, has_timer = False, share_fd = Some ?c\<rparr>)"
      and c: "cells s' = (cells s)(?c \<mapsto> (- 1, 1))" "fresh s' = ?c + 1"
      using s' a True by (auto simp: NetFD_new_def)
    have z: "card (sharers s ?c) = 0" using cnt by (auto simp: counts_ok_def dest: spec [of _ ?c] split: if_splits)
    have "card (sharers s' d) = card (sharers s d) + (if d = ?c then 1 else 0)" for d
      using card_sharers_upd [OF fin n, of d] na by auto
    then have "map_option snd (cells s' d) = (if card (sharers s' d) = 0 then None else Some (card (sharers s' d)))" for d
      using cnt c z by (cases "d = ?c") (simp_all add: counts_ok_def)
    moreover have "cells s' d = None" if "fresh s' \<le> d" for d using cnt c that by (simp add: counts_ok_def)
    ultimately have "counts_ok s' (\<lambda>d. card (sharers s' d))" by (simp add: counts_ok_def)
    then show ?thesis using n fin by (auto simp: share_ok_def)
  qed
qed

text \<open>A change that keeps what the \<open>NetFD\<close> at \<open>a\<close> shares and all control blocks keeps the invariant.\<close>

lemma ok_put:
  assumes "share_ok s" "netfds s a = Some x" "share_fd z = share_fd x" "netfds s' = (netfds s)(a \<mapsto> z)"
    "fresh s' = fresh s" "\<And>c. map_option snd (cells s' c) = map_option snd (cells s c)"
  shows "share_ok s'"
proof (rule ok_upd_same [OF assms(1) _ assms(4)])
  have "cells s' c = None \<longleftrightarrow> cells s c = None" for c using assms(6) [of c] by (metis map_option_is_None)
  then show "counts_ok s' (\<lambda>c. card (sharers s c))" using assms by (simp add: share_ok_def counts_ok_def)
  show "share_fd z = Some c \<longleftrightarrow> a \<in> sharers s c" for c using in_sharers [OF assms(2)] assms(3) by simp
qed

lemma ok_inner_close: "share_ok s \<Longrightarrow> inner_close a s = Some s' \<Longrightarrow> share_ok s'"
proof -
  assume ok: "share_ok s" and s': "inner_close a s = Some s'"
  then obtain x where x: "netfds s a = Some x" by (auto simp: inner_close_def split: Option.bind_splits)
  show ?thesis
  proof (cases "share_fd x")
    case None
    then have "s' = put a (set_fd (- 1) x) (s\<lparr>closes := closes s @ [fd (osfd x)]\<rparr>)" using s' x by (simp add: inner_close_def)
    then show ?thesis by (intro ok_put [OF ok x, of "set_fd (- 1) x"]) (simp_all add: set_fd_def)
  qed (use s' x ok in \<open>auto simp: inner_close_def\<close>)
qed

lemma ok_inner_socket:
  assumes ok: "share_ok s" and s': "inner_socket cur main a ret nb share s = Some s'"
  shows "share_ok s'"
proof -
  obtain s1 x where s1: "NetFD_new a share s = Some s1" "netfds s1 a = Some x"
    using s' by (auto simp: inner_socket_def split: Option.bind_splits)
  have ok1: "share_ok s1" by (rule ok_NetFD_new [OF ok s1(1)])
  let ?t = "put a (set_fd ret x) s1"
  have okt: "share_ok ?t" by (rule ok_put [OF ok1 s1(2), of "set_fd ret x"]) (simp_all add: set_fd_def)
  obtain s2 where s2: "(if \<not> nb then inner_close a ?t else Some ?t) = Some s2"
    using s' s1 by (auto simp: inner_socket_def Let_def split: Option.bind_splits)
  have ok2: "share_ok s2" using s2 okt ok_inner_close [OF okt] by (auto split: if_splits)
  obtain x2 where x2: "netfds s2 a = Some x2"
    using s' s1 s2 by (auto simp: inner_socket_def Let_def split: Option.bind_splits)
  note e = s' [unfolded inner_socket_def Let_def] s1 s2 x2
  show ?thesis
  proof (cases "share_fd x2")
    case None
    then show ?thesis using e ok2 by (auto split: Option.bind_splits)
  next
    case (Some c)
    then obtain f n where "cells s2 c = Some (f, n)" and
      r: "s' = s2\<lparr>cells := (cells s2)(c \<mapsto> (fd (osfd x2), n))\<rparr>"
      using e by (auto split: Option.bind_splits option.splits)
    then show ?thesis using x2 by (intro ok_put [OF ok2 x2, of x2]) auto
  qed
qed

lemma ok_NetFD_copy:
  assumes ok: "share_ok s" and s': "NetFD_copy cur a r s = Some s'"
  shows "share_ok s'"
proof -
  obtain y where a: "netfds s a = None" and y: "netfds s r = Some y"
    using s' by (auto simp: NetFD_copy_def split: Option.bind_splits)
  have fin: "finite (dom (netfds s))" using ok by (simp add: share_ok_def)
  show ?thesis
  proof (cases "share_fd y")
    case None
    then have "s' = put a \<lparr>osfd = osfd y, owner = owner y, has_timer = False, share_fd = None\<rparr> s"
      using s' a y by (auto simp: NetFD_copy_def split: Option.bind_splits)
    then show ?thesis using ok a
      by (intro ok_upd_same [OF ok, of _ a "\<lparr>osfd = osfd y, owner = owner y, has_timer = False, share_fd = None\<rparr>"])
        (auto simp: share_ok_def sharers_def)
  next
    case (Some c)
    let ?x = "\<lparr>osfd = osfd y, owner = None, has_timer = False, share_fd = Some c\<rparr>"
    have "acquire_cell c (put a ?x s) = Some s'" using s' a y Some by (simp add: NetFD_copy_def)
    then show ?thesis using ok_copy [OF ok sharers_pos [OF fin y Some] a, of ?x] by auto
  qed
qed

lemma ok_nf_op: "share_ok s \<Longrightarrow> nf_op p s = Some s' \<Longrightarrow> share_ok s'"
proof (induction p s rule: nf_op.induct)
  case (3 cur a r s)
  then obtain x y where x: "netfds s a = Some x" and y: "netfds s r = Some y"
    by (auto simp: NetFD_assign_def split: Option.bind_splits)
  show ?case
  proof (cases "share_fd y")
    case None
    then have "s' = put a (x\<lparr>osfd := osfd y, owner := owner y\<rparr>) s"
      using 3 x y by (auto simp: NetFD_assign_def split: Option.bind_splits)
    then show ?thesis by (intro ok_put [OF 3(1) x]) simp_all
  next
    case (Some c)
    from ok_assign [OF 3(1) x y this, of cur] 3(2) show ?thesis by auto
  qed
next
  case (4 a s)
  then obtain x where x: "netfds s a = Some x" by (auto simp: NetFD_destroy_def split: Option.bind_splits)
  show ?case
  proof (cases "share_fd x")
    case None
    then have "s' = s\<lparr>netfds := (netfds s)(a := None)\<rparr>" using 4 x by (simp add: NetFD_destroy_def)
    moreover have "sharers s' c = sharers s c" for c
      using sharers_upd [of s' s a None c] in_sharers [OF x, of c] None calculation by auto
    ultimately show ?thesis using 4 by (auto simp: share_ok_def counts_ok_def)
  qed (use 4 x ok_destroy [OF 4(1) x] in auto)
qed (auto intro: ok_NetFD_new ok_NetFD_copy ok_inner_close ok_inner_socket)

interpretation netfd_sys: invariant_system "\<lambda>s. s = netstate_new" nf_step share_ok
  by unfold_locales (auto simp: share_ok_new nf_step_def intro: ok_nf_op)

section \<open>Properties\<close>

text \<open>
  C21: Whatever \<open>NetFD\<close>s were created, copied, assigned and destroyed, the use count of a shared descriptor is
  the number of living \<open>NetFD\<close>s that share it. \<open>inner_close\<close> on one of them changes nothing; destroying one
  closes the descriptor exactly when it is the last.
\<close>

theorem netfd_shared_closed_by_last:
  assumes "nf_step\<^sup>*\<^sup>* netstate_new s" and "netfds s a = Some x" and "share_fd x = Some c"
  shows "\<exists>f s'. cells s c = Some (f, card (sharers s c)) \<and> inner_close a s = Some s
    \<and> NetFD_destroy a s = Some s' \<and> (cells s' c = None \<longleftrightarrow> sharers s c = {a})
    \<and> closes s' = closes s @ (if sharers s c = {a} then [f] else [])"
proof -
  have ok: "share_ok s" by (rule netfd_sys.inv_reachable [OF refl assms(1)])
  have "0 < card (sharers s c)" using ok assms(2,3) by (auto simp: share_ok_def intro: sharers_pos)
  then have "\<exists>f. cells s c = Some (f, card (sharers s c))" using ok counts_cell by (auto simp: share_ok_def)
  with ok_destroy [OF ok assms(2,3)] show ?thesis using assms by (auto simp: inner_close_def)
qed

text \<open>A task opens the shared socket 7 and copies its \<open>NetFD\<close>.\<close>

definition two_sharers :: netstate where
  "two_sharers = \<lparr>netfds = (\<lambda>a. None)(1 \<mapsto> \<lparr>osfd = \<lparr>fd = 7, events = 0, revents = 0\<rparr>, owner = None, has_timer = False, share_fd = Some 0\<rparr>,
      2 \<mapsto> \<lparr>osfd = \<lparr>fd = 7, events = 0, revents = 0\<rparr>, owner = None, has_timer = False, share_fd = Some 0\<rparr>),
    cells = (\<lambda>c. None)(0 \<mapsto> (7, 2)), fresh = 1, closes = []\<rparr>"

lemma two_sharers_reachable: "nf_step\<^sup>*\<^sup>* netstate_new two_sharers"
proof -
  have "Option.bind (nf_op (Socket (Some 9) False 1 7 True True) netstate_new) (nf_op (Copy (Some 9) 2 1)) = Some two_sharers"
    by (simp add: inner_socket_def NetFD_new_def netstate_new_def set_fd_def NetFD_copy_def acquire_cell_def put_def
        two_sharers_def fun_eq_iff)
  then obtain s where "nf_op (Socket (Some 9) False 1 7 True True) netstate_new = Some s" "nf_op (Copy (Some 9) 2 1) s = Some two_sharers"
    unfolding bind_eq_Some_conv by blast
  then have "nf_step netstate_new s" "nf_step s two_sharers" unfolding nf_step_def by blast+
  then show ?thesis by auto
qed

lemma netfd_shared_closed_by_last_witness:
  "\<exists>s' s''. NetFD_destroy 1 two_sharers = Some s' \<and> closes s' = [] \<and> NetFD_destroy 2 s' = Some s'' \<and> closes s'' = [7]"
proof -
  let ?x = "\<lparr>osfd = \<lparr>fd = 7, events = 0, revents = 0\<rparr>, owner = None, has_timer = False, share_fd = Some 0\<rparr>"
  define s' where "s' = two_sharers\<lparr>netfds := (\<lambda>a. None)(2 \<mapsto> ?x), cells := (\<lambda>c. None)(0 \<mapsto> (7, 1))\<rparr>"
  have sh: "sharers two_sharers 0 = {1, 2}" "sharers s' 0 = {2}" by (auto simp: sharers_def two_sharers_def s'_def)
  have 1: "NetFD_destroy 1 two_sharers = Some s'"
    by (simp add: NetFD_destroy_def two_sharers_def release_cell_def s'_def fun_eq_iff)
  then have "nf_step two_sharers s'" unfolding nf_step_def by (intro exI [of _ "Destroy 1"]) simp
  then have r: "nf_step\<^sup>*\<^sup>* netstate_new s'" using two_sharers_reachable by (rule rtranclp.rtrancl_into_rtrancl [rotated])
  have "closes s' = []"
    using netfd_shared_closed_by_last [OF two_sharers_reachable, of 1 ?x 0] 1 sh by (auto simp: two_sharers_def)
  moreover have "\<exists>s''. NetFD_destroy 2 s' = Some s'' \<and> closes s'' = closes s' @ [7]"
    using netfd_shared_closed_by_last [OF r, of 2 ?x 0] sh by (auto simp: s'_def)
  ultimately show ?thesis using 1 by auto
qed

end
