(* ===== verification/Io_Wait.thy ===== *)
theory Io_Wait
  imports Net_Fd Multimap
begin

unbundle bit_operations_syntax

text \<open>
  \<open>InnerIoWait\<close> of \<open>netio/inner_net/inner_io_wait.h\<close> and \<open>inner_io_wait.cpp\<close>: what the epoll and the select
  model share. The state holds the \<open>NetFD\<close>s by their address, the map of the waiting ones, the tasks that
  suspended themselves in \<open>CoSwitch\<close> and were not woken since, the \<open>NetFD\<close>s whose timer is pending, the
  argument \<open>timeout\<close> of the \<open>Poll\<close> each one is in, and \<open>errno\<close>.
\<close>

section \<open>Events and errors\<close>

text \<open>The bits of \<open>poll\<close>, which those of \<open>epoll\<close> equal.\<close>

abbreviation POLLIN :: uint32 where "POLLIN \<equiv> 0x1"
abbreviation POLLPRI :: uint32 where "POLLPRI \<equiv> 0x2"
abbreviation POLLOUT :: uint32 where "POLLOUT \<equiv> 0x4"
abbreviation POLLERR :: uint32 where "POLLERR \<equiv> 0x8"
abbreviation POLLHUP :: uint32 where "POLLHUP \<equiv> 0x10"
abbreviation POLLNVAL :: uint32 where "POLLNVAL \<equiv> 0x20"
abbreviation POLLRDHUP :: uint32 where "POLLRDHUP \<equiv> 0x2000"

datatype errno = EOK | EAGAIN | EINTR | EINVAL | ETIME | EBADF | EEXIST | ENOENT | EINPROGRESS | EADDRINUSE | Errno int

text \<open>\<open>osfd.events\<close> is a \<open>short\<close>: storing an \<open>int\<close> drops the upper bits, reading extends the sign.\<close>

definition to_short :: "uint32 \<Rightarrow> 16 word" where
  "to_short e = ucast e"

definition of_short :: "16 word \<Rightarrow> uint32" where
  "of_short e = scast e"

section \<open>State\<close>

record io_wait =
  nfd :: "addr \<Rightarrow> netfd"
  fd_map :: "(int, addr) mmap"
  suspended :: "addr \<Rightarrow> bool"
  armed :: "addr \<Rightarrow> bool"
  frames :: "addr \<Rightarrow> int"
  err :: errno

definition fd_of :: "'z io_wait_scheme \<Rightarrow> addr \<Rightarrow> int" where
  "fd_of w a = fd (osfd (nfd w a))"

definition events_of :: "'z io_wait_scheme \<Rightarrow> addr \<Rightarrow> uint32" where
  "events_of w a = of_short (events (osfd (nfd w a)))"

definition upd_nfd :: "addr \<Rightarrow> (netfd \<Rightarrow> netfd) \<Rightarrow> 'z io_wait_scheme \<Rightarrow> 'z io_wait_scheme" where
  "upd_nfd a f w = w\<lparr>nfd := (nfd w)(a := f (nfd w a))\<rparr>"

definition set_events :: "uint32 \<Rightarrow> netfd \<Rightarrow> netfd" where
  "set_events e x = x\<lparr>osfd := (osfd x)\<lparr>events := to_short e\<rparr>\<rparr>"

definition set_revents :: "uint32 \<Rightarrow> netfd \<Rightarrow> netfd" where
  "set_revents e x = x\<lparr>osfd := (osfd x)\<lparr>revents := to_short e\<rparr>\<rparr>"

section \<open>Operations\<close>

text \<open>\<open>SuspendBySelfIO\<close> asserts that the task is runnable.\<close>

definition CoSwitch :: "addr \<Rightarrow> 'z io_wait_scheme \<Rightarrow> 'z io_wait_scheme option" where
  "CoSwitch tk w = do {
     assert_c (\<not> suspended w tk);
     Some (w\<lparr>suspended := (suspended w)(tk := True)\<rparr>) }"

definition RemoveNetFD2TaskRunnable :: "addr \<Rightarrow> 'z io_wait_scheme \<Rightarrow> 'z io_wait_scheme option" where
  "RemoveNetFD2TaskRunnable a w = do {
     tk \<leftarrow> owner (nfd w a);
     Some (w\<lparr>suspended := (suspended w)(tk := False)\<rparr>) }"

definition CreateTimer :: "addr \<Rightarrow> 'z io_wait_scheme \<Rightarrow> 'z io_wait_scheme" where
  "CreateTimer a w = (upd_nfd a (has_timer_update (\<lambda>_. True)) w)\<lparr>armed := (armed w)(a := True)\<rparr>"

definition StopTimer :: "addr \<Rightarrow> 'z io_wait_scheme \<Rightarrow> 'z io_wait_scheme" where
  "StopTimer a w =
     (if has_timer (nfd w a)
      then (upd_nfd a (has_timer_update (\<lambda>_. False)) w)\<lparr>armed := (armed w)(a := False)\<rparr>
      else w)"

definition GetFDMapSize :: "'z io_wait_scheme \<Rightarrow> nat" where
  "GetFDMapSize w = length (fd_map w)"

text \<open>A \<open>NetFD\<close> that is already waited for ends the program.\<close>

definition CheckRepeatNetFD :: "addr \<Rightarrow> 'z io_wait_scheme \<Rightarrow> unit option" where
  "CheckRepeatNetFD a w = assert_c (owner (nfd w a) = None)"

section \<open>The map of waiting descriptors\<close>

text \<open>The \<open>NetFD\<close>s that wait on a descriptor, in the order of the map.\<close>

definition same_fd :: "int \<Rightarrow> 'z io_wait_scheme \<Rightarrow> addr list" where
  "same_fd f w = map snd (filter (\<lambda>x. fst x = f) (fd_map w))"

definition erase_nfd :: "addr \<Rightarrow> 'z io_wait_scheme \<Rightarrow> 'z io_wait_scheme" where
  "erase_nfd a w = w\<lparr>fd_map := filter (\<lambda>x. x \<noteq> (fd_of w a, a)) (fd_map w)\<rparr>"

text \<open>
  The loop of \<open>PollsetTimeoutDel\<close> over the elements with the descriptor of \<open>a\<close>: it erases \<open>a\<close> and collects
  the events the other ones ask for.
\<close>

primrec timeout_scan :: "addr \<Rightarrow> addr list \<Rightarrow> 'z io_wait_scheme \<times> uint32 \<Rightarrow> 'z io_wait_scheme \<times> uint32" where
  "timeout_scan a [] r = r"
| "timeout_scan a (b # bs) r =
     (let (w, m) = r in
      if b = a then timeout_scan a bs (erase_nfd a w, m)
      else timeout_scan a bs (w, m OR events_of w b))"

section \<open>Facts\<close>

lemma upd_nfd_simps [simp]:
  "nfd (upd_nfd a f w) = (nfd w)(a := f (nfd w a))" "fd_map (upd_nfd a f w) = fd_map w"
  "suspended (upd_nfd a f w) = suspended w" "armed (upd_nfd a f w) = armed w"
  "frames (upd_nfd a f w) = frames w" "err (upd_nfd a f w) = err w"
  "io_wait.more (upd_nfd a f w) = io_wait.more w"
  by (simp_all add: upd_nfd_def)

lemma set_events_simps [simp]:
  "owner (set_events e x) = owner x" "has_timer (set_events e x) = has_timer x" "share_fd (set_events e x) = share_fd x"
  "fd (osfd (set_events e x)) = fd (osfd x)" "events (osfd (set_events e x)) = to_short e"
  "owner (set_revents e x) = owner x" "has_timer (set_revents e x) = has_timer x" "share_fd (set_revents e x) = share_fd x"
  "fd (osfd (set_revents e x)) = fd (osfd x)" "events (osfd (set_revents e x)) = events (osfd x)"
  "revents (osfd (set_revents e x)) = to_short e"
  by (simp_all add: set_events_def set_revents_def)

lemma erase_nfd_simps [simp]:
  "nfd (erase_nfd a w) = nfd w" "suspended (erase_nfd a w) = suspended w" "armed (erase_nfd a w) = armed w"
  "frames (erase_nfd a w) = frames w" "err (erase_nfd a w) = err w"
  "fd_map (erase_nfd a w) = filter (\<lambda>x. x \<noteq> (fd_of w a, a)) (fd_map w)"
  "io_wait.more (erase_nfd a w) = io_wait.more w"
  by (simp_all add: erase_nfd_def)

lemma StopTimer_simps [simp]:
  "nfd (StopTimer a w) = (nfd w)(a := (nfd w a)\<lparr>has_timer := False\<rparr>)" "fd_map (StopTimer a w) = fd_map w"
  "suspended (StopTimer a w) = suspended w" "frames (StopTimer a w) = frames w" "err (StopTimer a w) = err w"
  "io_wait.more (StopTimer a w) = io_wait.more w"
  "armed (StopTimer a w) = (if has_timer (nfd w a) then (armed w)(a := False) else armed w)"
  by (cases "nfd w a"; auto simp: StopTimer_def fun_eq_iff)+

lemma other_updates [simp]:
  "fd_of (w\<lparr>armed := x\<rparr>) a = fd_of w a" "events_of (w\<lparr>armed := x\<rparr>) a = events_of w a" "same_fd f (w\<lparr>armed := x\<rparr>) = same_fd f w"
  "fd_of (w\<lparr>err := e\<rparr>) a = fd_of w a" "events_of (w\<lparr>err := e\<rparr>) a = events_of w a" "same_fd f (w\<lparr>err := e\<rparr>) = same_fd f w"
  "fd_of (w\<lparr>suspended := z\<rparr>) a = fd_of w a" "events_of (w\<lparr>suspended := z\<rparr>) a = events_of w a"
  by (simp_all add: fd_of_def events_of_def same_fd_def)

lemma mm_sorted_filter: "mm_sorted xs \<Longrightarrow> mm_sorted (filter P xs)"
  by (induction xs) auto

text \<open>The events a \<open>Poll\<close> accepts survive in a \<open>short\<close>; the flag of the trigger mode does not.\<close>

definition EPOLLET :: uint32 where
  "EPOLLET = 0x80000000"

lemma bit_EPOLLET: "bit EPOLLET n \<longleftrightarrow> n = 31"
proof -
  have e: "EPOLLET = push_bit 31 1" by (simp add: EPOLLET_def push_bit_eq_mult)
  show ?thesis unfolding e bit_push_bit_iff by (auto simp: bit_1_iff possible_bit_def)
qed

lemma short_bits:
  assumes "e AND NOT (POLLIN OR POLLOUT OR POLLPRI) = 0"
  shows "of_short (to_short e) = e" "of_short (to_short (e OR EPOLLET)) = e"
proof -
  have b: "bit e n \<Longrightarrow> n < 3" for n
  proof -
    assume n: "bit e n"
    then have "n < 32" using bit_imp_le_length [OF n] by simp
    then have "\<not> bit (NOT (POLLIN OR POLLOUT OR POLLPRI)) n"
      using n assms by (metis bit_0_eq bit_and_iff bot_apply bot_bool_def)
    then show "n < 3" using \<open>n < 32\<close>
      by (auto simp: bit_simps numeral_eq_Suc less_Suc_eq bit_Suc)
  qed
  have "bit (of_short (to_short e)) n = bit e n" if "n < 32" for n
    using b [of n] b [of 15] that by (cases "n < 15") (auto simp: of_short_def to_short_def bit_simps min_def)
  then show "of_short (to_short e) = e" by (intro bit_word_eqI) simp
  have "bit (of_short (to_short (e OR EPOLLET))) n = bit e n" if "n < 32" for n
    using b [of n] b [of 15] that by (cases "n < 15") (auto simp: of_short_def to_short_def bit_EPOLLET bit_simps min_def)
  then show "of_short (to_short (e OR EPOLLET)) = e" by (intro bit_word_eqI) simp
qed

section \<open>Waiting tasks and timers\<close>

definition waits :: "'z io_wait_scheme \<Rightarrow> addr \<Rightarrow> bool" where
  "waits w a \<longleftrightarrow> (fd_of w a, a) \<in> set (fd_map w)"

text \<open>The suspended tasks are exactly the owners of the \<open>NetFD\<close>s in the map; no task is in two \<open>Poll\<close>s.\<close>

definition tasks_ok :: "'z io_wait_scheme \<Rightarrow> bool" where
  "tasks_ok w \<longleftrightarrow> (\<forall>a. waits w a \<longrightarrow> (\<exists>t. owner (nfd w a) = Some t \<and> suspended w t))
     \<and> (\<forall>t. suspended w t \<longrightarrow> (\<exists>a. owner (nfd w a) = Some t \<and> waits w a))
     \<and> (\<forall>a b t. owner (nfd w a) = Some t \<longrightarrow> owner (nfd w b) = Some t \<longrightarrow> a = b)"

text \<open>A timer is pending exactly for the waiting \<open>NetFD\<close>s that have one.\<close>

definition timers_ok :: "'z io_wait_scheme \<Rightarrow> bool" where
  "timers_ok w \<longleftrightarrow> (\<forall>a. has_timer (nfd w a) \<longrightarrow> owner (nfd w a) \<noteq> None \<and> 0 < frames w a)
     \<and> (\<forall>a. armed w a \<longleftrightarrow> has_timer (nfd w a) \<and> waits w a)"

text \<open>\<open>a\<close> leaves the map and its task \<open>t\<close> is woken.\<close>

definition leaves :: "addr \<Rightarrow> addr \<Rightarrow> 'z io_wait_scheme \<Rightarrow> 'z io_wait_scheme \<Rightarrow> bool" where
  "leaves a t w w' \<longleftrightarrow> fd_map w' = filter (\<lambda>x. x \<noteq> (fd_of w a, a)) (fd_map w)
     \<and> suspended w' = (suspended w)(t := False) \<and> frames w' = frames w \<and> armed w' = (armed w)(a := False)
     \<and> (\<forall>b. owner (nfd w' b) = owner (nfd w b) \<and> fd_of w' b = fd_of w b \<and> events_of w' b = events_of w b)
     \<and> (\<forall>b. b \<noteq> a \<longrightarrow> has_timer (nfd w' b) = has_timer (nfd w b))
     \<and> (has_timer (nfd w' a) \<longrightarrow> has_timer (nfd w a))"

lemma leaves_waits: "leaves a t w w' \<Longrightarrow> waits w' b \<longleftrightarrow> waits w b \<and> b \<noteq> a"
  by (auto simp: leaves_def waits_def)

lemma tasks_ok_leaves:
  assumes "tasks_ok w" "leaves a t w w'" "owner (nfd w a) = Some t"
  shows "tasks_ok w'"
proof -
  have o: "owner (nfd w' b) = owner (nfd w b)" for b using assms(2) by (simp add: leaves_def)
  have s: "suspended w' u \<longleftrightarrow> suspended w u \<and> u \<noteq> t" for u using assms(2) by (simp add: leaves_def)
  have u: "owner (nfd w b) = Some t \<Longrightarrow> b = a" for b using assms(1,3) by (auto simp: tasks_ok_def)
  have "\<exists>u. owner (nfd w b) = Some u \<and> suspended w u \<and> u \<noteq> t" if b: "waits w b" "b \<noteq> a" for b
    using assms(1) b(1) u [of b] b(2) unfolding tasks_ok_def by metis
  moreover have "\<exists>b. owner (nfd w b) = Some v \<and> waits w b \<and> b \<noteq> a" if v: "suspended w v" "v \<noteq> t" for v
    using assms(1,3) v unfolding tasks_ok_def by (metis option.inject)
  ultimately show ?thesis using assms(1) unfolding tasks_ok_def o s leaves_waits [OF assms(2)] by blast
qed

lemma timers_ok_leaves: "timers_ok w \<Longrightarrow> leaves a t w w' \<Longrightarrow> timers_ok w'"
proof -
  assume ok: "timers_ok w" and l: "leaves a t w w'"
  have 1: "owner (nfd w' b) = owner (nfd w b)" "frames w' = frames w" for b using l by (simp_all add: leaves_def)
  have 2: "has_timer (nfd w' b) \<Longrightarrow> has_timer (nfd w b)" for b using l by (cases "b = a") (auto simp: leaves_def)
  have 3: "armed w' b \<longleftrightarrow> armed w b \<and> b \<noteq> a" for b using l by (simp add: leaves_def)
  have 4: "b \<noteq> a \<Longrightarrow> has_timer (nfd w' b) = has_timer (nfd w b)" for b using l by (simp add: leaves_def)
  show ?thesis using ok 2 4 unfolding timers_ok_def 1 3 leaves_waits [OF l] by blast
qed

text \<open>The task \<open>t\<close> goes to wait on \<open>a\<close>, which nobody owned.\<close>

lemma tasks_ok_joins:
  assumes ok: "tasks_ok w" and a: "owner (nfd w a) = None" and t: "\<And>b. owner (nfd w b) \<noteq> Some t"
    and w': "\<And>b. owner (nfd w' b) = (if b = a then Some t else owner (nfd w b))" "suspended w' = (suspended w)(t := True)"
    "\<And>b. waits w' b \<longleftrightarrow> waits w b \<or> b = a"
  shows "tasks_ok w'"
  using ok a t unfolding tasks_ok_def w' by (auto split: if_splits) (metis option.distinct(1))+

lemma tasks_ok_same:
  "tasks_ok w \<Longrightarrow> (\<And>b. owner (nfd w' b) = owner (nfd w b)) \<Longrightarrow> suspended w' = suspended w \<Longrightarrow>
   (\<And>b. waits w' b = waits w b) \<Longrightarrow> tasks_ok w'"
  by (simp add: tasks_ok_def)

lemma timers_ok_same:
  "timers_ok w \<Longrightarrow> (\<And>b. owner (nfd w' b) = owner (nfd w b)) \<Longrightarrow> (\<And>b. has_timer (nfd w' b) = has_timer (nfd w b)) \<Longrightarrow>
   frames w' = frames w \<Longrightarrow> armed w' = armed w \<Longrightarrow> (\<And>b. waits w' b = waits w b) \<Longrightarrow> timers_ok w'"
  by (simp add: timers_ok_def)

text \<open>A woken task leaves \<open>Poll\<close>.\<close>

lemma tasks_ok_exits:
  assumes ok: "tasks_ok w" and a: "owner (nfd w a) = Some t" "\<not> suspended w t"
    and w': "\<And>b. owner (nfd w' b) = (if b = a then None else owner (nfd w b))" "suspended w' = suspended w"
    "\<And>b. waits w' b = waits w b"
  shows "tasks_ok w'"
proof -
  have na: "\<not> waits w a" using ok a by (auto simp: tasks_ok_def)
  show ?thesis using ok a na unfolding tasks_ok_def w' by (auto split: if_splits)
qed

lemma same_fd_single:
  assumes "distinct (map fst (fd_map w))" "waits w a"
  shows "same_fd (fd_of w a) w = [a]"
proof -
  have "distinct (map fst xs) \<Longrightarrow> (f, b) \<in> set xs \<Longrightarrow> filter (\<lambda>x. fst x = f) xs = [(f, b)]" for f :: int and b and xs :: "(int, addr) mmap"
  proof (induction xs)
    case (Cons x xs)
    show ?case
    proof (cases "fst x = f")
      case True
      then have "f \<notin> fst ` set xs" using Cons.prems(1) by simp
      then have "filter (\<lambda>x. fst x = f) xs = []" "(f, b) \<notin> set xs" by (force simp: filter_empty_conv)+
      moreover from this Cons.prems(2) have "x = (f, b)" by simp
      ultimately show ?thesis by simp
    qed (use Cons in auto)
  qed simp
  with assms show ?thesis by (simp add: same_fd_def waits_def)
qed

end
