(* ===== verification/Epoll_Wait.thy ===== *)
theory Epoll_Wait
  imports Io_Wait
begin

text \<open>
  \<open>EpollIoWait\<close> of \<open>netio/inner_net/epoll_io_wait.h\<close> and \<open>epoll_io_wait.cpp\<close>. The kernel's side of the
  epoll descriptor is a parameter: \<open>ctl\<close> stands for \<open>epoll_ctl\<close> on a kernel state \<open>'k\<close>, \<open>interest\<close> for the set
  of registered descriptors it holds, and \<open>epoll_law\<close> for its documented behaviour. A step relation lets
  tasks enter and leave \<open>Poll\<close>, the kernel report events and timers fire, in any order.
\<close>

section \<open>State\<close>

record 'k epoll = io_wait +
  evtlist_cnt :: int
  event_list_size :: nat
  kern :: 'k

datatype ctl_op = Ctl_Add | Ctl_Mod | Ctl_Del

type_synonym 'k epoll_ctl = "ctl_op \<Rightarrow> int \<Rightarrow> uint32 \<Rightarrow> 'k \<Rightarrow> errno option \<times> 'k"

definition POLL_EXCEPTION :: uint32 where
  "POLL_EXCEPTION = POLLERR OR POLLHUP OR POLLRDHUP OR POLLNVAL"

text \<open>\<open>epoll_ctl\<close> on the epoll descriptor: whether it failed, with \<open>errno\<close> set then.\<close>

definition call_ctl :: "'k epoll_ctl \<Rightarrow> ctl_op \<Rightarrow> int \<Rightarrow> uint32 \<Rightarrow> 'k epoll \<Rightarrow> bool \<times> 'k epoll" where
  "call_ctl ctl p f ev w = (case ctl p f ev (kern w) of
      (None, k) \<Rightarrow> (True, w\<lparr>kern := k\<rparr>)
    | (Some e, k) \<Rightarrow> (False, w\<lparr>kern := k, err := e\<rparr>))"

section \<open>Initialisation\<close>

definition PollInterrupter :: "'k epoll_ctl \<Rightarrow> int \<Rightarrow> 'k epoll \<Rightarrow> 'k epoll" where
  "PollInterrupter ctl notify w = snd (call_ctl ctl Ctl_Add notify (POLLIN OR EPOLLET) w)"

definition epoll_InitModule :: "'k epoll_ctl \<Rightarrow> int \<Rightarrow> nat \<Rightarrow> 'k epoll \<Rightarrow> 'k epoll" where
  "epoll_InitModule ctl notify epoll_event_size w =
     PollInterrupter ctl notify (w\<lparr>event_list_size := epoll_event_size\<rparr>)"

text \<open>
  \<open>InnerIoWait::inner_io_init\<close>, once per process: the limit of descriptors \<open>rlim_max\<close>, an \<open>int\<close>, becomes the hard
  limit \<open>hard\<close> that \<open>getrlimit\<close> answers (\<open>None\<close> for an error), or \<open>FD_LIMIT_SIZE\<close> unless that is 0. The first
  result is what the function returns, \<open>set_ok\<close> whether \<open>setrlimit\<close> succeeds.
\<close>

definition inner_io_init :: "bool \<Rightarrow> uint64 \<Rightarrow> uint64 option \<Rightarrow> bool \<Rightarrow> int \<Rightarrow> int \<times> int" where
  "inner_io_init is_unix fd_limit hard set_ok m =
     (if \<not> is_unix \<or> m \<noteq> 0 then (0, m)
      else (case hard of None \<Rightarrow> (- 1, m)
        | Some h \<Rightarrow> (let m = sint (ucast (if fd_limit = 0 then h else fd_limit) :: 32 word) in (if set_ok then 0 else - 1, m))))"

section \<open>Registering\<close>

text \<open>The counter is compared with a \<open>size_t\<close>, so it is taken modulo $2^{64}$.\<close>

definition PollsetAddHelp :: "'k epoll_ctl \<Rightarrow> int \<Rightarrow> addr \<Rightarrow> uint32 \<Rightarrow> 'k epoll \<Rightarrow> bool \<times> 'k epoll" where
  "PollsetAddHelp ctl rlim_max a ev w =
     (let w = upd_nfd a (set_events ev) w;
          (ok, w) = call_ctl ctl Ctl_Add (fd_of w a) ev w
      in if \<not> ok then (False, w)
         else let c = evtlist_cnt w + 1; w = w\<lparr>evtlist_cnt := c\<rparr> in
           (True, if c mod 2 ^ 64 > int (event_list_size w) \<and> c * 2 \<le> rlim_max
                  then w\<lparr>event_list_size := nat (c * 2)\<rparr> else w))"

definition PollsetModify :: "'k epoll_ctl \<Rightarrow> int \<Rightarrow> uint32 \<Rightarrow> 'k epoll \<Rightarrow> 'k epoll option" where
  "PollsetModify ctl f ev w = do {
     assert_c (sint ev > 0);
     let (ok, w) = call_ctl ctl Ctl_Mod f ev w;
     assert_c ok;
     Some w }"

primrec old_events :: "'k epoll \<Rightarrow> addr list \<Rightarrow> uint32 \<Rightarrow> uint32" where
  "old_events w [] m = m"
| "old_events w (b # bs) m = old_events w bs (m OR events_of w b)"

definition epoll_PollsetAdd :: "'k epoll_ctl \<Rightarrow> int \<Rightarrow> addr \<Rightarrow> uint32 \<Rightarrow> 'k epoll \<Rightarrow> (bool \<times> 'k epoll) option" where
  "epoll_PollsetAdd ctl rlim_max a ev w =
     (if fd_of w a < 0 \<or> ev = 0 \<or> ev AND NOT (POLLIN OR POLLOUT OR POLLPRI) \<noteq> 0
      then Some (False, w\<lparr>err := EINVAL\<rparr>)
      else let ev = ev OR EPOLLET in
        if \<not> is_shared (nfd w a) \<or> same_fd (fd_of w a) w = []
        then Some (PollsetAddHelp ctl rlim_max a ev w)
        else let w = upd_nfd a (set_events ev) w; old = old_events w (same_fd (fd_of w a) w) 0 in
          if old \<noteq> ev then map_option (Pair True) (PollsetModify ctl (fd_of w a) (old OR ev) w)
          else Some (True, w))"

section \<open>Unregistering\<close>

text \<open>The end of \<open>PollsetTimeoutDel\<close> and of the loop over the events: drop the descriptor or change its events.\<close>

definition del_or_mod :: "'k epoll_ctl \<Rightarrow> int \<Rightarrow> uint32 \<Rightarrow> uint32 \<Rightarrow> 'k epoll \<Rightarrow> 'k epoll option" where
  "del_or_mod ctl f del_ev m w =
     (if m = 0 then do {
        let (ok, w) = call_ctl ctl Ctl_Del f del_ev w;
        assert_c ok;
        Some (w\<lparr>evtlist_cnt := evtlist_cnt w - 1\<rparr>) }
      else do {
        let (ok, w) = call_ctl ctl Ctl_Mod f m w;
        assert_c ok;
        Some w })"

definition epoll_PollsetTimeoutDel :: "'k epoll_ctl \<Rightarrow> addr \<Rightarrow> 'k epoll \<Rightarrow> 'k epoll option" where
  "epoll_PollsetTimeoutDel ctl a w = do {
     let f = fd_of w a;
     assert_c (same_fd f w \<noteq> []);
     let (w, m) = timeout_scan a (same_fd f w) (w, 0);
     del_or_mod ctl f (events_of w a) m w }"

text \<open>The callback of the timer that \<open>CreateTimer\<close> makes.\<close>

definition epoll_timeout :: "'k epoll_ctl \<Rightarrow> addr \<Rightarrow> 'k epoll \<Rightarrow> 'k epoll option" where
  "epoll_timeout ctl a w = do {
     w \<leftarrow> epoll_PollsetTimeoutDel ctl a (w\<lparr>armed := (armed w)(a := False)\<rparr>);
     RemoveNetFD2TaskRunnable a w }"

section \<open>The event loop\<close>

text \<open>
  The loop over the \<open>NetFD\<close>s of one descriptor: those that asked for an event that came, or all after an
  exception, get \<open>revents\<close>, leave the map and are woken. \<open>m\<close> collects the events of all of them.
\<close>

definition wakes :: "uint32 \<Rightarrow> uint32 \<Rightarrow> bool" where
  "wakes come ev \<longleftrightarrow> come AND ev \<noteq> 0 \<or> come AND POLL_EXCEPTION \<noteq> 0"

primrec wake_loop :: "uint32 \<Rightarrow> addr list \<Rightarrow> 'k epoll \<times> uint32 \<Rightarrow> ('k epoll \<times> uint32) option" where
  "wake_loop come [] r = Some r"
| "wake_loop come (a # as) r =
     (let (w, m) = r; ev = events_of w a; m = m OR ev in
      if wakes come ev then do {
        let w = upd_nfd a (set_revents ((ev AND come) OR (come AND POLL_EXCEPTION))) w;
        w \<leftarrow> RemoveNetFD2TaskRunnable a w;
        wake_loop come as (StopTimer a (erase_nfd a w), m) }
      else wake_loop come as (w, m))"

definition handle_event :: "'k epoll_ctl \<Rightarrow> int \<Rightarrow> int \<times> uint32 \<Rightarrow> 'k epoll \<Rightarrow> 'k epoll option" where
  "handle_event ctl notify e w = (let (f, come) = e in
     if f = notify then Some w
     else do {
       assert_c (same_fd f w \<noteq> []);
       (w, m) \<leftarrow> wake_loop come (same_fd f w) (w, 0);
       let m = m AND NOT come;
       del_or_mod ctl f m m w })"

primrec handle_events :: "'k epoll_ctl \<Rightarrow> int \<Rightarrow> (int \<times> uint32) list \<Rightarrow> 'k epoll \<Rightarrow> 'k epoll option" where
  "handle_events ctl notify [] w = Some w"
| "handle_events ctl notify (e # es) w = Option.bind (handle_event ctl notify e w) (handle_events ctl notify es)"

text \<open>\<open>nfd\<close> is what \<open>epoll_wait\<close> returns, \<open>es\<close> the events it wrote.\<close>

definition epoll_WaitLoop :: "'k epoll_ctl \<Rightarrow> int \<Rightarrow> int \<Rightarrow> (int \<times> uint32) list \<Rightarrow> 'k epoll \<Rightarrow> (int \<times> 'k epoll) option" where
  "epoll_WaitLoop ctl notify n es w =
     (if n > 0 then map_option (Pair n) (handle_events ctl notify (take (nat n) es) w) else Some (n, w))"

section \<open>Poll\<close>

text \<open>Up to \<open>CoSwitch\<close>; the result is false when \<open>Poll\<close> returns -1 at once.\<close>

definition epoll_Poll_enter ::
  "'k epoll_ctl \<Rightarrow> int \<Rightarrow> ptr \<Rightarrow> addr \<Rightarrow> uint32 \<Rightarrow> int \<Rightarrow> 'k epoll \<Rightarrow> (bool \<times> 'k epoll) option" where
  "epoll_Poll_enter ctl rlim_max cur a ev timeout w = do {
     assert_c (owner (nfd w a) = None);
     CheckRepeatNetFD a w;
     (ok, w) \<leftarrow> epoll_PollsetAdd ctl rlim_max a ev w;
     if \<not> ok then Some (False, w) else do {
       tk \<leftarrow> cur;
       let w = upd_nfd a (owner_update (\<lambda>_. Some tk)) w;
       let w = w\<lparr>fd_map := mm_insert (fd_of w a) a (fd_map w), frames := (frames w)(a := timeout)\<rparr>;
       let w = (if timeout > 0 then CreateTimer a w else w);
       w \<leftarrow> CoSwitch tk w;
       Some (True, w) } }"

text \<open>What \<open>Poll\<close> returns when the task runs again, from the timer it has left and \<open>revents\<close>.\<close>

definition Poll_return :: "bool \<Rightarrow> uint32 \<Rightarrow> errno \<Rightarrow> int \<times> errno" where
  "Poll_return timed_out re e =
     (if timed_out then (- 1, ETIME)
      else if re AND POLLNVAL \<noteq> 0 then (- 1, EBADF)
      else if re AND POLL_EXCEPTION \<noteq> 0 then (- 1, e)
      else (0, e))"

definition epoll_Poll_exit :: "addr \<Rightarrow> 'k epoll \<Rightarrow> int \<times> 'k epoll" where
  "epoll_Poll_exit a w =
     (let w = upd_nfd a (owner_update (\<lambda>_. None)) w;
          timed_out = (frames w a > 0 \<and> has_timer (nfd w a));
          (r, e) = Poll_return timed_out (of_short (revents (osfd (nfd w a)))) (err w);
          w = (if timed_out then upd_nfd a (has_timer_update (\<lambda>_. False)) w else w)
      in (r, w\<lparr>err := e\<rparr>))"

section \<open>The kernel's contract\<close>

text \<open>
  \<open>epoll_ctl\<close> adds a descriptor that is not registered, unless it fails for a reason of its own and changes
  nothing; adding a registered one fails. A registered one can be modified and deleted.
\<close>

definition epoll_law :: "'k epoll_ctl \<Rightarrow> ('k \<Rightarrow> int \<Rightarrow> uint32 option) \<Rightarrow> bool" where
  "epoll_law ctl interest \<longleftrightarrow> (\<forall>k f ev. case interest k f of
      None \<Rightarrow> interest (snd (ctl Ctl_Add f ev k)) = (if fst (ctl Ctl_Add f ev k) = None then (interest k)(f \<mapsto> ev) else interest k)
    | Some _ \<Rightarrow> fst (ctl Ctl_Add f ev k) = Some EEXIST \<and> interest (snd (ctl Ctl_Add f ev k)) = interest k
        \<and> fst (ctl Ctl_Mod f ev k) = None \<and> interest (snd (ctl Ctl_Mod f ev k)) = (interest k)(f \<mapsto> ev)
        \<and> fst (ctl Ctl_Del f ev k) = None \<and> interest (snd (ctl Ctl_Del f ev k)) = (interest k)(f := None))"

lemma epoll_law_absent:
  "epoll_law ctl interest \<Longrightarrow> interest k f = None \<Longrightarrow>
   interest (snd (ctl Ctl_Add f ev k)) = (if fst (ctl Ctl_Add f ev k) = None then (interest k)(f \<mapsto> ev) else interest k)"
  unfolding epoll_law_def by (drule spec [of _ k], drule spec [of _ f], drule spec [of _ ev]) simp

lemma epoll_law_present:
  "epoll_law ctl interest \<Longrightarrow> interest k f = Some e \<Longrightarrow>
   fst (ctl Ctl_Add f ev k) = Some EEXIST \<and> interest (snd (ctl Ctl_Add f ev k)) = interest k
   \<and> fst (ctl Ctl_Mod f ev k) = None \<and> interest (snd (ctl Ctl_Mod f ev k)) = (interest k)(f \<mapsto> ev)
   \<and> fst (ctl Ctl_Del f ev k) = None \<and> interest (snd (ctl Ctl_Del f ev k)) = (interest k)(f := None)"
  unfolding epoll_law_def by (drule spec [of _ k], drule spec [of _ f], drule spec [of _ ev]) simp

section \<open>The invariant\<close>

text \<open>
  Every \<open>NetFD\<close> in the map waits for events that \<open>Poll\<close> accepts, on a descriptor of its own that is registered
  with exactly these events, edge triggered. The counter counts the registered descriptors.
\<close>

definition map_ok :: "('k \<Rightarrow> int \<Rightarrow> uint32 option) \<Rightarrow> int \<Rightarrow> 'k epoll \<Rightarrow> bool" where
  "map_ok interest notify w \<longleftrightarrow> mm_sorted (fd_map w) \<and> distinct (map fst (fd_map w))
     \<and> (\<forall>(f, a) \<in> set (fd_map w). f = fd_of w a \<and> f \<noteq> notify \<and> events_of w a \<noteq> 0
          \<and> events_of w a AND NOT (POLLIN OR POLLOUT OR POLLPRI) = 0
          \<and> interest (kern w) f = Some (events_of w a OR EPOLLET))"

definition count_ok :: "('k \<Rightarrow> int \<Rightarrow> uint32 option) \<Rightarrow> int \<Rightarrow> 'k epoll \<Rightarrow> bool" where
  "count_ok interest notify w \<longleftrightarrow> finite (dom (interest (kern w))) \<and> interest (kern w) notify \<noteq> None
     \<and> evtlist_cnt w = int (card (dom (interest (kern w)) - {notify}))"

definition epoll_ok :: "('k \<Rightarrow> int \<Rightarrow> uint32 option) \<Rightarrow> int \<Rightarrow> 'k epoll \<Rightarrow> bool" where
  "epoll_ok interest notify w \<longleftrightarrow>
     map_ok interest notify w \<and> tasks_ok w \<and> timers_ok w \<and> count_ok interest notify w"

definition epoll_init :: "'k epoll_ctl \<Rightarrow> ('k \<Rightarrow> int \<Rightarrow> uint32 option) \<Rightarrow> int \<Rightarrow> 'k epoll \<Rightarrow> bool" where
  "epoll_init ctl interest notify w \<longleftrightarrow> (\<exists>w0 n. w = epoll_InitModule ctl notify n w0
     \<and> interest (kern w0) = (\<lambda>f. None) \<and> fst (ctl Ctl_Add notify (POLLIN OR EPOLLET) (kern w0)) = None
     \<and> fd_map w0 = [] \<and> evtlist_cnt w0 = 0 \<and> (\<forall>t. \<not> suspended w0 t) \<and> (\<forall>a. \<not> armed w0 a)
     \<and> (\<forall>a. owner (nfd w0 a) = None \<and> \<not> has_timer (nfd w0 a)))"

text \<open>
  A task that is in no \<open>Poll\<close> enters one; the kernel reports an event of a registered descriptor; a pending
  timer fires; a task that was woken leaves \<open>Poll\<close>; and the program changes a \<open>NetFD\<close> that is not waited for.
\<close>

inductive epoll_step :: "'k epoll_ctl \<Rightarrow> ('k \<Rightarrow> int \<Rightarrow> uint32 option) \<Rightarrow> int \<Rightarrow> int \<Rightarrow> 'k epoll \<Rightarrow> 'k epoll \<Rightarrow> bool"
  for ctl interest rlim notify where
  enter: "(\<And>b. owner (nfd w b) \<noteq> Some t) \<Longrightarrow> epoll_Poll_enter ctl rlim (Some t) a ev tmo w = Some (r, w') \<Longrightarrow>
    epoll_step ctl interest rlim notify w w'"
| event: "interest (kern w) f = Some ev \<Longrightarrow> come AND (ev OR POLL_EXCEPTION) \<noteq> 0 \<Longrightarrow> come AND EPOLLET = 0 \<Longrightarrow>
    handle_event ctl notify (f, come) w = Some w' \<Longrightarrow> epoll_step ctl interest rlim notify w w'"
| timeout: "armed w a \<Longrightarrow> epoll_timeout ctl a w = Some w' \<Longrightarrow> epoll_step ctl interest rlim notify w w'"
| exit: "owner (nfd w a) = Some t \<Longrightarrow> \<not> suspended w t \<Longrightarrow> w' = snd (epoll_Poll_exit a w) \<Longrightarrow>
    epoll_step ctl interest rlim notify w w'"
| change: "owner (nfd w a) = None \<Longrightarrow> owner x = None \<Longrightarrow> \<not> has_timer x \<Longrightarrow> w' = upd_nfd a (\<lambda>_. x) w \<Longrightarrow>
    epoll_step ctl interest rlim notify w w'"

section \<open>Unregistering\<close>

definition same_wait :: "'k epoll \<Rightarrow> 'k epoll \<Rightarrow> bool" where
  "same_wait w w' \<longleftrightarrow> nfd w' = nfd w \<and> fd_map w' = fd_map w \<and> suspended w' = suspended w \<and> armed w' = armed w \<and> frames w' = frames w"

lemma del_or_mod_ok:
  assumes law: "epoll_law ctl interest" and f: "interest (kern w) f = Some e"
  shows "\<exists>w'. del_or_mod ctl f d m w = Some w' \<and> same_wait w w'
    \<and> interest (kern w') = (interest (kern w))(f := if m = 0 then None else Some m)
    \<and> evtlist_cnt w' = evtlist_cnt w - (if m = 0 then 1 else 0)"
proof -
  note L = epoll_law_present [OF law f]
  obtain k1 k2 where "ctl Ctl_Del f d (kern w) = (None, k1)" "ctl Ctl_Mod f m (kern w) = (None, k2)"
    using L by (metis prod.collapse)
  with L [of d] L [of m] show ?thesis by (auto simp: del_or_mod_def call_ctl_def same_wait_def)
qed

lemma count_ok_del_or_mod:
  assumes ok: "count_ok interest notify w" and f: "interest (kern w) f = Some e" "f \<noteq> notify"
    and w': "interest (kern w') = (interest (kern w))(f := if m = 0 then None else Some m)"
      "evtlist_cnt w' = evtlist_cnt w - (if m = 0 then 1 else 0)"
  shows "count_ok interest notify w'"
proof (cases "m = 0")
  case True
  let ?D = "dom (interest (kern w)) - {notify}"
  have "f \<in> ?D" "finite ?D" using ok f by (auto simp: count_ok_def)
  moreover have "dom (interest (kern w')) - {notify} = ?D - {f}" using w' True by auto
  moreover have "0 < card ?D" using calculation by (auto simp: card_gt_0_iff)
  ultimately show ?thesis using ok w' True f by (auto simp: count_ok_def of_nat_diff)
next
  case False
  then have "dom (interest (kern w')) = dom (interest (kern w))" using w' f by auto
  then show ?thesis using ok w' False f by (auto simp: count_ok_def)
qed

lemma leaves_same_wait: "leaves a t w w1 \<Longrightarrow> same_wait w1 w' \<Longrightarrow> leaves a t w w'"
  by (auto simp: leaves_def same_wait_def fd_of_def events_of_def)

text \<open>A waiting \<open>NetFD\<close> leaves and its descriptor is dropped or modified.\<close>

lemma epoll_ok_leaves:
  assumes ok: "epoll_ok interest notify w" and a: "waits w a" "owner (nfd w a) = Some t" and l: "leaves a t w w'"
    and k: "interest (kern w') = (interest (kern w))(fd_of w a := if m = 0 then None else Some m)"
      "evtlist_cnt w' = evtlist_cnt w - (if m = 0 then 1 else 0)"
  shows "epoll_ok interest notify w'"
proof -
  let ?f = "fd_of w a"
  have f: "interest (kern w) ?f = Some (events_of w a OR EPOLLET)" "?f \<noteq> notify" and
    D: "mm_sorted (fd_map w)" "distinct (map fst (fd_map w))"
    using ok a by (auto simp: epoll_ok_def map_ok_def waits_def)
  have "count_ok interest notify w'" using ok by (intro count_ok_del_or_mod [OF _ f k]) (simp add: epoll_ok_def)
  moreover have "tasks_ok w'" using ok a by (auto simp: epoll_ok_def intro: tasks_ok_leaves [OF _ l])
  moreover have "timers_ok w'" using ok by (auto simp: epoll_ok_def intro: timers_ok_leaves [OF _ l])
  moreover have "map_ok interest notify w'"
  proof -
    have m: "fd_map w' = filter (\<lambda>x. x \<noteq> (?f, a)) (fd_map w)" and e: "\<And>b. fd_of w' b = fd_of w b" "\<And>b. events_of w' b = events_of w b"
      using l by (simp_all add: leaves_def)
    have "g \<noteq> ?f" if "(g, b) \<in> set (fd_map w')" for g b
      using that D(2) a(1) unfolding m waits_def by (auto dest: eq_key_imp_eq_value)
    then show ?thesis using ok D k(1) unfolding map_ok_def epoll_ok_def e
      by (auto simp: m mm_sorted_filter distinct_map inj_on_def)
  qed
  ultimately show ?thesis by (simp add: epoll_ok_def)
qed

section \<open>Events and timeouts\<close>

lemma waits_owner: "epoll_ok interest notify w \<Longrightarrow> waits w a \<Longrightarrow> \<exists>t. owner (nfd w a) = Some t \<and> suspended w t"
  by (simp add: epoll_ok_def tasks_ok_def)

lemma waits_registered:
  "epoll_ok interest notify w \<Longrightarrow> waits w a \<Longrightarrow>
   interest (kern w) (fd_of w a) = Some (events_of w a OR EPOLLET) \<and> fd_of w a \<noteq> notify \<and> same_fd (fd_of w a) w = [a]
   \<and> events_of w a \<noteq> 0 \<and> events_of w a AND NOT (POLLIN OR POLLOUT OR POLLPRI) = 0"
  using same_fd_single [of w a] by (auto simp: epoll_ok_def map_ok_def waits_def)

lemma epoll_upd_nfd_simps [simp]:
  "kern (upd_nfd a f w) = kern w" "evtlist_cnt (upd_nfd a f w) = evtlist_cnt w" "event_list_size (upd_nfd a f w) = event_list_size w"
  "kern (erase_nfd a w) = kern w" "evtlist_cnt (erase_nfd a w) = evtlist_cnt w" "event_list_size (erase_nfd a w) = event_list_size w"
  "kern (StopTimer a w) = kern w" "evtlist_cnt (StopTimer a w) = evtlist_cnt w" "event_list_size (StopTimer a w) = event_list_size w"
  by (simp_all add: upd_nfd_def erase_nfd_def StopTimer_def)

lemma handle_event_ok:
  assumes law: "epoll_law ctl interest" and ok: "epoll_ok interest notify w" and a: "waits w a" "owner (nfd w a) = Some t"
    and come: "wakes come (events_of w a)"
  defines "m \<equiv> events_of w a AND NOT come"
  shows "\<exists>w'. handle_event ctl notify (fd_of w a, come) w = Some w' \<and> epoll_ok interest notify w' \<and> leaves a t w w'
    \<and> interest (kern w') = (interest (kern w))(fd_of w a := if m = 0 then None else Some m)
    \<and> \<not> has_timer (nfd w' a)
    \<and> revents (osfd (nfd w' a)) = to_short ((events_of w a AND come) OR (come AND POLL_EXCEPTION))"
proof -
  note R = waits_registered [OF ok a(1)]
  let ?rv = "(events_of w a AND come) OR (come AND POLL_EXCEPTION)"
  define w2 where "w2 = (upd_nfd a (set_revents ?rv) w)\<lparr>suspended := (suspended w)(t := False)\<rparr>"
  define w1 where "w1 = StopTimer a (erase_nfd a w2)"
  have w2: "RemoveNetFD2TaskRunnable a (upd_nfd a (set_revents ?rv) w) = Some w2"
    using a(2) by (simp add: RemoveNetFD2TaskRunnable_def w2_def)
  have s2: "nfd w2 = (nfd w)(a := set_revents ?rv (nfd w a))" "fd_map w2 = fd_map w" "armed w2 = armed w" "frames w2 = frames w"
    "suspended w2 = (suspended w)(t := False)" "kern w2 = kern w" "evtlist_cnt w2 = evtlist_cnt w" by (simp_all add: w2_def)
  have fd2: "fd_of w2 b = fd_of w b" "events_of w2 b = events_of w b" for b by (simp_all add: fd_of_def events_of_def s2)
  have arm: "\<not> has_timer (nfd w a) \<Longrightarrow> \<not> armed w a" using ok by (simp add: epoll_ok_def timers_ok_def)
  have l1: "leaves a t w w1"
    using arm by (auto simp: leaves_def w1_def s2 fd2 fd_of_def events_of_def fun_eq_iff)
  have k1: "kern w1 = kern w" "evtlist_cnt w1 = evtlist_cnt w" by (simp_all add: w1_def s2)
  have "interest (kern w1) (fd_of w a) = Some (events_of w a OR EPOLLET)" using R k1 by simp
  from del_or_mod_ok [OF law this, of m m] obtain w' where
    w': "del_or_mod ctl (fd_of w a) m m w1 = Some w'" "same_wait w1 w'"
      "interest (kern w') = (interest (kern w))(fd_of w a := if m = 0 then None else Some m)"
      "evtlist_cnt w' = evtlist_cnt w - (if m = 0 then 1 else 0)" unfolding k1 by metis
  have l': "leaves a t w w'" by (rule leaves_same_wait [OF l1 w'(2)])
  have "handle_event ctl notify (fd_of w a, come) w = Some w'"
    using R come w2 w'(1) by (simp add: handle_event_def Let_def w1_def m_def)
  moreover have "epoll_ok interest notify w'" by (rule epoll_ok_leaves [OF ok a l' w'(3,4)])
  moreover have "nfd w' a = (set_revents ?rv (nfd w a))\<lparr>has_timer := False\<rparr>" using w'(2) by (simp add: same_wait_def w1_def s2)
  ultimately show ?thesis using l' w'(3) by auto
qed

lemma epoll_timeout_ok:
  assumes law: "epoll_law ctl interest" and ok: "epoll_ok interest notify w" and a: "armed w a" "owner (nfd w a) = Some t"
  shows "\<exists>w'. epoll_timeout ctl a w = Some w' \<and> epoll_ok interest notify w' \<and> leaves a t w w'
    \<and> interest (kern w') = (interest (kern w))(fd_of w a := None) \<and> nfd w' = nfd w \<and> frames w' = frames w"
proof -
  have wa: "waits w a" using ok a by (simp add: epoll_ok_def timers_ok_def)
  note R = waits_registered [OF ok wa]
  define w1 where "w1 = erase_nfd a (w\<lparr>armed := (armed w)(a := False)\<rparr>)"
  have s1: "nfd w1 = nfd w" "suspended w1 = suspended w" "armed w1 = (armed w)(a := False)" "frames w1 = frames w" "kern w1 = kern w"
    "evtlist_cnt w1 = evtlist_cnt w" "fd_map w1 = filter (\<lambda>x. x \<noteq> (fd_of w a, a)) (fd_map w)" by (simp_all add: w1_def fd_of_def)
  have sc: "timeout_scan a (same_fd (fd_of w a) w) (w\<lparr>armed := (armed w)(a := False)\<rparr>, 0) = (w1, 0)"
    using R by (simp add: w1_def)
  have "interest (kern w1) (fd_of w a) = Some (events_of w a OR EPOLLET)" using R s1 by simp
  from del_or_mod_ok [OF law this, of "events_of w a" 0] obtain w2 where
    w2: "del_or_mod ctl (fd_of w a) (events_of w a) 0 w1 = Some w2" "same_wait w1 w2"
      "interest (kern w2) = (interest (kern w))(fd_of w a := None)" "evtlist_cnt w2 = evtlist_cnt w - 1" unfolding s1 by auto
  define w' where "w' = w2\<lparr>suspended := (suspended w)(t := False)\<rparr>"
  have n: "nfd w2 = nfd w" "suspended w2 = suspended w" using w2(2) s1 by (simp_all add: same_wait_def)
  have n1: "fd_of w1 = fd_of w" "events_of w1 = events_of w" using s1 by (auto simp: fd_of_def events_of_def)
  have "epoll_timeout ctl a w = Some w'"
    using R sc w2(1) a(2) n s1
    by (simp add: epoll_timeout_def epoll_PollsetTimeoutDel_def Let_def RemoveNetFD2TaskRunnable_def w'_def n1 del: timeout_scan.simps)
  moreover have l: "leaves a t w w'"
    using w2(2) s1 by (auto simp: leaves_def w'_def same_wait_def fd_of_def events_of_def)
  moreover have "epoll_ok interest notify w'"
    by (rule epoll_ok_leaves [OF ok wa a(2) l, of 0]) (simp_all add: w'_def w2)
  ultimately show ?thesis using w2 s1 by (auto simp: w'_def same_wait_def)
qed

section \<open>Entering and leaving Poll\<close>

lemma PollsetAddHelp_ok:
  assumes law: "epoll_law ctl interest" and r: "PollsetAddHelp ctl rlim a ev w = (ok, w')"
  shows "nfd w' = (nfd w)(a := set_events ev (nfd w a)) \<and> fd_map w' = fd_map w \<and> suspended w' = suspended w
    \<and> armed w' = armed w \<and> frames w' = frames w
    \<and> (if ok then interest (kern w) (fd_of w a) = None \<and> interest (kern w') = (interest (kern w))(fd_of w a \<mapsto> ev)
         \<and> evtlist_cnt w' = evtlist_cnt w + 1
       else interest (kern w') = interest (kern w) \<and> evtlist_cnt w' = evtlist_cnt w)"
proof -
  let ?c = "ctl Ctl_Add (fd_of w a) ev (kern w)"
  have f: "fd_of (upd_nfd a (set_events ev) w) a = fd_of w a" by (simp add: fd_of_def)
  have present: "interest (kern w) (fd_of w a) = Some e \<Longrightarrow> fst ?c = Some EEXIST \<and> interest (snd ?c) = interest (kern w)" for e
    using epoll_law_present [OF law] by blast
  have absent: "interest (kern w) (fd_of w a) = None \<Longrightarrow>
      interest (snd ?c) = (if fst ?c = None then (interest (kern w))(fd_of w a \<mapsto> ev) else interest (kern w))"
    by (rule epoll_law_absent [OF law])
  show ?thesis using r present absent
    by (cases "interest (kern w) (fd_of w a)"; cases ?c; cases "fst ?c")
      (auto simp: PollsetAddHelp_def call_ctl_def f Let_def split: if_splits)
qed

lemma old_events_mask:
  "(\<forall>b\<in>set bs. events_of w b AND k = 0) \<Longrightarrow> old_events w bs m AND k = m AND k"
proof (induction bs arbitrary: m)
  case (Cons b bs)
  then have "old_events w bs (m OR events_of w b) AND k = (m OR events_of w b) AND k" by simp
  also have "\<dots> = m AND k" using Cons.prems by (simp add: bit.conj_disj_distrib2)
  finally show ?case by simp
qed simp

lemma in_same_fd: "b \<in> set (same_fd f w) \<longleftrightarrow> (f, b) \<in> set (fd_map w)"
  by (force simp: same_fd_def)

text \<open>Modifying the events of a shared descriptor runs into the assertion that they are positive.\<close>

lemma PollsetModify_negative: "PollsetModify ctl f (x OR EPOLLET) w = None"
proof -
  have "bit (x OR EPOLLET) 31" by (simp add: bit_or_iff bit_EPOLLET)
  then have "sint (x OR EPOLLET) < 0" using bit_last_iff [of "x OR EPOLLET"] by simp
  then show ?thesis by (simp add: PollsetModify_def)
qed

lemma PollsetAdd_second_sharer:
  assumes m: "map_ok interest notify w" and a: "\<not> waits w a" "is_shared (nfd w a)" "same_fd (fd_of w a) w \<noteq> []"
    and ev: "\<not> fd_of w a < 0" "ev \<noteq> 0" "ev AND NOT (POLLIN OR POLLOUT OR POLLPRI) = 0"
  shows "epoll_PollsetAdd ctl rlim a ev w = None"
proof -
  let ?w = "upd_nfd a (set_events (ev OR EPOLLET)) w"
  let ?old = "old_events ?w (same_fd (fd_of w a) w) 0"
  have f: "fd_of ?w a = fd_of w a" "same_fd (fd_of w a) ?w = same_fd (fd_of w a) w" by (simp_all add: fd_of_def same_fd_def)
  have "events_of ?w b AND EPOLLET = 0" if b: "b \<in> set (same_fd (fd_of w a) w)" for b
  proof -
    have m': "(fd_of w a, b) \<in> set (fd_map w)" "fd_of w b = fd_of w a" using b m by (auto simp: in_same_fd map_ok_def)
    then have "b \<noteq> a" using a by (auto simp: waits_def)
    have "events_of w b AND NOT (POLLIN OR POLLOUT OR POLLPRI) = 0" using m m' by (auto simp: map_ok_def)
    then have "(events_of w b AND NOT (POLLIN OR POLLOUT OR POLLPRI)) AND EPOLLET = 0" by simp
    moreover have "NOT (POLLIN OR POLLOUT OR POLLPRI) AND EPOLLET = EPOLLET" by (simp add: EPOLLET_def)
    ultimately show ?thesis using \<open>b \<noteq> a\<close> by (simp add: and.assoc events_of_def)
  qed
  then have "?old AND EPOLLET = 0" using old_events_mask [of "same_fd (fd_of w a) w" ?w EPOLLET 0] by simp
  moreover have "(ev OR EPOLLET) AND EPOLLET \<noteq> 0" by (simp add: bit.conj_disj_distrib2 EPOLLET_def)
  ultimately have "?old \<noteq> ev OR EPOLLET" by auto
  moreover have "PollsetModify ctl (fd_of w a) (?old OR (ev OR EPOLLET)) ?w = None"
    using PollsetModify_negative [of ctl _ "?old OR ev"] by (simp add: or.assoc)
  ultimately show ?thesis using a ev f by (simp add: epoll_PollsetAdd_def Let_def)
qed

text \<open>A \<open>Poll\<close> that returns at once changed at most the events of its own \<open>NetFD\<close>.\<close>

lemma epoll_ok_own:
  assumes ok: "epoll_ok interest notify w" and a: "owner (nfd w a) = None"
    and w': "\<And>b. b \<noteq> a \<Longrightarrow> nfd w' b = nfd w b" "owner (nfd w' a) = None" "\<not> has_timer (nfd w' a)"
      "fd_map w' = fd_map w" "suspended w' = suspended w" "armed w' = armed w" "frames w' = frames w"
      "interest (kern w') = interest (kern w)" "evtlist_cnt w' = evtlist_cnt w"
  shows "epoll_ok interest notify w'"
proof -
  have na: "(f, a) \<notin> set (fd_map w)" for f
    using ok a by (auto simp: epoll_ok_def map_ok_def tasks_ok_def waits_def)
  have same: "b \<noteq> a \<Longrightarrow> fd_of w' b = fd_of w b" "b \<noteq> a \<Longrightarrow> events_of w' b = events_of w b" for b
    using w'(1) by (simp_all add: fd_of_def events_of_def)
  have wt: "waits w' b \<longleftrightarrow> waits w b" for b using na same by (cases "b = a") (auto simp: waits_def w')
  have o: "owner (nfd w' b) = owner (nfd w b)" for b using w' a by (cases "b = a") auto
  have nt: "\<not> has_timer (nfd w a)" using ok a by (auto simp: epoll_ok_def timers_ok_def)
  have t: "has_timer (nfd w' b) = has_timer (nfd w b)" for b using w' nt by (cases "b = a") auto
  have "map_ok interest notify w'" using ok na same unfolding epoll_ok_def map_ok_def w' by fastforce
  moreover have "tasks_ok w'" using ok o w' wt by (auto simp: epoll_ok_def intro: tasks_ok_same)
  moreover have "timers_ok w'" using ok o t w' wt by (auto simp: epoll_ok_def intro: timers_ok_same)
  moreover have "count_ok interest notify w'" using ok w' by (simp add: epoll_ok_def count_ok_def)
  ultimately show ?thesis by (simp add: epoll_ok_def)
qed

lemma CreateTimer_simps [simp]:
  "nfd (CreateTimer a w) = (nfd w)(a := (nfd w a)\<lparr>has_timer := True\<rparr>)" "fd_map (CreateTimer a w) = fd_map w"
  "suspended (CreateTimer a w) = suspended w" "armed (CreateTimer a w) = (armed w)(a := True)" "frames (CreateTimer a w) = frames w"
  by (simp_all add: CreateTimer_def)

lemma CreateTimer_epoll [simp]: "kern (CreateTimer a w) = kern w" "evtlist_cnt (CreateTimer a w) = evtlist_cnt w"
  by (simp_all add: CreateTimer_def upd_nfd_def)

text \<open>The state in which a registered \<open>Poll\<close> leaves the processor.\<close>

definition joined :: "addr \<Rightarrow> addr \<Rightarrow> uint32 \<Rightarrow> int \<Rightarrow> 'k epoll \<Rightarrow> 'k epoll \<Rightarrow> bool" where
  "joined t a ev tmo w w' \<longleftrightarrow>
     (\<forall>b. nfd w' b = (if b = a then (set_events (ev OR EPOLLET) (nfd w a))\<lparr>owner := Some t, has_timer := has_timer (nfd w a) \<or> tmo > 0\<rparr>
        else nfd w b))
     \<and> fd_map w' = mm_insert (fd_of w a) a (fd_map w) \<and> suspended w' = (suspended w)(t := True)
     \<and> frames w' = (frames w)(a := tmo) \<and> armed w' = (if tmo > 0 then (armed w)(a := True) else armed w)"

lemma epoll_ok_joined:
  assumes ok: "epoll_ok interest notify w" and a: "owner (nfd w a) = None" and t: "\<And>b. owner (nfd w b) \<noteq> Some t"
    and ev: "ev \<noteq> 0" "ev AND NOT (POLLIN OR POLLOUT OR POLLPRI) = 0"
    and j: "joined t a ev tmo w w'" and i: "interest (kern w) (fd_of w a) = None"
      "interest (kern w') = (interest (kern w))(fd_of w a \<mapsto> ev OR EPOLLET)" "evtlist_cnt w' = evtlist_cnt w + 1"
  shows "epoll_ok interest notify w'"
proof -
  let ?f = "fd_of w a"
  have n: "nfd w' b = (if b = a then (set_events (ev OR EPOLLET) (nfd w a))\<lparr>owner := Some t, has_timer := has_timer (nfd w a) \<or> tmo > 0\<rparr> else nfd w b)" for b
    using j by (simp add: joined_def)
  have m: "fd_map w' = mm_insert ?f a (fd_map w)" and s: "suspended w' = (suspended w)(t := True)"
    and fr: "frames w' = (frames w)(a := tmo)" and ar: "armed w' = (if tmo > 0 then (armed w)(a := True) else armed w)"
    using j by (simp_all add: joined_def)
  have na: "(g, a) \<notin> set (fd_map w)" for g
    using ok a by (auto simp: epoll_ok_def map_ok_def tasks_ok_def waits_def)
  have nf: "(?f, b) \<notin> set (fd_map w)" for b using ok i(1) by (auto simp: epoll_ok_def map_ok_def)
  have fd': "fd_of w' b = fd_of w b" and ev': "events_of w' b = (if b = a then ev else events_of w b)" for b
    using short_bits(2) [OF ev(2)] by (simp_all add: fd_of_def events_of_def n)
  have wt: "waits w' b \<longleftrightarrow> waits w b \<or> b = a" for b by (auto simp: waits_def fd' m)
  have nt: "\<not> has_timer (nfd w a)" "\<not> armed w a" using ok a by (auto simp: epoll_ok_def timers_ok_def)
  have nn: "?f \<noteq> notify" using ok i(1) by (auto simp: epoll_ok_def count_ok_def)
  have "distinct (map fst (mm_insert ?f a xs))" if "distinct (map fst xs)" "?f \<notin> fst ` set xs" for xs
    using that by (induction xs) auto
  then have "distinct (map fst (fd_map w'))" using ok nf by (force simp: epoll_ok_def map_ok_def m)
  then have "map_ok interest notify w'"
    using ok ev nn nf na unfolding epoll_ok_def map_ok_def i(2) fd' ev' by (auto simp: m)
  moreover have "tasks_ok w'"
    using ok by (intro tasks_ok_joins [OF _ a t _ s wt]) (auto simp: n epoll_ok_def)
  moreover have "timers_ok w'"
  proof -
    have T: "has_timer (nfd w' b) = (if b = a then tmo > 0 else has_timer (nfd w b))"
      "owner (nfd w' b) = (if b = a then Some t else owner (nfd w b))"
      "frames w' b = (if b = a then tmo else frames w b)" "armed w' b = (if b = a then tmo > 0 else armed w b)" for b
      using nt by (auto simp: n fr ar)
    have "timers_ok w" using ok by (simp add: epoll_ok_def)
    then show ?thesis unfolding timers_ok_def wt T by simp
  qed
  moreover have "count_ok interest notify w'"
  proof -
    define D where "D = dom (interest (kern w)) - {notify}"
    have C: "finite (dom (interest (kern w)))" "interest (kern w) notify \<noteq> None" "evtlist_cnt w = int (card D)"
      using ok by (simp_all add: epoll_ok_def count_ok_def D_def)
    have "dom (interest (kern w')) - {notify} = insert ?f D" using nn i(2) by (auto simp: D_def)
    moreover have "?f \<notin> D" "finite D" using i(1) C(1) by (auto simp: D_def)
    moreover have "finite (dom (interest (kern w')))" "interest (kern w') notify \<noteq> None" using C nn by (simp_all add: i(2))
    ultimately show ?thesis using C(3) i(3) by (simp add: count_ok_def)
  qed
  ultimately show ?thesis by (simp add: epoll_ok_def)
qed

lemma epoll_Poll_enter_ok:
  assumes law: "epoll_law ctl interest" and ok: "epoll_ok interest notify w" and t: "\<And>b. owner (nfd w b) \<noteq> Some t"
    and e: "epoll_Poll_enter ctl rlim (Some t) a ev tmo w = Some (r, w')"
  shows "epoll_ok interest notify w' \<and> (r \<longrightarrow> joined t a ev tmo w w' \<and> interest (kern w') = (interest (kern w))(fd_of w a \<mapsto> ev OR EPOLLET))
    \<and> (\<not> r \<longrightarrow> fd_map w' = fd_map w \<and> suspended w' = suspended w \<and> interest (kern w') = interest (kern w))"
proof -
  obtain ok1 w1 where a: "owner (nfd w a) = None" and 1: "epoll_PollsetAdd ctl rlim a ev w = Some (ok1, w1)"
    using e by (auto simp: epoll_Poll_enter_def CheckRepeatNetFD_def split: Option.bind_splits)
  have na: "\<not> waits w a" using ok a by (auto simp: epoll_ok_def tasks_ok_def)
  have nt: "\<not> has_timer (nfd w a)" using ok a by (auto simp: epoll_ok_def timers_ok_def)
  show ?thesis
  proof (cases "fd_of w a < 0 \<or> ev = 0 \<or> ev AND NOT (POLLIN OR POLLOUT OR POLLPRI) \<noteq> 0")
    case True
    then have "w1 = w\<lparr>err := EINVAL\<rparr>" "\<not> ok1" using 1 by (auto simp: epoll_PollsetAdd_def)
    then have w': "w' = w\<lparr>err := EINVAL\<rparr>" "\<not> r" using e a 1 by (auto simp: epoll_Poll_enter_def CheckRepeatNetFD_def)
    have "epoll_ok interest notify w'" by (rule epoll_ok_own [OF ok a]) (use w' a nt in simp_all)
    then show ?thesis using w' by simp
  next
    case False
    have "map_ok interest notify w" using ok by (simp add: epoll_ok_def)
    then have "\<not> is_shared (nfd w a) \<or> same_fd (fd_of w a) w = []"
      using PollsetAdd_second_sharer [of interest notify w a ev ctl rlim] na False 1 by auto
    then have 2: "PollsetAddHelp ctl rlim a (ev OR EPOLLET) w = (ok1, w1)" using 1 False by (auto simp: epoll_PollsetAdd_def Let_def)
    note H = PollsetAddHelp_ok [OF law 2]
    show ?thesis
    proof (cases ok1)
      case False
      then have w': "w' = w1" "\<not> r" using e a 1 by (auto simp: epoll_Poll_enter_def CheckRepeatNetFD_def)
      have "epoll_ok interest notify w1" by (rule epoll_ok_own [OF ok a]) (use H False a nt in simp_all)
      then show ?thesis using w' H False by simp
    next
      case True
      have f1: "fd_of (upd_nfd a (owner_update (\<lambda>_. Some t)) w1) a = fd_of w a" using H by (simp add: fd_of_def)
      have r: r and j: "joined t a ev tmo w w'" and k: "kern w' = kern w1" "evtlist_cnt w' = evtlist_cnt w1"
        using e a 1 H True f1 nt
        by (auto simp: epoll_Poll_enter_def CheckRepeatNetFD_def CoSwitch_def Let_def joined_def split: Option.bind_splits if_splits)
      have "epoll_ok interest notify w'"
        by (rule epoll_ok_joined [OF ok a t _ _ j]) (use H True False k in auto)
      then show ?thesis using r j H True k by simp
    qed
  qed
qed

lemma epoll_Poll_exit_ok:
  assumes ok: "epoll_ok interest notify w" and a: "owner (nfd w a) = Some t" "\<not> suspended w t"
  shows "epoll_ok interest notify (snd (epoll_Poll_exit a w)) \<and> \<not> has_timer (nfd (snd (epoll_Poll_exit a w)) a)"
proof -
  define w' where "w' = snd (epoll_Poll_exit a w)"
  have na: "\<not> waits w a" using ok a by (auto simp: epoll_ok_def tasks_ok_def)
  have tm: "has_timer (nfd w a) \<Longrightarrow> 0 < frames w a" using ok by (simp add: epoll_ok_def timers_ok_def)
  have n: "nfd w' b = (if b = a then (nfd w a)\<lparr>owner := None, has_timer := False\<rparr> else nfd w b)" for b
    using tm by (cases "nfd w a") (auto simp: w'_def epoll_Poll_exit_def Let_def split_def)
  have rest: "fd_map w' = fd_map w" "suspended w' = suspended w" "armed w' = armed w" "frames w' = frames w" "kern w' = kern w"
    "evtlist_cnt w' = evtlist_cnt w"
    by (simp_all add: w'_def epoll_Poll_exit_def Let_def split_def)
  have fd': "fd_of w' b = fd_of w b" "events_of w' b = events_of w b" for b by (simp_all add: fd_of_def events_of_def n)
  have wt: "waits w' b \<longleftrightarrow> waits w b" for b by (simp add: waits_def fd' rest)
  have "map_ok interest notify w'" using ok by (simp add: epoll_ok_def map_ok_def fd' rest)
  moreover have "tasks_ok w'" using ok by (intro tasks_ok_exits [OF _ a _ rest(2) wt]) (auto simp: epoll_ok_def n)
  moreover have "timers_ok w'"
  proof -
    have T: "has_timer (nfd w' b) = (b \<noteq> a \<and> has_timer (nfd w b))"
      "owner (nfd w' b) = (if b = a then None else owner (nfd w b))" for b by (simp_all add: n)
    have "timers_ok w" using ok by (simp add: epoll_ok_def)
    then show ?thesis unfolding timers_ok_def wt T rest using na by auto
  qed
  moreover have "count_ok interest notify w'" using ok by (simp add: epoll_ok_def count_ok_def rest)
  ultimately show ?thesis by (simp add: epoll_ok_def n flip: w'_def)
qed

lemma epoll_ok_init: "epoll_law ctl interest \<Longrightarrow> epoll_init ctl interest notify w \<Longrightarrow> epoll_ok interest notify w"
proof -
  assume law: "epoll_law ctl interest" and i: "epoll_init ctl interest notify w"
  then obtain w0 n where w: "w = epoll_InitModule ctl notify n w0" and w0: "interest (kern w0) = (\<lambda>f. None)"
    "fst (ctl Ctl_Add notify (POLLIN OR EPOLLET) (kern w0)) = None" "fd_map w0 = []" "evtlist_cnt w0 = 0"
    "\<And>t. \<not> suspended w0 t" "\<And>a. \<not> armed w0 a" "\<And>a. owner (nfd w0 a) = None" "\<And>a. \<not> has_timer (nfd w0 a)"
    by (auto simp: epoll_init_def)
  obtain k where k: "ctl Ctl_Add notify (POLLIN OR EPOLLET) (kern w0) = (None, k)" using w0(2) by (cases "ctl Ctl_Add notify (POLLIN OR EPOLLET) (kern w0)") auto
  have "interest k = [notify \<mapsto> POLLIN OR EPOLLET]"
    using epoll_law_absent [OF law, of "kern w0" notify "POLLIN OR EPOLLET"] w0(1) k by simp
  moreover have "w = w0\<lparr>event_list_size := n, kern := k\<rparr>"
    using w k by (simp add: epoll_InitModule_def PollInterrupter_def call_ctl_def)
  ultimately show ?thesis using w0
    by (auto simp: epoll_ok_def map_ok_def tasks_ok_def timers_ok_def count_ok_def waits_def split: if_splits)
qed

lemma come_wakes:
  "come AND ((e OR EPOLLET) OR POLL_EXCEPTION) \<noteq> 0 \<Longrightarrow> come AND EPOLLET = 0 \<Longrightarrow> wakes come e"
  by (auto simp: wakes_def bit.conj_disj_distrib)

lemma epoll_ok_step:
  assumes law: "epoll_law ctl interest" and ok: "epoll_ok interest notify w" and st: "epoll_step ctl interest rlim notify w w'"
  shows "epoll_ok interest notify w'"
  using st
proof cases
  case (enter t a ev tmo r)
  then show ?thesis using epoll_Poll_enter_ok [OF law ok] by blast
next
  case (event f ev come)
  show ?thesis
  proof (cases "f = notify")
    case False
    then have "same_fd f w \<noteq> []" using event(4) by (auto simp: handle_event_def split: Option.bind_splits)
    then obtain a where "(f, a) \<in> set (fd_map w)" using in_same_fd [of _ f w] by (cases "same_fd f w") auto
    then have a: "waits w a" "f = fd_of w a" using ok by (auto simp: epoll_ok_def map_ok_def waits_def)
    obtain t where t: "owner (nfd w a) = Some t" using waits_owner [OF ok a(1)] by blast
    have "wakes come (events_of w a)"
      by (rule come_wakes) (use event waits_registered [OF ok a(1)] a(2) in auto)
    from handle_event_ok [OF law ok a(1) t this] event(4) a(2) show ?thesis by auto
  qed (use event ok in \<open>auto simp: handle_event_def\<close>)
next
  case (timeout a)
  then obtain t where "owner (nfd w a) = Some t" using ok by (auto simp: epoll_ok_def timers_ok_def)
  from epoll_timeout_ok [OF law ok timeout(1) this] timeout(2) show ?thesis by auto
next
  case (exit a t)
  then show ?thesis using epoll_Poll_exit_ok [OF ok] by blast
next
  case (change a x)
  show ?thesis by (rule epoll_ok_own [OF ok change(1)]) (use change in simp_all)
qed

interpretation epoll: invariant_system
  "\<lambda>w. epoll_law ctl interest \<and> epoll_init ctl interest notify w" "epoll_step ctl interest rlim notify"
  "\<lambda>w. epoll_law ctl interest \<and> epoll_ok interest notify w" for ctl interest rlim notify
  by unfold_locales (auto intro: epoll_ok_init epoll_ok_step)

section \<open>What Poll returns\<close>

lemma short_bits_15:
  assumes "e AND NOT 0x7FFF = 0"
  shows "of_short (to_short e) = e"
proof -
  have b: "bit e n \<Longrightarrow> n < 15" for n
  proof -
    assume n: "bit e n"
    have m: "(0x7FFF :: uint32) = mask 15" by (simp add: mask_eq_exp_minus_1)
    have "\<not> bit (NOT (mask 15 :: uint32)) n" using n assms unfolding m by (metis bit_0_eq bit_and_iff bot_apply bot_bool_def)
    then show "n < 15" using bit_imp_le_length [OF n] by (auto simp: bit_simps)
  qed
  have "bit (of_short (to_short e)) n = bit e n" if "n < 32" for n
    using b [of n] b [of 15] that by (cases "n < 15") (auto simp: of_short_def to_short_def bit_simps min_def)
  then show ?thesis by (intro bit_word_eqI) simp
qed

lemma and_submask: "x AND m = 0 \<Longrightarrow> m AND k = k \<Longrightarrow> x AND k = (0 :: uint32)"
  by (metis and.assoc zero_and_eq)

lemma and_or_submask:
  assumes "ev AND m = 0" "m AND k = k"
  shows "((ev AND come) OR (come AND y)) AND k = come AND (y AND k :: uint32)"
proof -
  have "(ev AND come) AND k = (ev AND k) AND come" by (simp add: ac_simps)
  also have "\<dots> = 0" using and_submask [OF assms] by simp
  finally show ?thesis by (simp add: bit.conj_disj_distrib2 and.assoc)
qed

lemma revents_kept:
  assumes "ev AND NOT (POLLIN OR POLLOUT OR POLLPRI) = 0"
  shows "of_short (to_short ((ev AND come) OR (come AND POLL_EXCEPTION))) = (ev AND come) OR (come AND POLL_EXCEPTION)"
proof (rule short_bits_15)
  have 1: "NOT (POLLIN OR POLLOUT OR POLLPRI) AND NOT 0x7FFF = NOT (0x7FFF :: uint32)" "POLL_EXCEPTION AND NOT 0x7FFF = 0"
    by (simp_all add: POLL_EXCEPTION_def)
  show "((ev AND come) OR (come AND POLL_EXCEPTION)) AND NOT 0x7FFF = 0"
    unfolding and_or_submask [OF assms 1(1)] 1(2) by simp
qed

lemma exit_after_event:
  assumes "events_of w a AND NOT (POLLIN OR POLLOUT OR POLLPRI) = 0" "\<not> has_timer (nfd w' a)"
    "revents (osfd (nfd w' a)) = to_short ((events_of w a AND come) OR (come AND POLL_EXCEPTION))"
  shows "fst (epoll_Poll_exit a w') = (if come AND POLL_EXCEPTION = 0 then 0 else - 1)"
proof -
  let ?re = "(events_of w a AND come) OR (come AND POLL_EXCEPTION)"
  have 1: "NOT (POLLIN OR POLLOUT OR POLLPRI) AND POLL_EXCEPTION = POLL_EXCEPTION" "POLL_EXCEPTION AND POLLNVAL = POLLNVAL"
    by (simp_all add: POLL_EXCEPTION_def)
  have "?re AND POLL_EXCEPTION = come AND POLL_EXCEPTION" unfolding and_or_submask [OF assms(1) 1(1)] by simp
  moreover have "x AND POLL_EXCEPTION = 0 \<Longrightarrow> x AND POLLNVAL = 0" for x by (rule and_submask [OF _ 1(2)])
  ultimately have "(?re AND POLLNVAL \<noteq> 0 \<or> ?re AND POLL_EXCEPTION \<noteq> 0) \<longleftrightarrow> come AND POLL_EXCEPTION \<noteq> 0" by metis
  then have "fst (Poll_return False ?re e) = (if come AND POLL_EXCEPTION = 0 then 0 else - 1)" for e
    by (auto simp: Poll_return_def)
  then show ?thesis using assms(2) revents_kept [OF assms(1), of come]
    by (simp add: epoll_Poll_exit_def Let_def split_def assms(3))
qed

section \<open>Properties\<close>

text \<open>
  C2: No waiting task is forgotten: in every state the epoll model can reach, a suspended task owns a \<open>NetFD\<close> in
  the map whose descriptor is registered with the kernel for the events the task asked for. Any of these
  events, or an exception, wakes it (\<open>Poll\<close> then returns 0, or -1 after an exception); if it has a deadline,
  the timer wakes it, unregisters the descriptor and \<open>Poll\<close> returns -1 with \<open>ETIME\<close>.
\<close>

theorem epoll_no_forgotten_waiter:
  assumes law: "epoll_law ctl interest" and i: "epoll_init ctl interest notify w0"
    and r: "(epoll_step ctl interest rlim notify)\<^sup>*\<^sup>* w0 w" and t: "suspended w t"
  shows "\<exists>a. owner (nfd w a) = Some t \<and> interest (kern w) (fd_of w a) = Some (events_of w a OR EPOLLET)
    \<and> (\<forall>come. wakes come (events_of w a) \<longrightarrow> (\<exists>w'. handle_event ctl notify (fd_of w a, come) w = Some w'
        \<and> \<not> suspended w' t \<and> fst (epoll_Poll_exit a w') = (if come AND POLL_EXCEPTION = 0 then 0 else - 1)))
    \<and> (0 < frames w a \<and> has_timer (nfd w a) \<longrightarrow> (\<exists>w'. epoll_timeout ctl a w = Some w' \<and> \<not> suspended w' t
        \<and> interest (kern w') (fd_of w a) = None \<and> fst (epoll_Poll_exit a w') = - 1 \<and> err (snd (epoll_Poll_exit a w')) = ETIME))"
proof -
  have ok: "epoll_ok interest notify w" using epoll.inv_reachable [OF conjI [OF law i] r] by simp
  then obtain a where a: "owner (nfd w a) = Some t" "waits w a" using t by (auto simp: epoll_ok_def tasks_ok_def)
  note R = waits_registered [OF ok a(2)]
  have "\<exists>w'. handle_event ctl notify (fd_of w a, come) w = Some w' \<and> \<not> suspended w' t
      \<and> fst (epoll_Poll_exit a w') = (if come AND POLL_EXCEPTION = 0 then 0 else - 1)" if "wakes come (events_of w a)" for come
    using handle_event_ok [OF law ok a(2,1) that] R exit_after_event [of w a _ come] by (auto simp: leaves_def)
  moreover have "\<exists>w'. epoll_timeout ctl a w = Some w' \<and> \<not> suspended w' t \<and> interest (kern w') (fd_of w a) = None
      \<and> fst (epoll_Poll_exit a w') = - 1 \<and> err (snd (epoll_Poll_exit a w')) = ETIME" if h: "0 < frames w a" "has_timer (nfd w a)"
  proof -
    have "armed w a" using ok h a by (simp add: epoll_ok_def timers_ok_def)
    from epoll_timeout_ok [OF law ok this a(1)] obtain w' where
      "epoll_timeout ctl a w = Some w'" "leaves a t w w'" "interest (kern w') = (interest (kern w))(fd_of w a := None)"
      "nfd w' = nfd w" "frames w' = frames w" by blast
    then show ?thesis using h by (auto simp: leaves_def epoll_Poll_exit_def Poll_return_def Let_def)
  qed
  ultimately show ?thesis using a R by blast
qed

text \<open>A kernel that keeps the set of registered descriptors, and a task that waits on descriptor 7 for 100 ms.\<close>

fun demo_ctl :: "(int \<Rightarrow> uint32 option) epoll_ctl" where
  "demo_ctl Ctl_Add f ev k = (case k f of None \<Rightarrow> (None, k(f \<mapsto> ev)) | Some _ \<Rightarrow> (Some EEXIST, k))"
| "demo_ctl Ctl_Mod f ev k = (case k f of None \<Rightarrow> (Some ENOENT, k) | Some _ \<Rightarrow> (None, k(f \<mapsto> ev)))"
| "demo_ctl Ctl_Del f ev k = (case k f of None \<Rightarrow> (Some ENOENT, k) | Some _ \<Rightarrow> (None, k(f := None)))"

lemma demo_law: "epoll_law demo_ctl (\<lambda>k. k)"
  by (auto simp: epoll_law_def split: option.splits)

definition demo_nfd :: netfd where
  "demo_nfd = \<lparr>osfd = \<lparr>fd = 7, events = 0, revents = 0\<rparr>, owner = None, has_timer = False, share_fd = Some 0\<rparr>"

definition demo_start :: "(int \<Rightarrow> uint32 option) epoll" where
  "demo_start = \<lparr>nfd = (\<lambda>a. demo_nfd), fd_map = [], suspended = (\<lambda>t. False), armed = (\<lambda>a. False), frames = (\<lambda>a. 0), err = EOK,
     evtlist_cnt = 0, event_list_size = 16, kern = [3 \<mapsto> POLLIN OR EPOLLET]\<rparr>"

definition demo_wait :: "(int \<Rightarrow> uint32 option) epoll" where
  "demo_wait = demo_start\<lparr>nfd := (\<lambda>a. demo_nfd)(5 := demo_nfd\<lparr>osfd := \<lparr>fd = 7, events = 1, revents = 0\<rparr>, owner := Some 1, has_timer := True\<rparr>),
     fd_map := [(7, 5)], suspended := (\<lambda>t. False)(1 := True), armed := (\<lambda>a. False)(5 := True), frames := (\<lambda>a. 0)(5 := 100),
     evtlist_cnt := 1, kern := [3 \<mapsto> POLLIN OR EPOLLET, 7 \<mapsto> POLLIN OR EPOLLET]\<rparr>"

lemma demo_init: "epoll_init demo_ctl (\<lambda>k. k) 3 demo_start"
  unfolding epoll_init_def
  by (rule exI [of _ "demo_start\<lparr>kern := Map.empty\<rparr>"], rule exI [of _ 16])
    (simp add: epoll_InitModule_def PollInterrupter_def call_ctl_def demo_start_def demo_nfd_def fun_eq_iff)

lemma demo_short: "of_short 1 = POLLIN" "to_short (POLLIN OR EPOLLET) = 1"
  using short_bits(1) [of POLLIN] by (simp_all add: of_short_def to_short_def EPOLLET_def)

lemma demo_enter: "epoll_Poll_enter demo_ctl 1024 (Some 1) 5 POLLIN 100 demo_start = Some (True, demo_wait)"
  using demo_short(2)
  by (simp add: epoll_Poll_enter_def CheckRepeatNetFD_def epoll_PollsetAdd_def PollsetAddHelp_def call_ctl_def CoSwitch_def CreateTimer_def
      upd_nfd_def fd_of_def same_fd_def is_shared_def demo_start_def demo_wait_def demo_nfd_def set_events_def Let_def fun_eq_iff)

lemma demo_reachable: "(epoll_step demo_ctl (\<lambda>k. k) 1024 3)\<^sup>*\<^sup>* demo_start demo_wait"
  by (rule r_into_rtranclp, rule epoll_step.enter [OF _ demo_enter]) (simp add: demo_start_def demo_nfd_def)

lemma demo_fields:
  "suspended demo_wait 1" "owner (nfd demo_wait a) = Some 1 \<longleftrightarrow> a = 5" "fd_of demo_wait a = 7" "events_of demo_wait 5 = POLLIN"
  "frames demo_wait 5 = 100" "has_timer (nfd demo_wait 5)" "waits demo_wait 5" "kern demo_wait 7 = Some (POLLIN OR EPOLLET)"
  by (auto simp: demo_wait_def demo_start_def demo_nfd_def fd_of_def events_of_def waits_def demo_short)

lemma demo_owner: "owner (nfd demo_wait 5) = Some 1"
  by (simp only: demo_fields)

lemma epoll_no_forgotten_waiter_witness:
  "(\<exists>w'. handle_event demo_ctl 3 (7, POLLIN) demo_wait = Some w' \<and> \<not> suspended w' 1 \<and> fst (epoll_Poll_exit 5 w') = 0)
   \<and> (\<exists>w'. epoll_timeout demo_ctl 5 demo_wait = Some w' \<and> \<not> suspended w' 1 \<and> err (snd (epoll_Poll_exit 5 w')) = ETIME)"
proof -
  have w: "wakes POLLIN (events_of demo_wait 5)" "POLLIN AND POLL_EXCEPTION = 0"
    by (simp_all add: demo_fields wakes_def POLL_EXCEPTION_def)
  from epoll_no_forgotten_waiter [OF demo_law demo_init demo_reachable demo_fields(1)] obtain a where
    a: "owner (nfd demo_wait a) = Some 1"
      "\<forall>come. wakes come (events_of demo_wait a) \<longrightarrow> (\<exists>w'. handle_event demo_ctl 3 (fd_of demo_wait a, come) demo_wait = Some w'
        \<and> \<not> suspended w' 1 \<and> fst (epoll_Poll_exit a w') = (if come AND POLL_EXCEPTION = 0 then 0 else - 1))"
      "0 < frames demo_wait a \<and> has_timer (nfd demo_wait a) \<longrightarrow> (\<exists>w'. epoll_timeout demo_ctl a demo_wait = Some w' \<and> \<not> suspended w' 1
        \<and> kern w' (fd_of demo_wait a) = None \<and> fst (epoll_Poll_exit a w') = - 1 \<and> err (snd (epoll_Poll_exit a w')) = ETIME)"
    by blast
  have e: "a = 5" using a(1) demo_fields(2) by blast
  note A = a(2,3) [unfolded e demo_fields(3)]
  show ?thesis using A(1) [rule_format, OF w(1)] A(2) demo_fields(5,6) w(2) by auto
qed



text \<open>
  A second task that polls a shared descriptor in the same thread aborts: the events it hands to \<open>PollsetModify\<close>
  include the edge-trigger flag, the sign bit of an \<open>int\<close>, and are asserted to be positive.
\<close>

theorem epoll_second_sharer_aborts:
  assumes law: "epoll_law ctl interest" and i: "epoll_init ctl interest notify w0"
    and r: "(epoll_step ctl interest rlim notify)\<^sup>*\<^sup>* w0 w" and a: "waits w a"
    and b: "owner (nfd w b) = None" "is_shared (nfd w b)" "fd_of w b = fd_of w a" "0 \<le> fd_of w b"
    and ev: "ev \<noteq> 0" "ev AND NOT (POLLIN OR POLLOUT OR POLLPRI) = 0"
  shows "epoll_Poll_enter ctl rlim cur b ev tmo w = None"
proof -
  have ok: "epoll_ok interest notify w" using epoll.inv_reachable [OF conjI [OF law i] r] by simp
  have "\<not> waits w b" using ok b(1) by (auto simp: epoll_ok_def tasks_ok_def)
  moreover have "same_fd (fd_of w b) w \<noteq> []" using waits_registered [OF ok a] b(3) by simp
  ultimately have "epoll_PollsetAdd ctl rlim b ev w = None"
    using ok b ev by (intro PollsetAdd_second_sharer [of interest notify]) (simp_all add: epoll_ok_def)
  then show ?thesis using b(1) by (simp add: epoll_Poll_enter_def CheckRepeatNetFD_def)
qed

lemma epoll_second_sharer_aborts_witness: "epoll_Poll_enter demo_ctl 1024 (Some 2) 6 POLLOUT 0 demo_wait = None"
  by (rule epoll_second_sharer_aborts [OF demo_law demo_init demo_reachable demo_fields(7)])
    (simp_all add: demo_wait_def demo_start_def demo_nfd_def fd_of_def is_shared_def)

text \<open>
  Without a limit of descriptors (\<open>RLIM_INFINITY\<close>) the narrowed limit is -1, and the list that receives the events never
  grows, however many descriptors wait.
\<close>

theorem epoll_unlimited_never_grows:
  "inner_io_init True 0 (Some (- 1)) True 0 = (0, - 1)"
  "0 \<le> evtlist_cnt w \<Longrightarrow> event_list_size (snd (PollsetAddHelp ctl (- 1) a ev w)) = event_list_size w"
proof -
  have "(ucast (- 1 :: uint64) :: 32 word) = - 1" by (rule bit_word_eqI) (simp add: bit_simps)
  then show "inner_io_init True 0 (Some (- 1)) True 0 = (0, - 1)"
    unfolding inner_io_init_def by (simp only: if_True if_False simp_thms option.case Let_def refl) simp
  assume c: "0 \<le> evtlist_cnt w"
  let ?w = "upd_nfd a (set_events ev) w"
  obtain ok w' where k: "call_ctl ctl Ctl_Add (fd_of ?w a) ev ?w = (ok, w')" by (meson surj_pair)
  then have "evtlist_cnt w' = evtlist_cnt w" "event_list_size w' = event_list_size w"
    by (auto simp: call_ctl_def upd_nfd_def split: prod.splits option.splits)
  then show "event_list_size (snd (PollsetAddHelp ctl (- 1) a ev w)) = event_list_size w"
    using c k by (simp add: PollsetAddHelp_def Let_def)
qed

end
