(* ===== verification/Net_Io.thy ===== *)
theory Net_Io
  imports Epoll_Wait
begin

text \<open>
  The blocking socket calls of \<open>netio/inner_net/net_fd.cpp\<close>: \<open>inner_recv\<close>, \<open>inner_send\<close>, \<open>inner_sendto\<close>,
  \<open>inner_recvfrom\<close>, \<open>inner_accept\<close>, \<open>inner_connect\<close> and the \<open>st_\<close> functions. What the kernel answers to the
  successive system calls is a list given as an argument, and so is how the task comes back from each
  \<open>Poll\<close>. A call for which the list has no answer left is still blocked, and the function has no result.
  The functions also return the bytes that the kernel took, in order.
\<close>

section \<open>The environment\<close>

type_synonym byte = "8 word"

text \<open>
  \<open>Ret k\<close>: the kernel has room for \<open>k\<close> more bytes and takes as many of those offered; \<open>Ret bs\<close>: it has the bytes
  \<open>bs\<close> and hands over as many as the caller has room for. \<open>Fail e\<close>: the call returns -1 and sets \<open>errno\<close>.
\<close>

datatype 'a answer = Ret 'a | Fail errno

text \<open>\<open>Poll\<close> refuses at once, or the task is woken, by its timer or with \<open>revents\<close>.\<close>

datatype wake = Refused errno | Woken bool uint32

record netio =
  wake_ups :: "wake list"
  io_err :: errno

definition io_Poll :: "netio \<Rightarrow> (int \<times> netio) option" where
  "io_Poll s = (case wake_ups s of
      [] \<Rightarrow> None
    | Refused e # ws \<Rightarrow> Some (- 1, s\<lparr>wake_ups := ws, io_err := e\<rparr>)
    | Woken timed_out re # ws \<Rightarrow>
        (let (r, e) = Poll_return timed_out re (io_err s) in Some (r, s\<lparr>wake_ups := ws, io_err := e\<rparr>)))"

text \<open>\<open>_IO_NOT_READY_ERROR\<close>; \<open>EWOULDBLOCK\<close> is \<open>EAGAIN\<close>.\<close>

definition IO_NOT_READY_ERROR :: "errno \<Rightarrow> bool" where
  "IO_NOT_READY_ERROR e \<longleftrightarrow> e = EAGAIN"

text \<open>What the loops do after a call that returned -1; \<open>zero\<close> is the result when nothing may be waited for.\<close>

datatype verdict = Again | Return int | Wait

definition on_error :: "int \<Rightarrow> int \<Rightarrow> errno \<Rightarrow> verdict" where
  "on_error zero timeout e =
     (if e = EINTR then Again
      else if \<not> IO_NOT_READY_ERROR e then Return (- 1)
      else if timeout = 0 then Return zero
      else Wait)"

section \<open>Calls that return as soon as one system call succeeds\<close>

text \<open>
  The loop of \<open>inner_recv\<close>, \<open>inner_sendto\<close>, \<open>inner_recvfrom\<close> and \<open>st_readv\<close>: \<open>n_of\<close> is the value of the C
  variable \<open>n\<close> that receives the result; a size that wraps to a negative value is taken for an error, with
  \<open>errno\<close> as it was.
\<close>

fun retry_loop :: "('a \<Rightarrow> int) \<Rightarrow> int \<Rightarrow> int \<Rightarrow> 'a answer list \<Rightarrow> netio \<Rightarrow> (int \<times> 'a option \<times> netio) option" where
  "retry_loop n_of zero timeout [] s = None"
| "retry_loop n_of zero timeout (x # xs) s =
     (let (n, s) = (case x of Ret v \<Rightarrow> (n_of v, s) | Fail e \<Rightarrow> (- 1, s\<lparr>io_err := e\<rparr>)) in
      if n < 0 then
        case on_error zero timeout (io_err s) of
          Again \<Rightarrow> retry_loop n_of zero timeout xs s
        | Return r \<Rightarrow> Some (r, None, s)
        | Wait \<Rightarrow> do {
            (r, s) \<leftarrow> io_Poll s;
            if r < 0 then Some (- 1, None, s) else retry_loop n_of zero timeout xs s }
      else Some (n, case x of Ret v \<Rightarrow> Some v | Fail e \<Rightarrow> None, s))"

definition received :: "nat \<Rightarrow> byte list answer \<Rightarrow> byte list answer" where
  "received len x = (case x of Ret bs \<Rightarrow> Ret (take len bs) | Fail e \<Rightarrow> Fail e)"

definition inner_recv :: "nat \<Rightarrow> int \<Rightarrow> byte list answer list \<Rightarrow> netio \<Rightarrow> (int \<times> byte list option \<times> netio) option" where
  "inner_recv len timeout xs s = retry_loop (\<lambda>bs. to_int32 (int (length bs))) 0 timeout (map (received len) xs) s"

definition inner_recvfrom :: "nat \<Rightarrow> int \<Rightarrow> byte list answer list \<Rightarrow> netio \<Rightarrow> (int \<times> byte list option \<times> netio) option" where
  "inner_recvfrom len timeout xs s = retry_loop (\<lambda>bs. to_int32 (int (length bs))) (- 1) timeout (map (received len) xs) s"

definition st_read :: "nat \<Rightarrow> int \<Rightarrow> byte list answer list \<Rightarrow> netio \<Rightarrow> (int \<times> byte list option \<times> netio) option" where
  "st_read len timeout xs s = inner_recv len timeout xs s"

definition st_readv :: "nat list \<Rightarrow> int \<Rightarrow> byte list answer list \<Rightarrow> netio \<Rightarrow> (int \<times> byte list option \<times> netio) option" where
  "st_readv iov timeout xs s = retry_loop (\<lambda>bs. int (length bs)) 0 timeout (map (received (sum_list iov)) xs) s"

definition taken :: "byte list \<Rightarrow> nat answer \<Rightarrow> byte list answer" where
  "taken buf x = (case x of Ret k \<Rightarrow> Ret (take k buf) | Fail e \<Rightarrow> Fail e)"

definition inner_sendto :: "byte list \<Rightarrow> int \<Rightarrow> nat answer list \<Rightarrow> netio \<Rightarrow> (int \<times> byte list option \<times> netio) option" where
  "inner_sendto buf timeout xs s = retry_loop (\<lambda>bs. to_int32 (int (length bs))) (- 1) timeout (map (taken buf) xs) s"

text \<open>\<open>accept\<close> asserts that the only failure is \<open>EAGAIN\<close>; \<open>nb\<close>: the new socket could be made non-blocking.\<close>

fun inner_accept :: "int \<Rightarrow> bool \<Rightarrow> int answer list \<Rightarrow> netio \<Rightarrow> (int \<times> netio) option" where
  "inner_accept timeout nb [] s = None"
| "inner_accept timeout nb (Ret f # xs) s = Some (if nb then f else - 1, s)"
| "inner_accept timeout nb (Fail e # xs) s = do {
     let s = s\<lparr>io_err := e\<rparr>;
     assert_c (e = EAGAIN);
     case on_error (- 1) timeout e of
       Again \<Rightarrow> inner_accept timeout nb xs s
     | Return r \<Rightarrow> Some (- 1, s)
     | Wait \<Rightarrow> do {
         (r, s) \<leftarrow> io_Poll s;
         if r < 0 then Some (- 1, s) else inner_accept timeout nb xs s } }"

section \<open>Connecting\<close>

text \<open>
  \<open>so\<close> is the answer of \<open>getsockopt\<close> with \<open>SO_ERROR\<close>; \<open>err\<close> the local variable that remembers an interruption. On
  Windows (\<open>win\<close>) the error that means \<open>in progress\<close> is \<open>EAGAIN\<close>, to which \<open>get_errno\<close> translates \<open>WSAEWOULDBLOCK\<close>.
\<close>

fun connect_loop :: "bool \<Rightarrow> int \<Rightarrow> errno answer \<Rightarrow> bool \<Rightarrow> unit answer list \<Rightarrow> netio \<Rightarrow> (int \<times> netio) option" where
  "connect_loop win timeout so interrupted [] s = None"
| "connect_loop win timeout so interrupted (Ret u # xs) s = Some (0, s)"
| "connect_loop win timeout so interrupted (Fail e # xs) s =
     (let s = s\<lparr>io_err := e\<rparr> in
      if timeout = 0 then Some (- 1, s)
      else if e = EINTR then connect_loop win timeout so True xs s
      else if (if win then e \<noteq> EAGAIN else e \<noteq> EINPROGRESS \<and> (e \<noteq> EADDRINUSE \<or> \<not> interrupted)) then Some (- 1, s)
      else do {
        (r, s) \<leftarrow> io_Poll s;
        if r < 0 then Some (- 1, s)
        else Some (case so of
            Fail e \<Rightarrow> (- 1, s\<lparr>io_err := e\<rparr>)
          | Ret EOK \<Rightarrow> (0, s)
          | Ret e \<Rightarrow> (- 1, s\<lparr>io_err := e\<rparr>)) })"

definition inner_connect :: "bool \<Rightarrow> int \<Rightarrow> errno answer \<Rightarrow> unit answer list \<Rightarrow> netio \<Rightarrow> (int \<times> netio) option" where
  "inner_connect win timeout so xs s = connect_loop win timeout so False xs s"

section \<open>Sending a whole buffer\<close>

text \<open>
  The loop of \<open>inner_send\<close>. Outside Windows every call passes \<open>buf\<close> itself, on Windows \<open>buf + offset\<close>. Bytes
  beyond the buffer must not be read. \<open>cnt\<close>, the argument \<open>count\<close>, is a \<open>size_t\<close>, \<open>n\<close> and \<open>offset\<close> are \<open>int\<close>s.
\<close>

fun send_loop :: "bool \<Rightarrow> byte list \<Rightarrow> int \<Rightarrow> nat answer list \<Rightarrow> size_t \<Rightarrow> int \<Rightarrow> byte list \<Rightarrow> netio \<Rightarrow> (int \<times> byte list \<times> netio) option" where
  "send_loop win buf timeout [] cnt offset sent s = None"
| "send_loop win buf timeout (x # xs) cnt offset sent s = do {
     let from = (if win then drop (nat offset) buf else buf);
     assert_c (unat cnt \<le> length from);
     let bs = (case x of Ret k \<Rightarrow> take k (take (unat cnt) from) | Fail e \<Rightarrow> []);
     let s = (case x of Ret k \<Rightarrow> s | Fail e \<Rightarrow> s\<lparr>io_err := e\<rparr>);
     let n = (case x of Ret k \<Rightarrow> to_int32 (int (length bs)) | Fail e \<Rightarrow> - 1);
     let sent = sent @ bs;
     let offset' = offset + n;
     let cnt' = cnt - word_of_int n;
     if n < 0 then
       case on_error n timeout (io_err s) of
         Again \<Rightarrow> send_loop win buf timeout xs cnt offset sent s
       | Return r \<Rightarrow> Some (r, sent, s)
       | Wait \<Rightarrow> do {
           (r, s) \<leftarrow> io_Poll s;
           if r < 0 then Some (- 1, sent, s) else send_loop win buf timeout xs cnt offset sent s }
     else if timeout = 0 then Some (n, sent, s)
     else if cnt' = 0 then Some (offset', sent, s)
     else do {
       (r, s) \<leftarrow> io_Poll s;
       if r < 0 then Some (- 1, sent, s) else send_loop win buf timeout xs cnt' offset' sent s } }"

definition inner_send :: "bool \<Rightarrow> byte list \<Rightarrow> int \<Rightarrow> nat answer list \<Rightarrow> netio \<Rightarrow> (int \<times> byte list \<times> netio) option" where
  "inner_send win buf timeout xs s = send_loop win buf timeout xs (of_nat (length buf)) 0 [] s"

section \<open>Vectors of buffers\<close>

text \<open>
  An \<open>iovec\<close> is the bytes between its base and its end. The inner loop of \<open>st_readv_resid\<close> and
  \<open>st_writev_resid\<close> moves past the first \<open>n\<close> bytes: a finished buffer has length 0 and the pointer moves to
  the next one, which must exist when bytes are left.
\<close>

fun advance :: "nat \<Rightarrow> 'b list list \<Rightarrow> 'b list list option" where
  "advance n [] = None"
| "advance n (v # vs) =
     (if length v \<le> n then if n - length v = 0 then Some vs else advance (n - length v) vs
      else Some (drop n v # vs))"

fun writev_resid_loop :: "int \<Rightarrow> nat answer list \<Rightarrow> byte list list \<Rightarrow> byte list \<Rightarrow> netio \<Rightarrow> (int \<times> byte list list \<times> byte list \<times> netio) option" where
  "writev_resid_loop timeout xs [] sent s = Some (0, [], sent, s)"
| "writev_resid_loop timeout [] (v # vs) sent s = None"
| "writev_resid_loop timeout (Fail e # xs) (v # vs) sent s =
     (let s = s\<lparr>io_err := e\<rparr> in
      case on_error 0 timeout e of
        Again \<Rightarrow> writev_resid_loop timeout xs (v # vs) sent s
      | Return r \<Rightarrow> Some (r, v # vs, sent, s)
      | Wait \<Rightarrow> do {
          (r, s) \<leftarrow> io_Poll s;
          if r < 0 then Some (- 1, v # vs, sent, s) else writev_resid_loop timeout xs (v # vs) sent s })"
| "writev_resid_loop timeout (Ret k # xs) (v # vs) sent s = do {
     let bs = take k (concat (v # vs));
     let sent = sent @ bs;
     iov \<leftarrow> advance (length bs) (v # vs);
     if iov = [] then Some (0, [], sent, s)
     else do {
       (r, s) \<leftarrow> io_Poll s;
       if r < 0 then Some (- 1, iov, sent, s) else writev_resid_loop timeout xs iov sent s } }"

definition st_writev_resid :: "byte list list \<Rightarrow> int \<Rightarrow> nat answer list \<Rightarrow> netio \<Rightarrow> (int \<times> byte list list \<times> byte list \<times> netio) option" where
  "st_writev_resid iov timeout xs s = writev_resid_loop timeout xs iov [] s"

text \<open>Reading into the buffers in order, until they are full or the peer has closed.\<close>

fun readv_resid_loop :: "int \<Rightarrow> byte list answer list \<Rightarrow> byte list list \<Rightarrow> byte list \<Rightarrow> netio \<Rightarrow> (int \<times> byte list list \<times> byte list \<times> netio) option" where
  "readv_resid_loop timeout xs [] got s = Some (0, [], got, s)"
| "readv_resid_loop timeout [] (v # vs) got s = None"
| "readv_resid_loop timeout (Fail e # xs) (v # vs) got s =
     (let s = s\<lparr>io_err := e\<rparr> in
      case on_error 0 timeout e of
        Again \<Rightarrow> readv_resid_loop timeout xs (v # vs) got s
      | Return r \<Rightarrow> Some (r, v # vs, got, s)
      | Wait \<Rightarrow> do {
          (r, s) \<leftarrow> io_Poll s;
          if r < 0 then Some (- 1, v # vs, got, s) else readv_resid_loop timeout xs (v # vs) got s })"
| "readv_resid_loop timeout (Ret bs # xs) (v # vs) got s =
     (let bs = take (length (concat (v # vs))) bs in
      if bs = [] then Some (0, v # vs, got, s)
      else do {
        iov \<leftarrow> advance (length bs) (v # vs);
        if iov = [] then Some (0, [], got @ bs, s)
        else do {
          (r, s) \<leftarrow> io_Poll s;
          if r < 0 then Some (- 1, iov, got @ bs, s) else readv_resid_loop timeout xs iov (got @ bs) s } })"

definition st_readv_resid :: "byte list list \<Rightarrow> int \<Rightarrow> byte list answer list \<Rightarrow> netio \<Rightarrow> (int \<times> byte list list \<times> byte list \<times> netio) option" where
  "st_readv_resid iov timeout xs s = readv_resid_loop timeout xs iov [] s"

text \<open>The result, the number of bytes not sent, and the bytes sent.\<close>

definition st_write_resid :: "byte list \<Rightarrow> int \<Rightarrow> nat answer list \<Rightarrow> netio \<Rightarrow> (int \<times> nat \<times> byte list \<times> netio) option" where
  "st_write_resid buf timeout xs s = do {
     (rv, iov, sent, s) \<leftarrow> st_writev_resid [buf] timeout xs s;
     Some (rv, case iov of [] \<Rightarrow> 0 | v # vs \<Rightarrow> length v, sent, s) }"

definition st_write :: "byte list \<Rightarrow> int \<Rightarrow> nat answer list \<Rightarrow> netio \<Rightarrow> (int \<times> byte list \<times> netio) option" where
  "st_write buf timeout xs s = do {
     (rv, resid, sent, s) \<leftarrow> st_write_resid buf timeout xs s;
     Some (if rv = 0 then to_int32 (int (length buf) - int resid) else - 1, sent, s) }"

text \<open>
  \<open>st_writev\<close> leaves the caller's vector alone: after a partial write it copies what is left of it to a local
  vector of \<open>_LOCAL_MAXIOV\<close> entries, or to one it allocates when that is too small. \<open>first\<close> tells that no copy was
  made yet, \<open>alloc\<close> that \<open>calloc\<close> succeeds. Finding the first buffer with bytes left walks over finished ones.
\<close>

definition LOCAL_MAXIOV :: nat where
  "LOCAL_MAXIOV = 16"

fun skip :: "nat \<Rightarrow> 'b list list \<Rightarrow> 'b list list option" where
  "skip n [] = None"
| "skip n (v # vs) = (if length v \<le> n then skip (n - length v) vs else Some (drop n v # vs))"

fun writev_loop ::
  "bool \<Rightarrow> byte list list \<Rightarrow> int \<Rightarrow> nat answer list \<Rightarrow> bool \<Rightarrow> byte list list \<Rightarrow> nat \<Rightarrow> byte list \<Rightarrow> netio \<Rightarrow> (int \<times> byte list \<times> netio) option" where
  "writev_loop alloc iov timeout xs first tmp nleft sent s =
     (let nbyte = length (concat iov) in
      if nleft = 0 then Some (int nbyte, sent, s)
      else if length tmp = 1 then do {
        (r, bs, s) \<leftarrow> st_write (take nleft (hd tmp)) timeout xs s;
        Some (if r \<noteq> int nleft then - 1 else int nbyte, sent @ bs, s) }
      else case xs of
        [] \<Rightarrow> None
      | Fail e # xs \<Rightarrow>
          (let s = s\<lparr>io_err := e\<rparr> in
           case on_error 0 timeout e of
             Again \<Rightarrow> writev_loop alloc iov timeout xs first tmp nleft sent s
           | Return r \<Rightarrow> Some (r, sent, s)
           | Wait \<Rightarrow> do {
               (r, s) \<leftarrow> io_Poll s;
               if r < 0 then Some (- 1, sent, s) else writev_loop alloc iov timeout xs first tmp nleft sent s })
      | Ret k # xs \<Rightarrow>
          (let bs = take k (concat tmp); sent = sent @ bs in
           if length bs = nleft then Some (int nbyte, sent, s)
           else do {
             let nleft = nleft - length bs;
             tmp \<leftarrow> skip (nbyte - nleft) iov;
             if first \<and> length tmp > LOCAL_MAXIOV \<and> \<not> alloc then Some (- 1, sent, s)
             else do {
               (r, s) \<leftarrow> io_Poll s;
               if r < 0 then Some (- 1, sent, s) else writev_loop alloc iov timeout xs False tmp nleft sent s } }))"

definition st_writev :: "bool \<Rightarrow> byte list list \<Rightarrow> int \<Rightarrow> nat answer list \<Rightarrow> netio \<Rightarrow> (int \<times> byte list \<times> netio) option" where
  "st_writev alloc iov timeout xs s = writev_loop alloc iov timeout xs True iov (length (concat iov)) [] s"

section \<open>Moving through a vector\<close>

lemma advance_ok:
  "n \<le> length (concat iov) \<Longrightarrow> iov \<noteq> [] \<Longrightarrow> \<exists>r. advance n iov = Some r \<and> concat r = drop n (concat iov)
     \<and> (n < length (concat iov) \<longrightarrow> r \<noteq> []) \<and> length (concat r) + length r < length (concat iov) + length iov + (if n = 0 \<and> hd iov \<noteq> [] then 1 else 0)"
proof (induction n iov rule: advance.induct)
  case (2 n v vs)
  show ?case
  proof (cases "length v \<le> n \<and> n - length v \<noteq> 0")
    case True
    then have "vs \<noteq> []" using 2(2) by auto
    with 2 True obtain r where "advance (n - length v) vs = Some r" "concat r = drop (n - length v) (concat vs)"
      "n - length v < length (concat vs) \<longrightarrow> r \<noteq> []" "length (concat r) + length r < length (concat vs) + length vs + 0" by force
    with True show ?thesis by auto
  qed auto
qed simp

lemma skip_ok:
  "n < length (concat iov) \<Longrightarrow> \<exists>r. skip n iov = Some r \<and> concat r = drop n (concat iov) \<and> r \<noteq> []"
  by (induction n iov rule: skip.induct) auto

text \<open>Later copies of the rest of a vector are not longer than the first one.\<close>

lemma skip_shorter: "skip n iov = Some a \<Longrightarrow> skip m iov = Some b \<Longrightarrow> n \<le> m \<Longrightarrow> length b \<le> length a"
proof (induction n iov arbitrary: m a b rule: skip.induct)
  case (2 n v vs)
  have len: "skip k us = Some c \<Longrightarrow> length c \<le> length us" for k and us c :: "'a list list"
    by (induction k us rule: skip.induct) (auto split: if_splits)
  show ?case
  proof (cases "length v \<le> n")
    case True
    with 2 show ?thesis by (auto intro: 2(1) split: if_splits)
  next
    case False
    with 2 len show ?thesis by (fastforce split: if_splits)
  qed
qed simp

section \<open>Vectored writes\<close>

lemma on_error_cases:
  "on_error z timeout e = Again \<longleftrightarrow> e = EINTR"
  "on_error z timeout e = Wait \<longleftrightarrow> e = EAGAIN \<and> timeout \<noteq> 0"
  "on_error z timeout e = Return r \<longleftrightarrow> (e \<noteq> EINTR \<and> e \<noteq> EAGAIN \<and> r = - 1) \<or> (e = EAGAIN \<and> timeout = 0 \<and> r = z)"
  by (auto simp: on_error_def IO_NOT_READY_ERROR_def)

text \<open>Nothing is lost and nothing sent twice, whatever the kernel answers.\<close>

lemma writev_resid_loop_sent:
  "writev_resid_loop timeout xs iov sent s = Some (rv, rest, out, s') \<Longrightarrow>
   out @ concat rest = sent @ concat iov \<and> (rv = 0 \<or> rv = - 1) \<and> (rv = 0 \<and> timeout \<noteq> 0 \<longrightarrow> rest = [])"
proof (induction timeout xs iov sent s rule: writev_resid_loop.induct)
  case (3 timeout e xs v vs sent s)
  then show ?case by (auto simp: on_error_cases Let_def split: verdict.splits Option.bind_splits if_splits)
next
  case (4 timeout k xs v vs sent s)
  define bs where "bs = take k (concat (v # vs))"
  have "length bs \<le> length (concat (v # vs))" unfolding bs_def length_take by (rule min.cobounded1)
  from advance_ok [OF this] obtain r where r: "advance (length bs) (v # vs) = Some r" "concat r = drop (length bs) (concat (v # vs))"
    by blast
  have "take (length bs) (concat (v # vs)) = bs" by (simp only: bs_def length_take take_take min.commute min.left_idem) (metis min.commute take_all_iff take_take nle_le)
  then have c: "bs @ concat r = concat (v # vs)" unfolding r(2) by (metis append_take_drop_id)
  note step = 4(2) [unfolded writev_resid_loop.simps Let_def, folded bs_def] r(1)
  show ?case
  proof (cases "r = []")
    case True
    then show ?thesis using step c by simp
  next
    case False
    then obtain n s1 where p: "io_Poll s = Some (n, s1)" using step by (cases "io_Poll s") auto
    show ?thesis
    proof (cases "n < 0")
      case True
      then have "rv = - 1" "rest = r" "out = sent @ bs" using step False p by simp_all
      then show ?thesis using c by simp
    next
      case n: False
      then have "writev_resid_loop timeout xs r (sent @ bs) s1 = Some (rv, rest, out, s')" using step False p by simp
      with 4(1) [OF refl refl, folded bs_def, OF r(1) False p refl n] c show ?thesis by simp
    qed
  qed
qed auto

text \<open>Progress: each successful call sends a byte or passes an empty buffer, so enough of them finish the vector.\<close>

definition succeeds :: "nat answer \<Rightarrow> bool" where
  "succeeds x = (case x of Ret k \<Rightarrow> 0 < k | Fail e \<Rightarrow> False)"

definition retryable :: "nat answer \<Rightarrow> bool" where
  "retryable x \<longleftrightarrow> succeeds x \<or> x = Fail EINTR \<or> x = Fail EAGAIN"

lemma io_Poll_ready:
  "wake_ups s = Woken False 0 # ws \<Longrightarrow> io_Poll s = Some (0, s\<lparr>wake_ups := ws\<rparr>)"
  by (simp add: io_Poll_def Poll_return_def)

lemma writev_resid_loop_completes:
  "timeout \<noteq> 0 \<Longrightarrow> \<forall>x\<in>set xs. retryable x \<Longrightarrow> \<forall>w\<in>set (wake_ups s). w = Woken False 0 \<Longrightarrow> length xs \<le> length (wake_ups s) \<Longrightarrow>
   length (concat iov) + length iov \<le> length (filter succeeds xs) \<Longrightarrow>
   \<exists>s'. writev_resid_loop timeout xs iov sent s = Some (0, [], sent @ concat iov, s')"
proof (induction xs arbitrary: iov sent s)
  case (Cons x xs)
  obtain ws where ws: "wake_ups s = Woken False 0 # ws" using Cons.prems(3,4) by (cases "wake_ups s") auto
  have IH: "\<exists>s'. writev_resid_loop timeout xs iov' sent' t = Some (0, [], sent' @ concat iov', s')"
    if "length (concat iov') + length iov' \<le> length (filter succeeds xs)" "wake_ups t = ws \<or> wake_ups t = wake_ups s" for iov' sent' t
  proof (rule Cons.IH [OF Cons.prems(1)])
    show "\<forall>x\<in>set xs. retryable x" using Cons.prems(2) by simp
    show "\<forall>w\<in>set (wake_ups t). w = Woken False 0" using Cons.prems(3) ws that(2) by auto
    show "length xs \<le> length (wake_ups t)" using Cons.prems(4) ws that(2) by auto
  qed (rule that(1))
  show ?case
  proof (cases iov)
    case iov: (Cons v vs)
    show ?thesis
    proof (cases x)
      case (Fail e)
      then have e: "e = EINTR \<or> e = EAGAIN" "\<not> succeeds x" using Cons.prems(2) by (auto simp: retryable_def succeeds_def)
      have "io_Poll (s\<lparr>io_err := e\<rparr>) = Some (0, s\<lparr>io_err := e, wake_ups := ws\<rparr>)"
        using io_Poll_ready [of "s\<lparr>io_err := e\<rparr>" ws] ws by simp
      then show ?thesis using e Fail iov Cons.prems(1,5) IH [of iov "s\<lparr>io_err := e\<rparr>" sent] IH [of iov "s\<lparr>io_err := e, wake_ups := ws\<rparr>" sent]
        by (auto simp: on_error_def IO_NOT_READY_ERROR_def)
    next
      case (Ret k)
      then have k: "0 < k" "succeeds x" using Cons.prems(2) by (auto simp: retryable_def succeeds_def)
      define bs where "bs = take k (concat iov)"
      have "length bs \<le> length (concat iov)" by (simp add: bs_def)
      from advance_ok [OF this] iov obtain r where r: "advance (length bs) iov = Some r" "concat r = drop (length bs) (concat iov)"
        "length (concat r) + length r < length (concat iov) + length iov + (if length bs = 0 \<and> hd iov \<noteq> [] then 1 else 0)" by auto
      have "\<not> (length bs = 0 \<and> hd iov \<noteq> [])" using k iov by (auto simp: bs_def)
      then have m: "length (concat r) + length r \<le> length (filter succeeds xs)" using r(3) Cons.prems(5) k by auto
      have c: "concat iov = bs @ concat r" unfolding r(2) by (simp add: bs_def min_def)
      have poll: "io_Poll s = Some (0, s\<lparr>wake_ups := ws\<rparr>)" by (rule io_Poll_ready [OF ws])
      show ?thesis using IH [OF m, of "s\<lparr>wake_ups := ws\<rparr>" "sent @ bs"] r(1) c poll
        unfolding Ret iov writev_resid_loop.simps Let_def bs_def [unfolded iov, symmetric] by auto
    qed
  qed simp
qed simp

section \<open>Writing one buffer\<close>

lemma st_write_ok:
  assumes "length buf < 2 ^ 31" "st_write buf timeout xs s = Some (rv, out, s')"
  shows "\<exists>rest. buf = out @ rest \<and> (rv = - 1 \<or> rv = int (length out)) \<and> (timeout \<noteq> 0 \<and> rv \<noteq> - 1 \<longrightarrow> rest = [])"
proof -
  obtain r iov where w: "writev_resid_loop timeout xs [buf] [] s = Some (r, iov, out, s')"
    and rv: "rv = (if r = 0 then to_int32 (int (length buf) - int (case iov of [] \<Rightarrow> 0 | v # vs \<Rightarrow> length v)) else - 1)"
    using assms(2) by (auto simp: st_write_def st_write_resid_def st_writev_resid_def split: Option.bind_splits)
  note S = writev_resid_loop_sent [OF w]
  have "length iov \<le> 1" using w
  proof -
    have "length iov \<le> length vs" if "writev_resid_loop timeout xs vs out0 s = Some (r, iov, out, s')" for vs out0
      using that
    proof (induction timeout xs vs out0 s rule: writev_resid_loop.induct)
      case (4 timeout k xs v vs out0 s)
      have adv: "advance n us = Some u \<Longrightarrow> length u \<le> length us" for n and us u :: "byte list list"
        by (induction n us rule: advance.induct) (auto split: if_splits)
      obtain u where u: "advance (length (take k (concat (v # vs)))) (v # vs) = Some u"
        using 4(2) unfolding writev_resid_loop.simps Let_def by (cases "advance (length (take k (concat (v # vs)))) (v # vs)") auto
      show ?case
        using 4(2) u adv [OF u] 4(1) [OF refl refl u]
        unfolding writev_resid_loop.simps Let_def
        by (auto split: Option.bind_splits if_splits simp del: advance.simps concat.simps) (meson le_trans)+
    qed (auto simp: Let_def split: verdict.splits Option.bind_splits if_splits)
    from this [OF w] show ?thesis by simp
  qed
  then have rest: "buf = out @ concat iov" "(case iov of [] \<Rightarrow> 0 | v # vs \<Rightarrow> length v) = length (concat iov)"
    using S by (auto split: list.splits)
  then have l: "int (length buf) - int (length (concat iov)) = int (length out)" by simp
  have "to_int32 (int (length out)) = int (length out)" using assms(1) rest(1) by (intro to_int32_small) auto
  then show ?thesis using S rest rv l by (auto intro!: exI [of _ "concat iov"])
qed

section \<open>Writing a vector\<close>

declare writev_loop.simps [simp del]

lemma take_whole [simp]: "\<exists>k. xs = take k xs"
  by (rule exI [of _ "length xs"]) simp

lemma writev_loop_sent:
  assumes nb: "length (concat iov) < 2 ^ 31"
  shows "nleft \<le> length (concat iov) \<Longrightarrow> concat tmp = drop (length (concat iov) - nleft) (concat iov) \<Longrightarrow>
   out0 = take (length (concat iov) - nleft) (concat iov) \<Longrightarrow>
   writev_loop alloc iov timeout xs first tmp nleft out0 s = Some (rv, out, s') \<Longrightarrow>
   (\<exists>k. out = take k (concat iov)) \<and> (rv = int (length (concat iov)) \<longrightarrow> out = concat iov)
     \<and> (rv = int (length (concat iov)) \<or> rv = - 1 \<or> (rv = 0 \<and> timeout = 0))"
proof (induction xs arbitrary: first tmp nleft out0 s)
  let ?all = "concat iov"
  case nil: Nil
  show ?case
  proof (cases "nleft = 0")
    case True
    then show ?thesis using nil(3,4) by (subst (asm) writev_loop.simps) auto
  next
    case False
    then obtain v where v: "tmp = [v]" using nil(4)
      by (subst (asm) writev_loop.simps) (auto simp: Let_def length_Suc_conv split: if_splits)
    with False nil(4) obtain r bs where w: "st_write (take nleft v) timeout [] s = Some (r, bs, s')"
      "rv = (if r \<noteq> int nleft then - 1 else int (length ?all))" "out = out0 @ bs"
      by (subst (asm) writev_loop.simps) (auto simp: Let_def split: Option.bind_splits)
    then show ?thesis by (simp add: st_write_def st_write_resid_def st_writev_resid_def)
  qed
next
  case (Cons x xs)
  let ?all = "concat iov"
  have lt: "length (concat tmp) = nleft" using Cons.prems(1,2) by simp
  show ?case
  proof (cases "nleft = 0 \<or> length tmp = 1")
    case True
    show ?thesis
    proof (cases "nleft = 0")
      case True
      then show ?thesis using Cons.prems(3,4) by (subst (asm) writev_loop.simps) auto
    next
      case False
      then obtain v where v: "tmp = [v]" using True by (auto simp: length_Suc_conv)
      with False Cons.prems(4) obtain r bs where w: "st_write (take nleft v) timeout (x # xs) s = Some (r, bs, s')"
        "rv = (if r \<noteq> int nleft then - 1 else int (length ?all))" "out = out0 @ bs"
        by (subst (asm) writev_loop.simps) (auto simp: Let_def split: Option.bind_splits)
      have v': "take nleft v = drop (length ?all - nleft) ?all" using lt v Cons.prems(2) by simp
      have "length (take nleft v) < 2 ^ 31" using v' nb by simp
      from st_write_ok [OF this w(1)] obtain rest where b: "take nleft v = bs @ rest" "r = - 1 \<or> r = int (length bs)" by blast
      have o: "out @ rest = ?all" using w(3) b(1) v' Cons.prems(3) by (simp flip: b(1))
      then have "out = take (length out) ?all" by (metis append_eq_conv_conj)
      moreover have "rest = []" if "r = int nleft"
      proof -
        have "length (take nleft v) = nleft" using lt v by simp
        then have "length bs + length rest = nleft" by (metis b(1) length_append)
        then show ?thesis using b(2) that by auto
      qed
      ultimately show ?thesis using w(2) o nb by (auto split: if_splits)
    qed
  next
    case False
    note step = Cons.prems(4) [unfolded writev_loop.simps [of _ _ _ "x # xs"] Let_def]
    show ?thesis
    proof (cases x)
      case (Fail e)
      then show ?thesis using step False Cons.prems(1-3) Cons.IH [OF Cons.prems(1-3)]
        by (auto simp: on_error_cases split: verdict.splits Option.bind_splits if_splits)
    next
      case (Ret k)
      define bs where "bs = take k (concat tmp)"
      have bs: "out0 @ bs = take (length ?all - nleft + length bs) ?all" "length bs \<le> nleft"
      proof -
        have "out0 @ bs = take (length ?all - nleft + k) ?all" unfolding bs_def Cons.prems(2,3) take_add by simp
        moreover have l: "length bs = min k nleft" by (simp add: bs_def lt min.commute)
        ultimately show "out0 @ bs = take (length ?all - nleft + length bs) ?all"
          using Cons.prems(1) by (cases "k \<le> nleft") (auto simp: min_def)
        show "length bs \<le> nleft" using l by simp
      qed
      show ?thesis
      proof (cases "length bs = nleft")
        case True
        then have "rv = int (length ?all)" "out = out0 @ bs" using step False Ret by (auto simp: bs_def)
        then show ?thesis using bs Cons.prems(1) True by auto
      next
        case nf: False
        define n where "n = nleft - length bs"
        have n: "n \<le> length ?all" "length ?all - n = length ?all - nleft + length bs" "n > 0" using bs nf Cons.prems(1) by (auto simp: n_def)
        have "length ?all - n < length ?all" using n(1,3) by linarith
        from skip_ok [OF this] obtain t where t: "skip (length ?all - n) iov = Some t"
          "concat t = drop (length ?all - n) ?all" by blast
        have o: "out0 @ bs = take (length ?all - n) ?all" unfolding n(2) by (rule bs(1))
        then have o': "\<exists>k. out0 @ bs = take k ?all" by blast
        note step' = step [unfolded Ret list.case answer.case, folded bs_def, folded n_def]
        show ?thesis
        proof (cases "first \<and> LOCAL_MAXIOV < length t \<and> \<not> alloc")
          case True
          then have "rv = - 1" "out = out0 @ bs" using step' False nf t by auto
          then show ?thesis using o' by simp
        next
          case na: False
          then obtain r s1 where p: "io_Poll s = Some (r, s1)" using step' False nf t by (cases "io_Poll s") auto
          show ?thesis
          proof (cases "r < 0")
            case True
            then have "rv = - 1" "out = out0 @ bs" using step' \<open>\<not> (nleft = 0 \<or> length tmp = 1)\<close> nf t na p by auto
            then show ?thesis using o' by simp
          next
            case False
            have "writev_loop alloc iov timeout xs False t n (out0 @ bs) s1 = Some (rv, out, s')"
              using step' \<open>\<not> (nleft = 0 \<or> length tmp = 1)\<close> nf t na p False by auto
            from Cons.IH [OF n(1) t(2) o this] show ?thesis .
          qed
        qed
      qed
    qed
  qed
qed

section \<open>Receiving and sending\<close>

lemma retry_loop_result:
  "retry_loop n_of zero timeout xs s = Some (r, d, s') \<Longrightarrow>
   (\<exists>v. d = Some v \<and> Ret v \<in> set xs \<and> r = n_of v \<and> 0 \<le> r)
   \<or> (d = None \<and> (r = - 1 \<or> (r = zero \<and> timeout = 0 \<and> io_err s' = EAGAIN)))"
proof (induction n_of zero timeout xs s rule: retry_loop.induct)
  case (2 n_of zero timeout x xs s)
  define nt where "nt = (case x of Ret v \<Rightarrow> (n_of v, s) | Fail e \<Rightarrow> (- 1, s\<lparr>io_err := e\<rparr>))"
  obtain n t where nt2: "nt = (n, t)" by (cases nt)
  note step = 2(3) [unfolded retry_loop.simps Let_def, folded nt_def, unfolded nt2 prod.case]
  note IH = 2(1,2) [folded nt_def, OF nt2 [symmetric] refl]
  show ?case
  proof (cases "n < 0")
    case True
    show ?thesis
    proof (cases "on_error zero timeout (io_err t)")
      case Again
      then show ?thesis using step True IH(1) by auto
    next
      case (Return v)
      then have "r = v" "d = None" "s' = t" using step True by simp_all
      then show ?thesis using Return by (auto simp: on_error_cases)
    next
      case Wait
      then obtain v u where p: "io_Poll t = Some (v, u)" using step True by (cases "io_Poll t") auto
      then show ?thesis using step True Wait IH(2) [OF True Wait p refl] by (auto split: if_splits)
    qed
  next
    case False
    then show ?thesis using step nt2 by (auto simp: nt_def split: answer.splits)
  qed
qed simp

text \<open>On Windows the offset moves on.\<close>

lemma send_loop_win:
  assumes "length buf < 2 ^ 31"
  shows "out0 @ rest = buf \<Longrightarrow> rest \<noteq> [] \<Longrightarrow> (timeout = 0 \<longrightarrow> out0 = []) \<Longrightarrow>
    send_loop True buf timeout xs (of_nat (length rest)) (int (length out0)) out0 s = Some (r, out, s') \<Longrightarrow>
    (\<exists>k. out = take k buf) \<and> (r = - 1 \<or> r = int (length out)) \<and> (timeout \<noteq> 0 \<and> r \<noteq> - 1 \<longrightarrow> out = buf)"
proof (induction xs arbitrary: out0 rest s)
  case (Cons x xs)
  have len: "length rest < 2 ^ 31" "length out0 + length rest = length buf" using Cons.prems(1) assms by auto
  have u: "unat (of_nat (length rest) :: size_t) = length rest" using len by (intro unat_of_nat_64) simp
  have frm: "drop (length out0) buf = rest" using Cons.prems(1) by auto
  have pre: "\<exists>k. out0 = take k buf" using Cons.prems(1) by (metis append_eq_conv_conj)
  show ?case
  proof (cases x)
    case (Fail e)
    then show ?thesis using Cons.prems Cons.IH [OF Cons.prems(1-3)] u frm pre
      by (auto simp: Let_def on_error_cases split: verdict.splits Option.bind_splits if_splits)
  next
    case (Ret k)
    define bs where "bs = take k rest"
    define rest' where "rest' = drop k rest"
    have b: "(out0 @ bs) @ rest' = buf" using Cons.prems(1) by (simp add: bs_def rest'_def)
    have tk: "take (min k (length rest)) rest = bs" by (simp add: bs_def min_def)
    have lb: "length bs \<le> length rest" "length rest' = length rest - length bs" by (auto simp: bs_def rest'_def)
    have n: "to_int32 (int (length bs)) = int (length bs)" using lb len by (intro to_int32_small) auto
    have c: "(of_nat (length rest) :: size_t) - of_nat (length bs) = of_nat (length rest')"
      using lb word_of_nat_diff [of "length bs" "length rest"] by simp
    have "length rest' < 2 ^ 64" using lb len by simp
    then have z: "(of_nat (length rest') :: size_t) = 0 \<longleftrightarrow> rest' = []" unfolding of_nat_size_eq_0 [OF \<open>length rest' < 2 ^ 64\<close>] by simp
    have z2: "(of_nat (length rest) = (of_nat (length bs) :: size_t)) = (rest' = [])"
      by (metis c z right_minus_eq)
    have pb: "\<exists>k. out0 @ bs = take k buf" using b by (metis append_eq_conv_conj)
    have step: "(if timeout = 0 then Some (int (length bs), out0 @ bs, s)
        else if rest' = [] then Some (int (length (out0 @ bs)), out0 @ bs, s)
        else do { (r, s) \<leftarrow> io_Poll s;
          if r < 0 then Some (- 1, out0 @ bs, s)
          else send_loop True buf timeout xs (of_nat (length rest')) (int (length (out0 @ bs))) (out0 @ bs) s }) = Some (r, out, s')"
      using Cons.prems(4) by (simp add: Let_def u frm n c z z2 Ret tk cong: if_cong del: length_take)
    show ?thesis
    proof (cases "timeout = 0 \<or> rest' = []")
      case True
      then have "out = out0 @ bs" "r = int (length out)" using step Cons.prems(3) by (auto split: if_splits)
      then show ?thesis using pb True b by auto
    next
      case False
      then obtain v t where p: "io_Poll s = Some (v, t)" using step by (cases "io_Poll s") auto
      show ?thesis
      proof (cases "v < 0")
        case True
        then have "out = out0 @ bs" "r = - 1" using step False p by auto
        then show ?thesis using pb by simp
      next
        case nv: False
        then have "send_loop True buf timeout xs (of_nat (length rest')) (int (length (out0 @ bs))) (out0 @ bs) t = Some (r, out, s')"
          using step False p by simp
        from Cons.IH [OF b _ _ this] False show ?thesis by blast
      qed
    qed
  qed
qed simp

section \<open>Properties\<close>

text \<open>
  C13: Whatever the kernel answers, the bytes \<open>st_write\<close> sends are a prefix of the buffer. It returns their number
  or -1, and unless the caller asked not to wait, a return without error means that the whole buffer was sent.
\<close>

theorem st_write_sends_prefix:
  assumes "length buf < 2 ^ 31" and "st_write buf timeout xs s = Some (rv, out, s')"
  shows "(\<exists>k. out = take k buf) \<and> (rv = - 1 \<or> rv = int (length out)) \<and> (timeout \<noteq> 0 \<and> rv \<noteq> - 1 \<longrightarrow> out = buf)"
proof -
  from st_write_ok [OF assms] obtain rest where
    r: "buf = out @ rest" "rv = - 1 \<or> rv = int (length out)" "timeout \<noteq> 0 \<and> rv \<noteq> - 1 \<longrightarrow> rest = []" by blast
  have "out = take (length out) buf" by (simp add: r(1))
  with r show ?thesis by blast
qed

lemma st_write_sends_prefix_witness:
  "\<exists>out s'. st_write [1, 2, 3] 5 [Ret 2, Fail EAGAIN, Ret 7] \<lparr>wake_ups = [Woken False 0, Woken False 0], io_err = EOK\<rparr> = Some (3, out, s')
    \<and> out = [1, 2, 3]"
proof -
  have "\<exists>out s'. st_write [1, 2, 3] 5 [Ret 2, Fail EAGAIN, Ret 7] \<lparr>wake_ups = [Woken False 0, Woken False 0], io_err = EOK\<rparr> = Some (3, out, s')"
    by (simp add: st_write_def st_write_resid_def st_writev_resid_def on_error_def IO_NOT_READY_ERROR_def io_Poll_def Poll_return_def to_int32_def)
  then show ?thesis using st_write_sends_prefix [of "[1, 2, 3]" 5 "[Ret 2, Fail EAGAIN, Ret 7]" "\<lparr>wake_ups = [Woken False 0, Woken False 0], io_err = EOK\<rparr>" 3]
    by fastforce
qed

text \<open>
  C14: The same for the vectored \<open>st_writev\<close>, with its local copies of the rest of the vector: the bytes sent are a
  prefix of the concatenation of the buffers, a result equal to the total means that all of them were sent,
  and the only other results are -1 and, when the caller asked not to wait, 0.
\<close>

theorem st_writev_sends_prefix:
  assumes "length (concat iov) < 2 ^ 31" and "st_writev alloc iov timeout xs s = Some (rv, out, s')"
  shows "(\<exists>k. out = take k (concat iov)) \<and> (rv = int (length (concat iov)) \<longrightarrow> out = concat iov)
    \<and> (rv = int (length (concat iov)) \<or> rv = - 1 \<or> (rv = 0 \<and> timeout = 0))"
  using writev_loop_sent [OF assms(1), of "length (concat iov)" iov "[]"] assms(2) by (simp add: st_writev_def)

lemma st_writev_sends_prefix_witness:
  "\<exists>out s'. st_writev True [[1, 2], [], [3, 4]] 5 [Ret 3, Ret 1] \<lparr>wake_ups = [Woken False 0], io_err = EOK\<rparr> = Some (4, out, s')
    \<and> out = [1, 2, 3, 4]"
proof -
  have "\<exists>out s'. st_writev True [[1, 2], [], [3, 4]] 5 [Ret 3, Ret 1] \<lparr>wake_ups = [Woken False 0], io_err = EOK\<rparr> = Some (4, out, s')"
    by (simp add: st_writev_def writev_loop.simps st_write_def st_write_resid_def st_writev_resid_def on_error_def
        io_Poll_def Poll_return_def to_int32_def LOCAL_MAXIOV_def)
  then show ?thesis using st_writev_sends_prefix [of "[[1, 2], [], [3, 4]]" True 5 "[Ret 3, Ret 1]" "\<lparr>wake_ups = [Woken False 0], io_err = EOK\<rparr>" 4]
    by fastforce
qed



text \<open>
  Asked not to wait (timeout 0), \<open>st_writev_resid\<close> nevertheless waits after a partial write: it calls \<open>Poll\<close>, which takes
  0 for no deadline, and returns only when the task is woken.
\<close>

theorem st_writev_resid_zero_timeout_waits:
  assumes "0 < k" and "k < length (concat iov)"
  shows "st_writev_resid iov 0 (Ret k # xs) \<lparr>wake_ups = [], io_err = e\<rparr> = None
    \<and> st_writev_resid iov 0 (Fail EAGAIN # xs) \<lparr>wake_ups = [], io_err = e\<rparr> = Some (0, iov, [], \<lparr>wake_ups = [], io_err = EAGAIN\<rparr>)"
proof -
  have ne: "iov \<noteq> []" using assms by auto
  then obtain v vs where v: "iov = v # vs" by (cases iov) auto
  have l: "length (take k (concat iov)) = k" using assms by simp
  obtain r where r: "advance k iov = Some r" "r \<noteq> []" using advance_ok [of k iov] assms ne by auto
  have "writev_resid_loop 0 (Ret k # xs) iov [] \<lparr>wake_ups = [], io_err = e\<rparr> = None"
    unfolding v writev_resid_loop.simps Let_def l [unfolded v] r(1) [unfolded v]
    by (simp add: r(2) io_Poll_def)
  then show ?thesis by (simp add: st_writev_resid_def v on_error_def IO_NOT_READY_ERROR_def)
qed

lemma st_writev_resid_zero_timeout_waits_witness:
  "st_writev_resid [[1, 2]] 0 [Ret 1, Ret 1] \<lparr>wake_ups = [], io_err = EOK\<rparr> = None"
  using st_writev_resid_zero_timeout_waits [of 1 "[[1, 2]]" "[Ret 1]" EOK] by simp

text \<open>
  C32: What \<open>inner_recv\<close> returns: either the number of bytes of one successful \<open>recv\<close>, delivered in the buffer, or -1, or, only when
  the caller asked not to wait, 0 with \<open>errno\<close> \<open>EAGAIN\<close>. So with timeout 0 the result 0 does not tell a closed
  connection from one that has no data yet.
\<close>

theorem inner_recv_result:
  assumes "n < 2 ^ 31" and "inner_recv n timeout xs s = Some (r, d, s')"
  shows "((\<exists>bs. Ret bs \<in> set xs \<and> d = Some (take n bs) \<and> r = int (length (take n bs)))
      \<or> (d = None \<and> (r = - 1 \<or> (r = 0 \<and> timeout = 0 \<and> io_err s' = EAGAIN))))
    \<and> inner_recv n 0 [Ret []] s = Some (0, Some [], s)
    \<and> inner_recv n 0 [Fail EAGAIN] s = Some (0, None, s\<lparr>io_err := EAGAIN\<rparr>)"
proof -
  have n: "to_int32 (int (length (take n bs))) = int (length (take n bs))" for bs :: "byte list"
    using assms(1) by (intro to_int32_small) auto
  have z: "to_int32 0 = 0" by (simp add: to_int32_def)
  have "(\<exists>v. d = Some v \<and> Ret v \<in> set (map (received n) xs) \<and> r = to_int32 (int (length v)))
      \<or> (d = None \<and> (r = - 1 \<or> (r = 0 \<and> timeout = 0 \<and> io_err s' = EAGAIN)))"
    using retry_loop_result [OF assms(2) [unfolded inner_recv_def]] by blast
  moreover have "\<exists>bs. Ret bs \<in> set xs \<and> v = take n bs" if v: "Ret v \<in> set (map (received n) xs)" for v
    using v by (auto simp: received_def split: answer.splits)
  ultimately have "(\<exists>bs. Ret bs \<in> set xs \<and> d = Some (take n bs) \<and> r = int (length (take n bs)))
      \<or> (d = None \<and> (r = - 1 \<or> (r = 0 \<and> timeout = 0 \<and> io_err s' = EAGAIN)))"
    by (metis n)
  then show ?thesis using z by (simp add: inner_recv_def received_def on_error_def IO_NOT_READY_ERROR_def)
qed

lemma inner_recv_result_witness:
  "inner_recv 2 (- 1) [Fail EINTR, Ret [7, 8, 9]] \<lparr>wake_ups = [], io_err = EOK\<rparr> = Some (2, Some [7, 8], \<lparr>wake_ups = [], io_err = EINTR\<rparr>)
   \<and> inner_recv 2 0 [Ret []] \<lparr>wake_ups = [], io_err = EOK\<rparr> = Some (0, Some [], \<lparr>wake_ups = [], io_err = EOK\<rparr>)"
proof -
  have 1: "inner_recv 2 (- 1) [Fail EINTR, Ret [7, 8, 9]] \<lparr>wake_ups = [], io_err = EOK\<rparr> = Some (2, Some [7, 8], \<lparr>wake_ups = [], io_err = EINTR\<rparr>)"
    by (simp add: inner_recv_def received_def on_error_def to_int32_def)
  show ?thesis using 1 inner_recv_result [of 2 "- 1" "[Ret [7]]" "\<lparr>wake_ups = [], io_err = EOK\<rparr>" 1 "Some [7]" "\<lparr>wake_ups = [], io_err = EOK\<rparr>"]
    by (simp add: inner_recv_def received_def to_int32_def)
qed



text \<open>
  A refused connection: the epoll model reports an error on the socket, so \<open>Poll\<close> returns -1 and \<open>inner_connect\<close> returns before it
  asks for \<open>SO_ERROR\<close>. \<open>errno\<close> keeps saying \<open>EINPROGRESS\<close>, whatever the reason was.
\<close>

theorem inner_connect_refused_hides_reason:
  assumes "timeout \<noteq> 0" and "re AND POLL_EXCEPTION \<noteq> 0" and "re AND POLLNVAL = 0"
  shows "inner_connect False timeout (Ret reason) (Fail EINPROGRESS # xs) \<lparr>wake_ups = Woken False re # ws, io_err = e\<rparr>
    = Some (- 1, \<lparr>wake_ups = ws, io_err = EINPROGRESS\<rparr>)"
  using assms by (simp add: inner_connect_def io_Poll_def Poll_return_def Let_def)

lemma inner_connect_refused_hides_reason_witness:
  "inner_connect False 1000 (Ret (Errno 111)) [Fail EINPROGRESS] \<lparr>wake_ups = [Woken False (POLLOUT OR POLLERR OR POLLHUP)], io_err = EOK\<rparr>
    = Some (- 1, \<lparr>wake_ups = [], io_err = EINPROGRESS\<rparr>)"
  by (rule inner_connect_refused_hides_reason) (simp_all add: POLL_EXCEPTION_def)

text \<open>
  While \<open>connect\<close> is answered with \<open>EINTR\<close> the call asks again at once, without giving the thread to other tasks and
  whatever time limit it was given. On Windows that is also how \<open>get_errno\<close> reports an attempt that is still under way.
\<close>

theorem inner_connect_spins_on_interruption:
  assumes "timeout \<noteq> 0"
  shows "inner_connect win timeout so (replicate n (Fail EINTR)) s = None
    \<and> inner_connect win timeout so (replicate n (Fail EINTR) @ [Ret ()]) s = Some (0, if n = 0 then s else s\<lparr>io_err := EINTR\<rparr>)"
proof -
  have "connect_loop win timeout so b (replicate n (Fail EINTR)) s = None
    \<and> connect_loop win timeout so b (replicate n (Fail EINTR) @ [Ret ()]) s = Some (0, if n = 0 then s else s\<lparr>io_err := EINTR\<rparr>)" for b
    using assms by (induction n arbitrary: b s) (auto simp: Let_def)
  then show ?thesis by (simp add: inner_connect_def)
qed

lemma inner_connect_spins_on_interruption_witness:
  "inner_connect True 5 (Ret EOK) (replicate 1000 (Fail EINTR)) \<lparr>wake_ups = [], io_err = EOK\<rparr> = None"
  using inner_connect_spins_on_interruption [of 5 True "Ret EOK" 1000] by simp

end
