(* ===== verification/Net_Errno.thy ===== *)
theory Net_Errno
  imports Prelude
begin

text \<open>
  \<open>get_errno\<close> and \<open>set_errno\<close> of \<open>netio/inner_net/net_fd.cpp\<close>: outside Windows they read and write \<open>errno\<close>, on Windows
  the last error of the thread, whose Winsock codes \<open>get_errno\<close> translates to those of POSIX. The codes are those
  of \<open>winsock2.h\<close> and \<open>errno.h\<close> of that system.
\<close>

section \<open>The error of a thread\<close>

record thread_error =
  last_error :: int
  c_errno :: int

definition WSABASEERR :: int where
  "WSABASEERR = 10000"

text \<open>The cases of the switch, in its order: the Winsock code and the code it becomes.\<close>

definition winsock_codes :: "(int \<times> int) list" where
  "winsock_codes =
    [(10004, 4), \<comment> \<open>WSAEINTR, EINTR\<close>
     (10009, 9), \<comment> \<open>WSAEBADF, EBADF\<close>
     (10013, 13), \<comment> \<open>WSAEACCES, EACCES\<close>
     (10014, 14), \<comment> \<open>WSAEFAULT, EFAULT\<close>
     (10022, 22), \<comment> \<open>WSAEINVAL, EINVAL\<close>
     (10024, 24), \<comment> \<open>WSAEMFILE, EMFILE\<close>
     (10035, 11), \<comment> \<open>WSAEWOULDBLOCK, EAGAIN\<close>
     (10036, 4), \<comment> \<open>WSAEINPROGRESS, EINTR\<close>
     (10037, 4), \<comment> \<open>WSAEALREADY, EINTR\<close>
     (10038, 128), \<comment> \<open>WSAENOTSOCK, ENOTSOCK\<close>
     (10039, 109), \<comment> \<open>WSAEDESTADDRREQ, EDESTADDRREQ\<close>
     (10040, 115), \<comment> \<open>WSAEMSGSIZE, EMSGSIZE\<close>
     (10041, 136), \<comment> \<open>WSAEPROTOTYPE, EPROTOTYPE\<close>
     (10042, 123), \<comment> \<open>WSAENOPROTOOPT, ENOPROTOOPT\<close>
     (10045, 130), \<comment> \<open>WSAEOPNOTSUPP, EOPNOTSUPP\<close>
     (10048, 100), \<comment> \<open>WSAEADDRINUSE, EADDRINUSE\<close>
     (10049, 101), \<comment> \<open>WSAEADDRNOTAVAIL, EADDRNOTAVAIL\<close>
     (10053, 106), \<comment> \<open>WSAECONNABORTED, ECONNABORTED\<close>
     (10054, 108), \<comment> \<open>WSAECONNRESET, ECONNRESET\<close>
     (10056, 113), \<comment> \<open>WSAEISCONN, EISCONN\<close>
     (10057, 126), \<comment> \<open>WSAENOTCONN, ENOTCONN\<close>
     (10060, 138), \<comment> \<open>WSAETIMEDOUT, ETIMEDOUT\<close>
     (10061, 107), \<comment> \<open>WSAECONNREFUSED, ECONNREFUSED\<close>
     (10065, 110)] \<comment> \<open>WSAEHOSTUNREACH, EHOSTUNREACH\<close>"

definition get_errno :: "bool \<Rightarrow> thread_error \<Rightarrow> int" where
  "get_errno win s =
     (if win then
        (if last_error s < WSABASEERR then last_error s
         else case map_of winsock_codes (last_error s) of None \<Rightarrow> last_error s | Some e \<Rightarrow> e)
      else c_errno s)"

definition set_errno :: "bool \<Rightarrow> int \<Rightarrow> thread_error \<Rightarrow> thread_error" where
  "set_errno win e s = (if win then s\<lparr>last_error := e\<rparr> else s\<lparr>c_errno := e\<rparr>)"

section \<open>Reading back an error\<close>

lemma winsock_range: "(k, e) \<in> set winsock_codes \<Longrightarrow> WSABASEERR \<le> k \<and> 0 < e \<and> e < WSABASEERR"
  by (auto simp: winsock_codes_def WSABASEERR_def)

lemma winsock_distinct: "distinct (map fst winsock_codes)"
  by (simp add: winsock_codes_def)

text \<open>
  What \<open>set_errno\<close> stores \<open>get_errno\<close> reads: a POSIX code as itself, on Windows a Winsock code as the POSIX code of the
  table, and a Winsock code outside the table as itself. Reading does not change the error, and storing again what
  was read gives the same reading.
\<close>

theorem errno_roundtrip:
  shows "get_errno win (set_errno win e s)
    = (if \<not> win \<or> e < WSABASEERR then e else (case map_of winsock_codes e of None \<Rightarrow> e | Some p \<Rightarrow> p))
    \<and> get_errno win (set_errno win (get_errno win s) s) = get_errno win s"
proof
  show "get_errno win (set_errno win e s)
    = (if \<not> win \<or> e < WSABASEERR then e else (case map_of winsock_codes e of None \<Rightarrow> e | Some p \<Rightarrow> p))"
    by (auto simp: get_errno_def set_errno_def split: option.splits)
  have "get_errno True s < WSABASEERR \<or> map_of winsock_codes (get_errno True s) = None"
  proof (cases "map_of winsock_codes (last_error s)")
    case (Some p)
    then have "p < WSABASEERR" using winsock_range [OF map_of_SomeD [OF Some]] by simp
    then show ?thesis using Some by (simp add: get_errno_def)
  qed (simp add: get_errno_def)
  then show "get_errno win (set_errno win (get_errno win s) s) = get_errno win s"
    by (auto simp: get_errno_def set_errno_def)
qed

text \<open>
  On Windows a connection attempt that is under way (\<open>WSAEALREADY\<close>) or a call in progress (\<open>WSAEINPROGRESS\<close>) reads as an
  interruption, and nothing else but \<open>WSAEINTR\<close> does.
\<close>

theorem winsock_interruptions:
  assumes "WSABASEERR \<le> e"
  shows "get_errno True (set_errno True e s) = 4 \<longleftrightarrow> e \<in> {10004, 10036, 10037}"
proof (cases "map_of winsock_codes e")
  case None
  then have "e \<notin> {10004, 10036, 10037}" by (auto simp: winsock_codes_def)
  then show ?thesis using assms None by (simp add: get_errno_def set_errno_def WSABASEERR_def)
next
  case (Some p)
  then have "(e, p) \<in> set winsock_codes" by (rule map_of_SomeD)
  then have "p = 4 \<longleftrightarrow> e \<in> {10004, 10036, 10037}" by (auto simp: winsock_codes_def)
  then show ?thesis using assms Some by (simp add: get_errno_def set_errno_def)
qed

lemma winsock_interruptions_witness:
  "get_errno True (set_errno True 10037 \<lparr>last_error = 0, c_errno = 0\<rparr>) = 4
   \<and> get_errno True (set_errno True 10035 \<lparr>last_error = 0, c_errno = 0\<rparr>) \<noteq> 4"
  using winsock_interruptions [of 10037 "\<lparr>last_error = 0, c_errno = 0\<rparr>"] winsock_interruptions [of 10035 "\<lparr>last_error = 0, c_errno = 0\<rparr>"]
  by (simp add: WSABASEERR_def)

end
