(* ===== verification/Select_Wait.thy ===== *)
theory Select_Wait
  imports Io_Wait
begin

text \<open>
  \<open>SelectIoWait\<close> of \<open>netio/inner_net/select_io_wait.h\<close> and \<open>select_io_wait.cpp\<close>, for Windows and for Unix (\<open>win\<close>).
  The three descriptor sets are predicates; what \<open>select\<close> returns and leaves in its copies of the sets are arguments.
\<close>

section \<open>State\<close>

record select_wait = io_wait +
  read_set :: "int \<Rightarrow> bool"
  write_set :: "int \<Rightarrow> bool"
  exception_set :: "int \<Rightarrow> bool"
  maxfd :: int

definition FD_SETSIZE :: nat where
  "FD_SETSIZE = 1024"

definition revents_of :: "'z io_wait_scheme \<Rightarrow> addr \<Rightarrow> uint32" where
  "revents_of w a = of_short (revents (osfd (nfd w a)))"

definition select_InitModule :: "int \<Rightarrow> select_wait \<Rightarrow> select_wait" where
  "select_InitModule notify w =
     w\<lparr>read_set := (\<lambda>f. False)(notify := True), write_set := (\<lambda>f. False), exception_set := (\<lambda>f. False), maxfd := max 0 notify\<rparr>"

section \<open>Registering and unregistering\<close>

definition select_PollsetAdd :: "bool \<Rightarrow> addr \<Rightarrow> uint32 \<Rightarrow> select_wait \<Rightarrow> (bool \<times> select_wait) option" where
  "select_PollsetAdd win a ev w = do {
     assert_c (owner (nfd w a) = None);
     CheckRepeatNetFD a w;
     let f = fd_of w a;
     Some (
       if f < 0 \<or> ev = 0 \<or> ev AND NOT (POLLIN OR POLLOUT OR POLLPRI) \<noteq> 0
         \<or> (if win then length (fd_map w) \<ge> FD_SETSIZE else f \<ge> int FD_SETSIZE)
       then (False, w\<lparr>err := EINVAL\<rparr>)
       else
         let w = upd_nfd a (set_events (events_of w a OR ev)) w; ev = events_of w a;
             w = (if ev AND POLLIN \<noteq> 0 then w\<lparr>read_set := (read_set w)(f := True)\<rparr> else w);
             w = (if ev AND POLLOUT \<noteq> 0 then w\<lparr>write_set := (write_set w)(f := True)\<rparr> else w);
             w = (if ev AND POLLPRI \<noteq> 0 then w\<lparr>exception_set := (exception_set w)(f := True)\<rparr> else w)
         in (True, w\<lparr>maxfd := max (maxfd w) f\<rparr>)) }"

definition select_PollsetDel :: "bool \<Rightarrow> addr \<Rightarrow> uint32 \<Rightarrow> select_wait \<Rightarrow> select_wait" where
  "select_PollsetDel win a ev w =
     (if events_of w a = 0 then w
      else
        let f = fd_of w a;
            w = (if ev AND POLLIN \<noteq> 0 \<or> ev = 0 then w\<lparr>read_set := (read_set w)(f := False)\<rparr> else w);
            w = (if ev AND POLLOUT \<noteq> 0 \<or> ev = 0 then w\<lparr>write_set := (write_set w)(f := False)\<rparr> else w);
            w = (if win \<and> revents_of w a AND (POLLPRI OR POLLOUT) \<noteq> 0
                 then upd_nfd a (set_events (events_of w a AND NOT (POLLPRI OR POLLOUT)))
                   (w\<lparr>write_set := (write_set w)(f := False), exception_set := (exception_set w)(f := False)\<rparr>)
                 else w);
            w = (if ev AND POLLPRI \<noteq> 0 then w\<lparr>exception_set := (exception_set w)(f := False)\<rparr> else w)
        in upd_nfd a (set_events (events_of w a AND NOT ev)) w)"

definition select_PollsetTimeoutDel :: "bool \<Rightarrow> addr \<Rightarrow> select_wait \<Rightarrow> select_wait option" where
  "select_PollsetTimeoutDel win a w = do {
     let f = fd_of w a;
     assert_c (same_fd f w \<noteq> []);
     let (w, m) = timeout_scan a (same_fd f w) (w, 0);
     Some (if m AND events_of w a = 0 then select_PollsetDel win a (events_of w a) w else w) }"

definition select_timeout :: "bool \<Rightarrow> addr \<Rightarrow> select_wait \<Rightarrow> select_wait option" where
  "select_timeout win a w = do {
     w \<leftarrow> select_PollsetTimeoutDel win a (w\<lparr>armed := (armed w)(a := False)\<rparr>);
     RemoveNetFD2TaskRunnable a w }"

section \<open>The event loop\<close>

text \<open>The bits that the sets \<open>rs\<close>, \<open>ws\<close>, \<open>es\<close> left by \<open>select\<close> give to a \<open>NetFD\<close>.\<close>

definition came :: "(int \<Rightarrow> bool) \<Rightarrow> (int \<Rightarrow> bool) \<Rightarrow> (int \<Rightarrow> bool) \<Rightarrow> 'z io_wait_scheme \<Rightarrow> addr \<Rightarrow> uint32" where
  "came rs ws es w a =
     (if events_of w a AND POLLIN \<noteq> 0 \<and> rs (fd_of w a) then POLLIN else 0)
     OR (if events_of w a AND POLLOUT \<noteq> 0 \<and> ws (fd_of w a) then POLLOUT else 0)
     OR (if events_of w a AND POLLPRI \<noteq> 0 \<and> es (fd_of w a) then POLLPRI else 0)"

primrec select_loop ::
  "bool \<Rightarrow> (int \<Rightarrow> bool) \<Rightarrow> (int \<Rightarrow> bool) \<Rightarrow> (int \<Rightarrow> bool) \<Rightarrow> (int \<times> addr) list \<Rightarrow> select_wait \<Rightarrow> select_wait option" where
  "select_loop win rs ws es [] w = Some w"
| "select_loop win rs ws es (x # xs) w = (let a = snd x; ev = events_of w a in do {
     let w = upd_nfd a (set_revents (revents_of w a OR came rs ws es w a)) w;
     if revents_of w a \<noteq> 0 \<and> revents_of w a AND ev \<noteq> 0 then do {
       let w = w\<lparr>fd_map := filter (\<lambda>y. y \<noteq> x) (fd_map w)\<rparr>;
       let w = select_PollsetDel win a (revents_of w a) w;
       w \<leftarrow> RemoveNetFD2TaskRunnable a w;
       select_loop win rs ws es xs (StopTimer a w) }
     else select_loop win rs ws es xs w })"

definition select_WaitLoop ::
  "bool \<Rightarrow> int \<Rightarrow> (int \<Rightarrow> bool) \<Rightarrow> (int \<Rightarrow> bool) \<Rightarrow> (int \<Rightarrow> bool) \<Rightarrow> errno \<Rightarrow> select_wait \<Rightarrow> (int \<times> select_wait) option" where
  "select_WaitLoop win n rs ws es e w =
     (if n > 0 then map_option (Pair n) (select_loop win rs ws es (fd_map w) w)
      else if n < 0 then do { assert_c (e \<noteq> EBADF); Some (n, w\<lparr>err := e\<rparr>) }
      else Some (n, w))"

section \<open>Poll\<close>

definition select_Poll_enter :: "bool \<Rightarrow> ptr \<Rightarrow> addr \<Rightarrow> uint32 \<Rightarrow> int \<Rightarrow> select_wait \<Rightarrow> (bool \<times> select_wait) option" where
  "select_Poll_enter win cur a ev timeout w = do {
     (ok, w) \<leftarrow> select_PollsetAdd win a ev w;
     if \<not> ok then Some (False, w) else do {
       tk \<leftarrow> cur;
       let w = upd_nfd a (owner_update (\<lambda>_. Some tk)) w;
       let w = w\<lparr>fd_map := mm_insert (fd_of w a) a (fd_map w), frames := (frames w)(a := timeout)\<rparr>;
       let w = (if timeout > 0 then CreateTimer a w else w);
       w \<leftarrow> CoSwitch tk w;
       Some (True, w) } }"

text \<open>After a timeout the function returns before it clears the owner.\<close>

definition select_Poll_exit :: "addr \<Rightarrow> select_wait \<Rightarrow> int \<times> select_wait" where
  "select_Poll_exit a w =
     (let w = upd_nfd a (set_revents 0) w in
      if frames w a > 0 \<and> has_timer (nfd w a)
      then (- 1, (upd_nfd a (has_timer_update (\<lambda>_. False)) w)\<lparr>err := ETIME\<rparr>)
      else (0, upd_nfd a (owner_update (\<lambda>_. None)) w))"

section \<open>Facts\<close>

lemma PollsetDel_simps [simp]:
  "fd_map (select_PollsetDel win a ev w) = fd_map w" "suspended (select_PollsetDel win a ev w) = suspended w"
  "b \<noteq> a \<Longrightarrow> nfd (select_PollsetDel win a ev w) b = nfd w b"
  "owner (nfd (select_PollsetDel win a ev w) b) = owner (nfd w b)"
  by (auto simp: select_PollsetDel_def Let_def)

lemma came_small: "of_short (to_short (came rs ws es w a)) = came rs ws es w a"
  by (rule short_bits) (auto simp: came_def)

lemma came_asked: "came rs ws es w a \<noteq> 0 \<Longrightarrow> came rs ws es w a AND events_of w a \<noteq> 0"
proof -
  let ?c = "came rs ws es w a" and ?e = "events_of w a"
  assume "?c \<noteq> 0"
  then consider "?e AND POLLIN \<noteq> 0" "rs (fd_of w a)" | "?e AND POLLOUT \<noteq> 0" "ws (fd_of w a)" | "?e AND POLLPRI \<noteq> 0" "es (fd_of w a)"
    by (auto simp: came_def split: if_splits)
  then show ?thesis
  proof cases
    case 1
    then have "?c AND POLLIN = POLLIN" by (auto simp: came_def)
    then have "(?c AND ?e) AND POLLIN = ?e AND POLLIN" by (metis and.assoc and.commute)
    then show ?thesis using 1 by auto
  next
    case 2
    then have "?c AND POLLOUT = POLLOUT" by (auto simp: came_def)
    then have "(?c AND ?e) AND POLLOUT = ?e AND POLLOUT" by (metis and.assoc and.commute)
    then show ?thesis using 2 by auto
  next
    case 3
    then have "?c AND POLLPRI = POLLPRI" by (auto simp: came_def)
    then have "(?c AND ?e) AND POLLPRI = ?e AND POLLPRI" by (metis and.assoc and.commute)
    then show ?thesis using 3 by auto
  qed
qed

lemma came_cong: "nfd w' a = nfd w a \<Longrightarrow> came rs ws es w' a = came rs ws es w a"
  by (simp add: came_def events_of_def fd_of_def)

lemma select_loop_ok:
  "distinct (map snd xs) \<Longrightarrow> \<forall>x\<in>set xs. revents_of w (snd x) = 0 \<and> owner (nfd w (snd x)) \<noteq> None \<Longrightarrow>
   \<exists>w'. select_loop win rs ws es xs w = Some w'
     \<and> fd_map w' = filter (\<lambda>y. \<not> (y \<in> set xs \<and> came rs ws es w (snd y) \<noteq> 0)) (fd_map w)
     \<and> (\<forall>t. suspended w' t \<longleftrightarrow> suspended w t \<and> (\<forall>x\<in>set xs. came rs ws es w (snd x) \<noteq> 0 \<longrightarrow> owner (nfd w (snd x)) \<noteq> Some t))"
proof (induction xs arbitrary: w)
  case (Cons x xs)
  let ?a = "snd x"
  obtain t0 where t0: "owner (nfd w ?a) = Some t0" using Cons.prems(2) by auto
  define v where "v = upd_nfd ?a (set_revents (revents_of w ?a OR came rs ws es w ?a)) w"
  have rv: "revents_of v ?a = came rs ws es w ?a" using Cons.prems(2) by (simp add: v_def revents_of_def came_small)
  have vo: "owner (nfd v b) = owner (nfd w b)" "b \<noteq> ?a \<Longrightarrow> nfd v b = nfd w b" for b by (auto simp: v_def)
  have go: "\<exists>w'. select_loop win rs ws es xs u = Some w'
     \<and> fd_map w' = filter (\<lambda>y. \<not> (y \<in> set xs \<and> came rs ws es w (snd y) \<noteq> 0)) (fd_map u)
     \<and> (\<forall>t. suspended w' t \<longleftrightarrow> suspended u t \<and> (\<forall>x\<in>set xs. came rs ws es w (snd x) \<noteq> 0 \<longrightarrow> owner (nfd w (snd x)) \<noteq> Some t))"
    if u: "\<And>b. b \<noteq> ?a \<Longrightarrow> nfd u b = nfd w b" for u
  proof -
    have n: "nfd u (snd y) = nfd w (snd y)" if "y \<in> set xs" for y
    proof (rule u)
      have "snd y \<in> snd ` set xs" "snd x \<notin> snd ` set xs" using that Cons.prems(1) by simp_all
      then show "snd y \<noteq> snd x" by metis
    qed
    have c: "y \<in> set xs \<Longrightarrow> came rs ws es u (snd y) = came rs ws es w (snd y)" for y by (rule came_cong) (rule n)
    have "\<forall>x\<in>set xs. revents_of u (snd x) = 0 \<and> owner (nfd u (snd x)) \<noteq> None"
      using Cons.prems(2) n by (simp add: revents_of_def)
    from Cons.IH [OF _ this] Cons.prems(1) c n show ?thesis by (auto cong: conj_cong)
  qed
  show ?case
  proof (cases "came rs ws es w ?a = 0")
    case True
    then have "select_loop win rs ws es (x # xs) w = select_loop win rs ws es xs v"
      unfolding select_loop.simps Let_def v_def [symmetric] by (simp add: rv)
    moreover have "fd_map v = fd_map w" "suspended v = suspended w" by (simp_all add: v_def)
    ultimately show ?thesis using go [of v] vo True by (auto intro!: filter_cong)
  next
    case False
    define u where "u = v\<lparr>fd_map := filter (\<lambda>y. y \<noteq> x) (fd_map v)\<rparr>"
    define z where "z = select_PollsetDel win ?a (revents_of u ?a) u"
    define r where "r = StopTimer ?a (z\<lparr>suspended := (suspended z)(t0 := False)\<rparr>)"
    have e: "events_of w ?a AND came rs ws es w ?a \<noteq> 0" using came_asked [OF False] by (simp add: and.commute)
    have "owner (nfd z ?a) = Some t0" by (simp add: z_def u_def vo t0)
    then have "RemoveNetFD2TaskRunnable ?a z = Some (z\<lparr>suspended := (suspended z)(t0 := False)\<rparr>)" by (simp add: RemoveNetFD2TaskRunnable_def)
    then have l: "select_loop win rs ws es (x # xs) w = select_loop win rs ws es xs r"
      using False came_asked [OF False]
      unfolding select_loop.simps Let_def v_def [symmetric] u_def [symmetric] z_def [symmetric] by (simp add: rv r_def)
    have "nfd r b = nfd w b" if "b \<noteq> ?a" for b using that by (simp add: r_def z_def u_def vo)
    from go [OF this] obtain w' where w': "select_loop win rs ws es xs r = Some w'"
      "fd_map w' = filter (\<lambda>y. \<not> (y \<in> set xs \<and> came rs ws es w (snd y) \<noteq> 0)) (fd_map r)"
      "\<And>t. suspended w' t \<longleftrightarrow> suspended r t \<and> (\<forall>x\<in>set xs. came rs ws es w (snd x) \<noteq> 0 \<longrightarrow> owner (nfd w (snd x)) \<noteq> Some t)" by blast
    have m: "fd_map r = filter (\<lambda>y. y \<noteq> x) (fd_map w)" "suspended r = (suspended w)(t0 := False)"
      by (simp_all add: r_def z_def u_def v_def)
    have "fd_map w' = filter (\<lambda>y. \<not> (y \<in> set (x # xs) \<and> came rs ws es w (snd y) \<noteq> 0)) (fd_map w)"
      using False unfolding w'(2) m filter_filter by (intro filter_cong) auto
    then show ?thesis using l w'(1,3) m(2) False t0 by auto
  qed
qed simp

section \<open>Properties\<close>


definition two_waiting :: select_wait where
  "two_waiting = \<lparr>nfd = (\<lambda>a. \<lparr>osfd = \<lparr>fd = 7, events = 0, revents = 0\<rparr>, owner = None, has_timer = False, share_fd = Some 0\<rparr>)
      (5 := \<lparr>osfd = \<lparr>fd = 7, events = 1, revents = 0\<rparr>, owner = Some 1, has_timer = True, share_fd = Some 0\<rparr>,
       6 := \<lparr>osfd = \<lparr>fd = 7, events = 4, revents = 0\<rparr>, owner = Some 2, has_timer = False, share_fd = Some 0\<rparr>),
     fd_map = [(7, 5), (7, 6)], suspended = (\<lambda>t. t = 1 \<or> t = 2), armed = (\<lambda>a. a = 5), frames = (\<lambda>a. 0)(5 := 100), err = EOK,
     read_set = (\<lambda>f. f = 7), write_set = (\<lambda>f. f = 7), exception_set = (\<lambda>f. False), maxfd = 7\<rparr>"


text \<open>
  A \<open>Poll\<close> of the select model that timed out returns -1 with \<open>ETIME\<close> but leaves the owner of the \<open>NetFD\<close> set: the next
  \<open>Poll\<close> on it, and so the next call of the program that has to wait for it, ends the program.
\<close>

theorem select_timeout_keeps_owner:
  assumes "0 < frames w a" and "has_timer (nfd w a)" and "owner (nfd w a) = Some t"
  shows "fst (select_Poll_exit a w) = - 1 \<and> err (snd (select_Poll_exit a w)) = ETIME
    \<and> owner (nfd (snd (select_Poll_exit a w)) a) = Some t
    \<and> select_Poll_enter win cur a ev timeout (snd (select_Poll_exit a w)) = None"
proof -
  let ?w = "snd (select_Poll_exit a w)"
  have o: "owner (nfd ?w a) = Some t" using assms by (simp add: select_Poll_exit_def Let_def)
  then have "select_PollsetAdd win a ev ?w = None" by (simp add: select_PollsetAdd_def)
  then show ?thesis using o assms by (simp add: select_Poll_enter_def) (simp add: select_Poll_exit_def Let_def)
qed

lemma select_timeout_keeps_owner_witness:
  "fst (select_Poll_exit 5 two_waiting) = - 1 \<and> select_Poll_enter False (Some 1) 5 POLLIN 100 (snd (select_Poll_exit 5 two_waiting)) = None"
  using select_timeout_keeps_owner [of two_waiting 5 1 False "Some 1" POLLIN 100] by (simp add: two_waiting_def)

end
