(* ===== verification/Spec2Isabelle.thy ===== *)
theory Spec2Isabelle
  imports Wait_Queue Spinlock Lock_Free_Spsc Idle_Loop Dispatcher Runtime Clock Dbg_Timer Thread_Cycles Mem_Info Debug_Line Channel_Tasks
    Co_Condvar Net_Io Net_Errno Select_Wait
begin

text \<open>
  A verification library for the coroutine runtime under \<open>src/cpp_go\<close>.

  \<^bold>\<open>The program.\<close> A \<open>Scheduler\<close> (\<open>scheduler/scheduler.cpp\<close>) owns one \<open>Processer\<close> (\<open>scheduler/processer.cpp\<close>) per thread. A
  \<open>Processer\<close> runs the tasks of its runnable queue in turn, each on a stack of its own (\<open>task/\<close>,
  \<open>context/\<close>); new tasks arrive in a second queue that other threads may fill, and the scheduler moves
  tasks between processers that are blocked or unevenly loaded. Tasks wait for each other with channels,
  mutexes and condition variables (\<open>sync/\<close>), for the time with timers (\<open>timer/\<close>), and for sockets with
  the wrappers of \<open>netio/inner_net/\<close>, which turn a blocking call into a registration with epoll or select and a
  switch to the next task. The queues are intrusive lists (\<open>common/ts_queue.h\<close>) under spin locks. A program
  talks to all of this through \<open>go\<close> statements (\<open>common/syntax_helper.h\<close>).

  \<^bold>\<open>Conventions.\<close> An operation returns \<open>None\<close> when it dereferences a null or freed pointer, uses an iterator
  that is not valid, or fails an \<open>assert\<close>; so a theorem that it returns \<open>Some\<close> states memory safety too.
  Machine integers are words where their wrap-around matters and mathematical integers elsewhere. Time,
  what the operating system answers, memory allocation and the assembly that switches stacks are
  arguments of the definitions. Code that runs concurrently is split at every access to shared state, and a
  step relation interleaves the steps; the memory model is sequentially consistent.

  \<^bold>\<open>Theories\<close>, in the order of their use:
  \<^item> \<open>Prelude\<close>: machine types, operations that may abort, refinement of operation sequences
    (locale \<open>data_refinement\<close>) and transition systems with an invariant (locale \<open>invariant_system\<close>).
  \<^item> \<open>Hook_Heap\<close>, \<open>Slist\<close>, \<open>Ts_Queue\<close>: \<open>TSQueueHook\<close>, \<open>SList\<close> and \<open>TSQueue\<close> of \<open>common/ts_queue.h\<close> on a store of hooks.
    Every operation refines one on lists; batches can be cut, moved and appended without loss; \<open>AssertLink\<close> holds.
  \<^item> \<open>Spinlock\<close>: the locks of \<open>common/spinlock.h\<close>, with mutual exclusion over all interleavings.
  \<^item> \<open>Ring_Buffer\<close>, \<open>Wait_Queue\<close>, \<open>Lock_Free_Ring\<close>: \<open>sync/ringbuffer.h\<close>, \<open>sync/wait_queue.h\<close> and
    \<open>common/lock_free_ring_queue.h\<close> refine bounded FIFO queues as long as the counters do not wrap or the size
    divides their range; what goes wrong otherwise, and when calls of the lock-free queue overlap, is shown.
  \<^item> \<open>Lock_Free_Spsc\<close>: the lock-free queue with one producer and one consumer, whose steps interleave in any order, is safe and
    in order.
  \<^item> \<open>Task_Context\<close>: stacks, protected zones, the bookkeeping of context switches and the life of a task.
  \<^item> \<open>Multimap\<close>, \<open>Timer\<close>: the timer manager over a sorted association list (locale \<open>multimap\<close>): expired
    timers fire once and in order, whatever their callbacks add or stop.
  \<^item> \<open>Task_Pool\<close>: the cache of finished tasks by stack size (interpretation of \<open>multimap\<close>).
  \<^item> \<open>Processer\<close>: the run loop, suspension, sleeping, stealing and the detection of blocked threads.
  \<^item> \<open>Idle_Loop\<close>: a processer with nothing to run, the sockets that interrupt its wait, and the threads that wake its tasks,
    interleaved; no wake-up is lost (interpretation of \<open>invariant_system\<close>).
  \<^item> \<open>Scheduler\<close>: distribution and balancing of tasks, timers, start and stop, the dispatcher.
  \<^item> \<open>Shutdown\<close>: the threads of a scheduler at \<open>Stop\<close>, interleaved (interpretation of \<open>invariant_system\<close>): when the call
    returns every thread has ended, and it does return, by a rank that every step lowers.
  \<^item> \<open>Decimal\<close>, \<open>Common\<close>: numbers in texts; counters, source locations, error codes, saved \<open>errno\<close>, formatting and options
    (\<open>common/util.h\<close>, \<open>error.cpp\<close>, \<open>config.cpp\<close>).
  \<^item> \<open>Cpu_Load\<close>, \<open>Thread_Cycles\<close>, \<open>Dispatcher\<close>: \<open>ThreadsPhyInfo\<close> for Linux (files under \<open>/proc\<close>) and for Windows
    (cycles), in rounded binary floating point numbers, and the cycles of the dispatcher thread on top of it.
  \<^item> \<open>Mem_Info\<close>: the memory queries and the shares of the whole processor that \<open>OTHER_INFO\<close> adds to \<open>ThreadsPhyInfo\<close>.
  \<^item> \<open>Clock\<close>, \<open>Dbg_Timer\<close>: \<open>FastSteadyClock\<close>, the calibrated clock of the timers, and the timer of the debug output.
  \<^item> \<open>Debug_Line\<close>: the lines that \<open>DebugPrint\<close> writes, whose times sort as texts.
  \<^item> \<open>Runtime\<close>: several schedulers with common tasks and one cache, \<open>go\<close> statements, the exit list and the debugger's
    queries; every sequence of valid calls keeps the runtime well formed.
  \<^item> \<open>Fast_Channel\<close>: \<open>FastChannelImpl\<close> with both of its buffers (locale \<open>bounded_store\<close>): FIFO over every
    sequence of calls, closing, and the entry that a timed-out call leaves behind.
  \<^item> \<open>Channel_Tasks\<close>: tasks that push to and pop from a channel on the run loop of \<open>Processer\<close>: producers and consumers
    with matching numbers of items all finish, and what frequent wake-ups do to the interrupter.
  \<^item> \<open>Co_Mutex\<close>, \<open>Co_Condvar\<close>: the coroutine mutex as a step relation with its invariant (mutual exclusion, no
    lost wake-up, hand-over in order), and the condition variable on top of it.
  \<^item> \<open>Net_Fd\<close>: \<open>NetFD\<close> and its shared descriptor; the use count is the number of sharers.
  \<^item> \<open>Io_Wait\<close>, \<open>Epoll_Wait\<close>, \<open>Select_Wait\<close>: \<open>InnerIoWait\<close> and its two implementations. For epoll, the documented
    behaviour of \<open>epoll_ctl\<close> is the hypothesis \<open>epoll_law\<close>, and an invariant over all interleavings of
    \<open>Poll\<close>, events and timers says that every suspended task is registered and can be woken.
  \<^item> \<open>Net_Io\<close>: the receiving, sending, accepting and connecting loops over any sequence of answers of the
    kernel and of wake-ups: no byte is lost or sent twice by the vectored writes, they end, and what each
    result means.
  \<^item> \<open>Net_Errno\<close>: error numbers on Unix and Windows, where Winsock codes are translated.

  \<^bold>\<open>Bounds.\<close> Loops over lists and over answers are structural recursions; the loops that could run forever
  (\<open>Net_Io\<close>) consume one answer of the environment per round, and a call whose answers run out has no
  result, which means that it is still blocked. Buffers are shorter than $2^{31}$ bytes where the code
  keeps a length in an \<open>int\<close>; task counts stay below $2^{32}$.

  Floating point numbers are rationals that each operation rounds to 24 or 53 binary digits, to even in the middle; the
  exponents of the program's numbers stay far inside the range of the formats.

  \<^bold>\<open>Not modelled\<close>: the assembly of \<open>context/\<close>, code that the configuration leaves out (\<open>TSQueue_DEBUG\<close> apart from
  \<open>AssertLink\<close>, \<open>USE_TASK_GC\<close>, \<open>ENABLE_DEBUGGER\<close>), the output streams of the debug lines, \<open>TimerSuspend\<close>, whose
  functions are declared only, calls that only pass on to the system (\<open>IgnoreSigPipe\<close>, \<open>NativeThreadID\<close>, the Windows wrappers of
  \<open>common/config.h\<close>), and the test programs.
\<close>

end
